(* ===== verification/Ddprof_Prelude.thy ===== *)
theory Ddprof_Prelude
  imports Main "HOL-Library.Word" "HOL-Library.AList"
begin

unbundle bit_operations_syntax

text \<open>
  Shared vocabulary of the development: the machine integer types of the C++ sources, the
  collections of rewrite rules the component theories extend, and generic facts on 64-bit
  words, on association lists (the model of \<^verbatim>\<open>std::unordered_map\<close>) and on lists of bytes.
\<close>

section \<open>Types of the sources\<close>

text \<open>
  Unsigned integers keep their width. \<^verbatim>\<open>pid_t\<close>, \<^verbatim>\<open>int\<close> and \<^verbatim>\<open>int64_t\<close> values on which the
  sources do no wrapping arithmetic are mathematical integers.
\<close>

type_synonym u8 = "8 word"
type_synonym u16 = "16 word"
type_synonym u32 = "32 word"
type_synonym u64 = "64 word"
type_synonym pid_t = int

text \<open>Collections: invariant rules, functional rules of the container models.\<close>

named_theorems container_simps
named_theorems inv_intros

section \<open>Unordered maps\<close>

text \<open>
  A \<^verbatim>\<open>std::unordered_map\<close> is an association list with distinct keys: \<^const>\<open>map_of\<close> is the
  lookup, \<^const>\<open>AList.update\<close> and \<^const>\<open>AList.delete\<close> insert and erase. The access
  \<^verbatim>\<open>m[k]\<close> inserts a value-initialised element when the key is absent: \<open>umap_at\<close> is the
  element read, and a function that goes through \<^verbatim>\<open>m[k]\<close> stores the element back.
\<close>

type_synonym ('k, 'v) umap = "('k \<times> 'v) list"

definition umap_wf :: "('k, 'v) umap \<Rightarrow> bool" where
  "umap_wf m \<longleftrightarrow> distinct (map fst m)"

definition umap_at :: "'v \<Rightarrow> ('k, 'v) umap \<Rightarrow> 'k \<Rightarrow> 'v" where
  "umap_at d m k = (case map_of m k of None \<Rightarrow> d | Some v \<Rightarrow> v)"

lemma umap_wf_empty [simp, inv_intros]: "umap_wf []"
  by (simp add: umap_wf_def)

lemma umap_wf_update [simp, inv_intros]: "umap_wf m \<Longrightarrow> umap_wf (AList.update k v m)"
  by (simp add: umap_wf_def distinct_update)

lemma umap_wf_delete [simp, inv_intros]: "umap_wf m \<Longrightarrow> umap_wf (AList.delete k m)"
  by (simp add: umap_wf_def distinct_delete)

lemma umap_wf_filter [simp, inv_intros]: "umap_wf m \<Longrightarrow> umap_wf (filter P m)"
  by (simp add: umap_wf_def distinct_map_filter)

lemma umap_wf_map_values [simp, inv_intros]:
  "umap_wf m \<Longrightarrow> umap_wf (map (\<lambda>(k, v). (k, f k v)) m)"
  by (simp add: umap_wf_def comp_def case_prod_unfold)

lemma map_of_update [simp, container_simps]:
  "map_of (AList.update k v m) k' = (if k' = k then Some v else map_of m k')"
  by (simp add: update_conv')

lemma map_of_delete [simp, container_simps]:
  "map_of (AList.delete k m) k' = (if k' = k then None else map_of m k')"
  by (simp add: delete_conv')

lemma map_of_map_values [container_simps]:
  "map_of (map (\<lambda>(k, v). (k, f k v)) m) k = map_option (f k) (map_of m k)"
  by (induction m) auto

lemma umap_at_update [simp, container_simps]:
  "umap_at d (AList.update k v m) k' = (if k' = k then v else umap_at d m k')"
  by (simp add: umap_at_def)

lemma umap_at_delete [simp, container_simps]:
  "umap_at d (AList.delete k m) k' = (if k' = k then d else umap_at d m k')"
  by (simp add: umap_at_def)

lemma umap_at_Nil [simp]: "umap_at d [] k = d"
  by (simp add: umap_at_def)

lemma umap_wf_mem_iff:
  "umap_wf m \<Longrightarrow> (k, v) \<in> set m \<longleftrightarrow> map_of m k = Some v"
  by (auto simp: umap_wf_def map_of_is_SomeI dest: map_of_SomeD)

lemma map_of_filter_key:
  "map_of (filter (\<lambda>(k, v). P k) m) k = (if P k then map_of m k else None)"
  by (induction m) auto

lemma set_umap_update:
  "umap_wf m \<Longrightarrow> set (AList.update k v m) = insert (k, v) {p \<in> set m. fst p \<noteq> k}"
  by (auto simp: umap_wf_mem_iff split: if_splits)

lemma set_umap_delete: "set (AList.delete k m) = {p \<in> set m. fst p \<noteq> k}"
  by (auto simp: AList.delete_eq)

lemma find_SomeD: "List.find P xs = Some x \<Longrightarrow> x \<in> set xs \<and> P x"
  by (induction xs) (auto split: if_splits)

section \<open>64-bit words\<close>

lemma u64_less_max_Suc:
  fixes a b :: "'a::len word"
  assumes "a < b" shows "a + 1 \<le> b" and "unat (a + 1) = Suc (unat a)"
proof -
  show "a + 1 \<le> b" using assms by (rule inc_le)
  have "unat b < 2 ^ LENGTH('a)" by (rule unsigned_less)
  with assms have "Suc (unat a) < 2 ^ LENGTH('a)" unfolding word_less_nat_alt by linarith
  then show "unat (a + 1) = Suc (unat a)" by (simp add: unat_word_ariths(1))
qed

lemma word_less_add_one_iff:
  fixes a b m :: "'a::len word"
  assumes "b < m" shows "a < b + 1 \<longleftrightarrow> a \<le> b"
  using u64_less_max_Suc(2) [OF assms] by (simp add: word_less_nat_alt word_le_nat_alt less_Suc_eq_le)

lemma word_add_one_le_iff:
  fixes a b m :: "'a::len word"
  assumes "b < m" shows "b + 1 \<le> a \<longleftrightarrow> b < a"
  using u64_less_max_Suc(2) [OF assms] by (simp add: word_less_nat_alt word_le_nat_alt Suc_le_eq)

lemma word_sub_one_less_iff:
  fixes a b m :: "'a::len word"
  assumes "m < b" shows "b - 1 < a \<longleftrightarrow> b \<le> a" and "a \<le> b - 1 \<longleftrightarrow> a < b" and "b - 1 < b"
proof -
  have b: "0 < b" using assms by (meson le_less_trans word_zero_le)
  then have p: "0 < unat b" by (simp add: word_less_nat_alt)
  have u: "unat (b - 1) = unat b - 1" using b by (intro unat_minus_one) auto
  show "b - 1 < a \<longleftrightarrow> b \<le> a" and "a \<le> b - 1 \<longleftrightarrow> a < b" and "b - 1 < b"
    using u p by (auto simp: word_less_nat_alt word_le_nat_alt)
qed

section \<open>Masks\<close>

lemma unat_mask: "k \<le> 64 \<Longrightarrow> unat (mask k :: u64) = 2 ^ k - 1"
proof -
  assume "k \<le> 64"
  then have "unat (mask k :: u64) = mask k" by (intro bit_eqI) (auto simp: bit_simps)
  then show ?thesis by (simp add: mask_eq_exp_minus_1)
qed

lemma unat_and_mask: "unat (w AND mask k :: u64) = unat w mod 2 ^ k"
proof -
  have "unat (take_bit k w) = take_bit k (unat w)" by (rule unsigned_take_bit_eq)
  then show ?thesis by (simp only: take_bit_eq_mask[symmetric] take_bit_eq_mod[of k "unat w"])
qed

lemma unat_and_not_mask: "unat (w AND NOT (mask k) :: u64) = unat w div 2 ^ k * 2 ^ k"
proof -
  have "unat (w AND NOT (mask k) :: u64) = push_bit k (drop_bit k (unat w))"
    by (rule bit_eqI) (auto simp: bit_simps dest: bit_imp_le_length)
  then show ?thesis by (simp add: push_bit_eq_mult drop_bit_eq_div)
qed

lemma or_mask_nat: "(n::nat) OR mask k = n div 2 ^ k * 2 ^ k + (2 ^ k - 1)"
proof -
  have "push_bit k (drop_bit k n) + mask k = push_bit k (drop_bit k n) OR mask k"
    by (rule disjunctive_add) (auto simp: bit_simps)
  also have "\<dots> = n OR mask k"
    by (rule bit_eqI) (auto simp: bit_simps)
  finally show ?thesis by (simp add: push_bit_eq_mult drop_bit_eq_div mask_eq_exp_minus_1)
qed

lemma unat_or_mask: "k \<le> 64 \<Longrightarrow> unat (w OR mask k :: u64) = unat w div 2 ^ k * 2 ^ k + (2 ^ k - 1)"
proof -
  assume "k \<le> 64"
  then have "unat (mask k :: u64) = mask k" by (intro bit_eqI) (auto simp: bit_simps)
  then show ?thesis by (simp add: unsigned_or_eq or_mask_nat)
qed

lemma u64_less: "unat (w :: u64) < 2 ^ 64"
  using unsigned_less[of w] by simp

lemma unat_add_u64: "unat a + unat b < 2 ^ 64 \<Longrightarrow> unat (a + b :: u64) = unat a + unat b"
  by (simp add: unat_word_ariths(1))

lemma unat_sub_u64: "b \<le> a \<Longrightarrow> unat (a - b :: u64) = unat a - unat b"
  by (simp add: unat_sub word_le_nat_alt)

lemma unat_of_nat_u64: "n < 2 ^ 64 \<Longrightarrow> unat (of_nat n :: u64) = n"
  by (simp add: unat_of_nat)

lemma unat_power_u64: "j < 64 \<Longrightarrow> unat (2 ^ j :: u64) = 2 ^ j"
proof -
  assume "j < 64"
  then have "(2::nat) ^ j < 2 ^ 64" by (intro power_strict_increasing) auto
  then show ?thesis using unat_of_nat_u64[of "2 ^ j"] by simp
qed

lemma and_power_minus_one: "(2 ^ i :: u64) AND (2 ^ i - 1) = 0"
  unfolding mask_eq_exp_minus_1[symmetric] take_bit_eq_mask[symmetric]
  by (rule bit_eqI) (auto simp: bit_simps)

end
