(* ===== verification/Std_Map.thy ===== *)
theory Std_Map
  imports Ddprof_Prelude
begin

text \<open>
  The parts of \<^verbatim>\<open>std::map\<close> the sources use. A map is an association list sorted strictly by
  key. Iterators into a \<^verbatim>\<open>std::map\<close> stay attached to their node when other nodes are
  inserted or erased, so an iterator is the key of its node, and \<^term>\<open>None\<close> is \<^verbatim>\<open>end()\<close>.
  Dereferencing or stepping an iterator with no node is undefined behaviour in C++; the
  functions here give \<^term>\<open>None\<close>, and the component theories show it is never reached.
\<close>

type_synonym ('k, 'v) smap = "('k \<times> 'v) list"
type_synonym 'k smap_it = "'k option"

definition smap_wf :: "('k::linorder, 'v) smap \<Rightarrow> bool" where
  "smap_wf m \<longleftrightarrow> sorted_wrt (<) (map fst m)"

definition smap_begin :: "('k, 'v) smap \<Rightarrow> 'k smap_it" where
  "smap_begin m = (case m of [] \<Rightarrow> None | (k, _) # _ \<Rightarrow> Some k)"

definition smap_find :: "('k, 'v) smap \<Rightarrow> 'k \<Rightarrow> 'k smap_it" where
  "smap_find m k = (case map_of m k of None \<Rightarrow> None | Some _ \<Rightarrow> Some k)"

definition smap_deref :: "('k, 'v) smap \<Rightarrow> 'k smap_it \<Rightarrow> 'v option" where
  "smap_deref m it = (case it of None \<Rightarrow> None | Some k \<Rightarrow> map_of m k)"

text \<open>\<^verbatim>\<open>lower_bound\<close>: first key not less than \<open>k\<close>; \<^verbatim>\<open>upper_bound\<close>: first key greater than \<open>k\<close>.\<close>

definition smap_lower_bound :: "('k::linorder, 'v) smap \<Rightarrow> 'k \<Rightarrow> 'k smap_it" where
  "smap_lower_bound m k = smap_begin (dropWhile (\<lambda>p. fst p < k) m)"

definition smap_upper_bound :: "('k::linorder, 'v) smap \<Rightarrow> 'k \<Rightarrow> 'k smap_it" where
  "smap_upper_bound m k = smap_begin (dropWhile (\<lambda>p. fst p \<le> k) m)"

definition smap_last :: "('k, 'v) smap \<Rightarrow> 'k smap_it" where
  "smap_last m = smap_begin (rev m)"

definition smap_prev :: "('k::linorder, 'v) smap \<Rightarrow> 'k smap_it \<Rightarrow> 'k smap_it" where
  "smap_prev m it = (case it of
      None \<Rightarrow> smap_last m
    | Some k \<Rightarrow> smap_last (takeWhile (\<lambda>p. fst p < k) m))"

definition smap_next :: "('k::linorder, 'v) smap \<Rightarrow> 'k smap_it \<Rightarrow> 'k smap_it" where
  "smap_next m it = (case it of None \<Rightarrow> None | Some k \<Rightarrow> smap_upper_bound m k)"

text \<open>\<^verbatim>\<open>m[k] = v\<close>, \<^verbatim>\<open>m.insert({k, v})\<close> (which keeps an existing element) and \<^verbatim>\<open>m.erase\<close>.\<close>

fun smap_assign :: "'k::linorder \<Rightarrow> 'v \<Rightarrow> ('k, 'v) smap \<Rightarrow> ('k, 'v) smap" where
  "smap_assign k v [] = [(k, v)]"
| "smap_assign k v ((k', v') # m) =
    (if k < k' then (k, v) # (k', v') # m
     else if k = k' then (k, v) # m
     else (k', v') # smap_assign k v m)"

definition smap_insert :: "'k::linorder \<Rightarrow> 'v \<Rightarrow> ('k, 'v) smap \<Rightarrow> ('k, 'v) smap \<times> bool" where
  "smap_insert k v m = (case map_of m k of None \<Rightarrow> (smap_assign k v m, True) | Some _ \<Rightarrow> (m, False))"

definition smap_erase :: "'k \<Rightarrow> ('k, 'v) smap \<Rightarrow> ('k, 'v) smap" where
  "smap_erase k m = filter (\<lambda>p. fst p \<noteq> k) m"

definition in_range :: "'k::linorder smap_it \<Rightarrow> 'k smap_it \<Rightarrow> 'k \<Rightarrow> bool" where
  "in_range f l k = (case f of
      None \<Rightarrow> False
    | Some a \<Rightarrow> a \<le> k \<and> (case l of None \<Rightarrow> True | Some b \<Rightarrow> k < b))"

definition smap_erase_range ::
    "'k::linorder smap_it \<Rightarrow> 'k smap_it \<Rightarrow> ('k, 'v) smap \<Rightarrow> ('k, 'v) smap" where
  "smap_erase_range f l m = filter (\<lambda>p. \<not> in_range f l (fst p)) m"

section \<open>Well-formedness and the set of elements\<close>

lemma smap_wf_Nil [simp, inv_intros]: "smap_wf []"
  by (simp add: smap_wf_def)

lemma smap_wf_Cons [simp]:
  "smap_wf ((k, v) # m) \<longleftrightarrow> (\<forall>p\<in>set m. k < fst p) \<and> smap_wf m"
  by (auto simp: smap_wf_def)

lemma smap_wf_append:
  "smap_wf (m @ n) \<longleftrightarrow> smap_wf m \<and> smap_wf n \<and> (\<forall>p\<in>set m. \<forall>q\<in>set n. fst p < fst q)"
  by (auto simp: smap_wf_def sorted_wrt_append)

lemma smap_wf_distinct: "smap_wf m \<Longrightarrow> distinct (map fst m)"
  by (auto simp: smap_wf_def strict_sorted_iff)

lemma smap_mem_iff: "smap_wf m \<Longrightarrow> (k, v) \<in> set m \<longleftrightarrow> map_of m k = Some v"
  by (auto dest: smap_wf_distinct map_of_SomeD intro: map_of_is_SomeI)

lemma smap_unique_value:
  "smap_wf m \<Longrightarrow> (k, v) \<in> set m \<Longrightarrow> (k, w) \<in> set m \<Longrightarrow> v = w"
  by (simp add: smap_mem_iff)

lemma smap_singleton: "smap_wf m \<Longrightarrow> set m = {p} \<Longrightarrow> m = [p]"
  by (cases m; cases "tl m") (auto simp: smap_wf_def)

lemma set_smap_assign [container_simps]:
  "smap_wf m \<Longrightarrow> set (smap_assign k v m) = insert (k, v) {p \<in> set m. fst p \<noteq> k}"
proof (induction k v m rule: smap_assign.induct)
  case (2 k v k' v' m)
  then have gt: "\<forall>p\<in>set m. k' < fst p" and "smap_wf m" by auto
  from gt have "k \<le> k' \<Longrightarrow> {p \<in> set m. fst p \<noteq> k} = set m" by force
  with 2 show ?case by (cases k k' rule: linorder_cases) (auto intro!: set_eqI)
qed simp

lemma smap_wf_assign [simp, inv_intros]: "smap_wf m \<Longrightarrow> smap_wf (smap_assign k v m)"
proof (induction k v m rule: smap_assign.induct)
  case (2 k v k' v' m)
  then show ?case by (auto simp: set_smap_assign)
qed simp

lemma set_smap_erase [container_simps]: "set (smap_erase k m) = {p \<in> set m. fst p \<noteq> k}"
  by (simp add: smap_erase_def)

lemma set_smap_erase_range [container_simps]:
  "set (smap_erase_range f l m) = {p \<in> set m. \<not> in_range f l (fst p)}"
  by (simp add: smap_erase_range_def)

lemma smap_wf_filter [simp, inv_intros]: "smap_wf m \<Longrightarrow> smap_wf (filter P m)"
  by (induction m) auto

lemma smap_wf_erase [simp, inv_intros]: "smap_wf m \<Longrightarrow> smap_wf (smap_erase k m)"
  by (simp add: smap_erase_def)

lemma smap_wf_erase_range [simp, inv_intros]: "smap_wf m \<Longrightarrow> smap_wf (smap_erase_range f l m)"
  by (simp add: smap_erase_range_def)

lemma map_of_smap_assign [simp, container_simps]:
  "map_of (smap_assign k v m) k' = (if k' = k then Some v else map_of m k')" if "smap_wf m"
  using that by (induction k v m rule: smap_assign.induct) auto

lemma map_of_smap_erase [simp, container_simps]:
  "map_of (smap_erase k m) k' = (if k' = k then None else map_of m k')"
  by (induction m) (auto simp: smap_erase_def)

lemma smap_assign_same: "smap_wf m \<Longrightarrow> map_of m k = Some v \<Longrightarrow> smap_assign k v m = m"
proof (induction k v m rule: smap_assign.induct)
  case (2 k v k' v' m)
  show ?case
  proof (cases "k = k'")
    case False
    then have m: "map_of m k = Some v" using 2(3) by simp
    then have "(k, v) \<in> set m" by (rule map_of_SomeD)
    then have "k' < k" using 2(2) by auto
    then show ?thesis using 2(1)[OF _ False _ m] 2(2) False by simp
  qed (use 2 in simp)
qed simp

lemma smap_assign_snoc: "\<forall>p\<in>set m. fst p < k \<Longrightarrow> smap_assign k v m = m @ [(k, v)]"
  by (induction k v m rule: smap_assign.induct) (auto dest: less_asym)

lemma foldl_smap_assign:
  "smap_wf (acc @ m) \<Longrightarrow>
   foldl (\<lambda>acc p. smap_assign (fst p) (f (snd p)) acc) acc m = acc @ map (\<lambda>p. (fst p, f (snd p))) m"
proof (induction m arbitrary: acc)
  case (Cons p m)
  then have "smap_assign (fst p) (f (snd p)) acc = acc @ [(fst p, f (snd p))]"
    by (intro smap_assign_snoc) (auto simp: smap_wf_append)
  moreover have "smap_wf ((acc @ [(fst p, f (snd p))]) @ m)"
    using Cons.prems by (cases p) (auto simp: smap_wf_append)
  ultimately show ?case using Cons.IH by simp
qed simp

lemma smap_deref_Some: "smap_wf m \<Longrightarrow> (k, v) \<in> set m \<Longrightarrow> smap_deref m (Some k) = Some v"
  by (simp add: smap_deref_def smap_mem_iff)

section \<open>Bounds and neighbours\<close>

lemma smap_begin_None [simp]: "smap_begin m = None \<longleftrightarrow> m = []"
  by (auto simp: smap_begin_def split: list.splits)

lemma smap_begin_Some:
  "smap_wf m \<Longrightarrow> smap_begin m = Some k \<longleftrightarrow> k \<in> fst ` set m \<and> (\<forall>p\<in>set m. k \<le> fst p)"
  by (cases m) (force simp: smap_begin_def)+

lemma smap_dropWhile_le:
  "smap_wf m \<Longrightarrow> dropWhile (\<lambda>p. fst p \<le> k) m = filter (\<lambda>p. k < fst p) m"
proof (induction m)
  case (Cons p m)
  then show ?case by (cases p) (auto intro!: filter_True [symmetric])
qed simp

lemma smap_dropWhile_less:
  "smap_wf m \<Longrightarrow> dropWhile (\<lambda>p. fst p < k) m = filter (\<lambda>p. k \<le> fst p) m"
proof (induction m)
  case (Cons p m)
  then show ?case by (cases p) (auto intro!: filter_True [symmetric])
qed simp

lemma smap_takeWhile_less:
  "smap_wf m \<Longrightarrow> takeWhile (\<lambda>p. fst p < k) m = filter (\<lambda>p. fst p < k) m"
proof (induction m)
  case (Cons p m)
  then show ?case by (cases p) (auto intro!: filter_False [symmetric])
qed simp

lemma smap_upper_bound_Some:
  assumes "smap_wf m"
  shows "smap_upper_bound m k = Some u \<longleftrightarrow>
    u \<in> fst ` set m \<and> k < u \<and> (\<forall>p\<in>set m. fst p \<le> k \<or> u \<le> fst p)"
  using assms by (auto simp: smap_upper_bound_def smap_dropWhile_le smap_begin_Some)

lemma smap_upper_bound_None:
  "smap_wf m \<Longrightarrow> smap_upper_bound m k = None \<longleftrightarrow> (\<forall>p\<in>set m. fst p \<le> k)"
  by (auto simp: smap_upper_bound_def smap_dropWhile_le filter_empty_conv)

lemma smap_lower_bound_Some:
  assumes "smap_wf m"
  shows "smap_lower_bound m k = Some u \<longleftrightarrow>
    u \<in> fst ` set m \<and> k \<le> u \<and> (\<forall>p\<in>set m. fst p < k \<or> u \<le> fst p)"
  using assms by (auto simp: smap_lower_bound_def smap_dropWhile_less smap_begin_Some)

lemma smap_lower_bound_None:
  "smap_wf m \<Longrightarrow> smap_lower_bound m k = None \<longleftrightarrow> (\<forall>p\<in>set m. fst p < k)"
  by (auto simp: smap_lower_bound_def smap_dropWhile_less filter_empty_conv)

lemma smap_last_None [simp]: "smap_last m = None \<longleftrightarrow> m = []"
  by (simp add: smap_last_def)

lemma smap_last_Some:
  "smap_wf m \<Longrightarrow> smap_last m = Some k \<longleftrightarrow> k \<in> fst ` set m \<and> (\<forall>p\<in>set m. fst p \<le> k)"
  by (cases m rule: rev_cases) (force simp: smap_last_def smap_begin_def smap_wf_append)+

lemma smap_prev_Some:
  assumes "smap_wf m"
  shows "smap_prev m (Some u) = Some k \<longleftrightarrow>
    k \<in> fst ` set m \<and> k < u \<and> (\<forall>p\<in>set m. fst p < u \<longrightarrow> fst p \<le> k)"
  using assms by (auto simp: smap_prev_def smap_takeWhile_less smap_last_Some)

lemma smap_prev_None: "smap_prev m None = smap_last m"
  by (simp add: smap_prev_def)

text \<open>The element before \<^verbatim>\<open>upper_bound(a)\<close> has the greatest key that is at most \<open>a\<close>.\<close>

lemma smap_prev_upper_bound:
  assumes "smap_wf m"
  shows "smap_prev m (smap_upper_bound m a) = Some k \<longleftrightarrow>
    k \<in> fst ` set m \<and> k \<le> a \<and> (\<forall>q\<in>set m. fst q \<le> a \<longrightarrow> fst q \<le> k)"
proof (cases "smap_upper_bound m a")
  case None
  with assms have "\<forall>q\<in>set m. fst q \<le> a" by (simp add: smap_upper_bound_None)
  with None assms show ?thesis by (auto simp: smap_prev_None smap_last_Some)
next
  case (Some b)
  then have "a < b" and "\<forall>q\<in>set m. fst q \<le> a \<or> b \<le> fst q"
    using smap_upper_bound_Some[OF assms, of a b] by auto
  then have "\<forall>q\<in>set m. fst q < b \<longleftrightarrow> fst q \<le> a" by fastforce
  with Some assms show ?thesis by (auto simp: smap_prev_Some)
qed

lemma smap_prev_upper_bound_None:
  assumes "smap_wf m"
  shows "smap_prev m (smap_upper_bound m a) = None \<longleftrightarrow> (\<forall>q\<in>set m. a < fst q)"
proof (cases "smap_upper_bound m a")
  case None
  then have "\<forall>q\<in>set m. fst q \<le> a" using assms by (simp add: smap_upper_bound_None)
  with None show ?thesis by (cases m) (auto simp: smap_prev_None)
next
  case (Some b)
  then have "a < b" and "\<forall>q\<in>set m. fst q \<le> a \<or> b \<le> fst q"
    using smap_upper_bound_Some[OF assms, of a b] by auto
  then have "\<forall>q\<in>set m. \<not> fst q < b \<longleftrightarrow> a < fst q" by fastforce
  with Some assms show ?thesis
    by (simp add: smap_prev_def smap_takeWhile_less filter_empty_conv)
qed

lemma smap_upper_bound_begin:
  assumes "smap_wf m"
  shows "smap_upper_bound m a = smap_begin m \<longleftrightarrow> (\<forall>q\<in>set m. a < fst q)"
proof (cases m)
  case (Cons p n)
  then have "smap_begin m = Some (fst p)" by (cases p) (simp add: smap_begin_def)
  moreover have "p \<in> set m" "\<forall>q\<in>set m. fst p \<le> fst q"
    using Cons assms by (cases p; auto)+
  ultimately show ?thesis using assms by (auto simp: smap_upper_bound_Some)
qed (simp add: smap_upper_bound_def)

text \<open>The same facts over the elements instead of the keys.\<close>

lemma smap_begin_filter_SomeE:
  assumes "smap_wf m" and "smap_begin (filter P m) = Some k"
  obtains v where "(k, v) \<in> set m" and "P (k, v)"
    and "\<And>k' v'. (k', v') \<in> set m \<Longrightarrow> P (k', v') \<Longrightarrow> k \<le> k'"
proof -
  have "k \<in> fst ` set (filter P m)" and le: "\<forall>p\<in>set (filter P m). k \<le> fst p"
    using assms smap_begin_Some[of "filter P m" k] by auto
  then obtain v where "(k, v) \<in> set m" "P (k, v)" by auto
  then show thesis using le by (intro that[of v]) auto
qed

lemma smap_begin_filter_Some:
  assumes "smap_wf m" and "(k, v) \<in> set m" and "P (k, v)"
    and "\<And>k' v'. (k', v') \<in> set m \<Longrightarrow> P (k', v') \<Longrightarrow> k \<le> k'"
  shows "smap_begin (filter P m) = Some k"
  unfolding smap_begin_Some[OF smap_wf_filter[OF assms(1)]]
  using assms(2-4) by (auto intro: rev_image_eqI)

lemma smap_prev_upper_boundE:
  assumes "smap_wf m" and "smap_prev m (smap_upper_bound m a) = Some k"
  obtains v where "(k, v) \<in> set m" and "k \<le> a"
    and "\<And>k' v'. (k', v') \<in> set m \<Longrightarrow> k' \<le> a \<Longrightarrow> k' \<le> k"
proof -
  have "k \<in> fst ` set m" "k \<le> a" and le: "\<forall>q\<in>set m. fst q \<le> a \<longrightarrow> fst q \<le> k"
    using assms smap_prev_upper_bound[of m a k] by auto
  then obtain v where "(k, v) \<in> set m" by auto
  then show thesis using le \<open>k \<le> a\<close> by (intro that[of v]) auto
qed

lemma smap_prev_upper_bound_exists:
  assumes "smap_wf m" and "(k, v) \<in> set m" and "k \<le> a"
  obtains b where "smap_prev m (smap_upper_bound m a) = Some b"
  using assms smap_prev_upper_bound_None[of m a] by (cases "smap_prev m (smap_upper_bound m a)") force+

lemma in_range_next:
  assumes "smap_wf m" and "(k, v) \<in> set m"
  shows "in_range (smap_next m (Some a)) l k \<longleftrightarrow> a < k \<and> in_range (Some a) l k"
proof (cases "smap_upper_bound m a")
  case None
  then have "k \<le> a" using assms by (auto simp: smap_upper_bound_None)
  with None show ?thesis by (auto simp: in_range_def smap_next_def)
next
  case (Some u)
  then have "a < u" and "k \<le> a \<or> u \<le> k" using assms by (auto simp: smap_upper_bound_Some)
  with Some show ?thesis by (auto simp: in_range_def smap_next_def)
qed

end
