(* ===== verification/Dso.thy ===== *)
theory Dso
  imports Ddprof_Prelude "HOL-Library.Sublist"
begin

text \<open>
  A memory mapping of a profiled process (\<^verbatim>\<open>src/include/dso.hpp\<close>, \<^verbatim>\<open>src/include/dso_type.hpp\<close>,
  \<^verbatim>\<open>src/src/dso.cc\<close>): its record, the classification of the mapped path, and the
  predicates that compare two mappings. The end of a mapping is inclusive. The facts of the
  last section read the mapping as the set of addresses it covers.
\<close>

section \<open>Data\<close>

datatype DsoType =
  kStandard | kVdso | kVsysCall | kStack | kHeap | kUndef | kAnon | kRuntime | kSocket
| kDDProfiling | kJITDump | kNbDsoTypes

datatype DsoOrigin = kPerfMmapEvent | kProcMaps

type_synonym FileInfoId_t = int

definition k_file_info_undef :: FileInfoId_t where "k_file_info_undef = -1"
definition k_file_info_error :: FileInfoId_t where "k_file_info_error = 0"

definition PROT_READ :: u32 where "PROT_READ = 1"
definition PROT_WRITE :: u32 where "PROT_WRITE = 2"
definition PROT_EXEC :: u32 where "PROT_EXEC = 4"

record dso =
  dso_start :: u64
  dso_end :: u64
  dso_offset :: u64
  dso_filename :: string
  dso_inode :: u64
  dso_pid :: pid_t
  dso_prot :: u32
  dso_id :: FileInfoId_t
  dso_type :: DsoType
  dso_origin :: DsoOrigin

text \<open>The default constructor: the invalid element, recognised by its pid \<open>-1\<close>.\<close>

definition invalid_dso :: dso where
  "invalid_dso = \<lparr>dso_start = 0, dso_end = 0, dso_offset = 0, dso_filename = [], dso_inode = 0,
     dso_pid = -1, dso_prot = 0, dso_id = k_file_info_error, dso_type = kUndef,
     dso_origin = kPerfMmapEvent\<rparr>"

section \<open>Classification of paths\<close>

fun has_relevant_path :: "DsoType \<Rightarrow> bool" where
  "has_relevant_path kDDProfiling = True"
| "has_relevant_path kStandard = True"
| "has_relevant_path _ = False"

fun dso_type_str :: "DsoType \<Rightarrow> string" where
  "dso_type_str kStandard = ''Standard''"
| "dso_type_str kVdso = ''Vdso''"
| "dso_type_str kVsysCall = ''VsysCall''"
| "dso_type_str kStack = ''Stack''"
| "dso_type_str kHeap = ''Heap''"
| "dso_type_str kUndef = ''Undefined''"
| "dso_type_str kAnon = ''Anonymous''"
| "dso_type_str kRuntime = ''Runtime''"
| "dso_type_str kSocket = ''kSocket''"
| "dso_type_str kDDProfiling = ''kDDProfiling''"
| "dso_type_str _ = ''Unhandled''"

definition isdigit :: "char \<Rightarrow> bool" where
  "isdigit c \<longleftrightarrow> (48::nat) \<le> of_char c \<and> of_char c \<le> (57::nat)"

text \<open>\<^verbatim>\<open>substr(rfind('/') + 1)\<close>: what follows the last slash, the whole string without one.\<close>

definition after_last_slash :: "string \<Rightarrow> string" where
  "after_last_slash p = rev (takeWhile (\<lambda>c. c \<noteq> CHR ''/'') (rev p))"

definition is_jit_dump_str :: "string \<Rightarrow> bool" where
  "is_jit_dump_str file_path = (
     if \<not> suffix ''.dump'' file_path then False
     else let p = take (length file_path - length ''.dump'') file_path;
              p = (if CHR ''/'' \<in> set p then after_last_slash p else p)
          in if \<not> prefix ''jit-'' p then False
             else list_all isdigit (drop (length ''jit-'') p))"

definition determine_dso_type :: "string \<Rightarrow> DsoType" where
  "determine_dso_type file_path = (
     if prefix ''[vdso]'' file_path then kVdso
     else if prefix ''[vsyscall]'' file_path then kVsysCall
     else if prefix ''[stack]'' file_path then kStack
     else if prefix ''[heap]'' file_path then kHeap
     else if file_path = [] \<or> prefix ''//anon'' file_path \<or> prefix ''anon_inode'' file_path
        \<or> prefix ''[anon'' file_path \<or> prefix ''/dev/zero'' file_path
        \<or> prefix ''/dev/null'' file_path \<or> prefix ''/memfd'' file_path then kAnon
     else if suffix ''.jsa'' file_path \<or> suffix ''.dll'' file_path then kRuntime
     else if prefix ''socket'' file_path then kSocket
     else if hd file_path = CHR ''['' then kUndef
     else if is_jit_dump_str file_path then kJITDump
     else if CHR ''/'' \<in> set file_path
        \<and> prefix ''libdd_profiling.so'' (after_last_slash file_path) then kDDProfiling
     else kStandard)"

section \<open>Operations\<close>

definition mk_dso ::
    "pid_t \<Rightarrow> u64 \<Rightarrow> u64 \<Rightarrow> u64 \<Rightarrow> string \<Rightarrow> u64 \<Rightarrow> u32 \<Rightarrow> DsoOrigin \<Rightarrow> dso" where
  "mk_dso pid start stop offset filename inode prot origin =
     \<lparr>dso_start = start, dso_end = stop, dso_offset = offset, dso_filename = filename,
      dso_inode = inode, dso_pid = pid, dso_prot = prot, dso_id = k_file_info_undef,
      dso_type = determine_dso_type filename, dso_origin = origin\<rparr>"

text \<open>The copy constructor that changes the pid only.\<close>

definition dso_with_pid :: "dso \<Rightarrow> pid_t \<Rightarrow> dso" where
  "dso_with_pid parent new_pid = parent\<lparr>dso_pid := new_pid\<rparr>"

definition format_filename :: "dso \<Rightarrow> string" where
  "format_filename d =
     (if has_relevant_path (dso_type d) then dso_filename d else dso_type_str (dso_type d))"

definition is_same_or_smaller :: "dso \<Rightarrow> dso \<Rightarrow> bool" where
  "is_same_or_smaller d o' = (
     if dso_start d \<noteq> dso_start o' then False
     else if dso_offset d \<noteq> dso_offset o' then False
     else if dso_type d \<noteq> dso_type o' then False
     else if dso_type d = kStandard
        \<and> (dso_filename d \<noteq> dso_filename o' \<or> dso_inode d \<noteq> dso_inode o') then False
     else if dso_prot d \<noteq> dso_prot o' then False
     else dso_end o' \<le> dso_end d)"

definition adjust_same :: "dso \<Rightarrow> dso \<Rightarrow> dso \<times> bool" where
  "adjust_same d o' =
     (if is_same_or_smaller d o'
      then (d\<lparr>dso_end := dso_end o', dso_origin := dso_origin o'\<rparr>, True) else (d, False))"

definition adjust_end :: "dso \<Rightarrow> u64 \<Rightarrow> dso" where
  "adjust_end d new_end = d\<lparr>dso_end := new_end\<rparr>"

definition adjust_start :: "dso \<Rightarrow> u64 \<Rightarrow> dso" where
  "adjust_start d new_start = d\<lparr>dso_start := new_start\<rparr>"

definition is_same_file :: "dso \<Rightarrow> dso \<Rightarrow> bool" where
  "is_same_file d o' \<longleftrightarrow> dso_type d = dso_type o' \<and> dso_type d = kStandard
     \<and> dso_filename d = dso_filename o' \<and> dso_inode d = dso_inode o'"

definition intersects :: "dso \<Rightarrow> dso \<Rightarrow> bool" where
  "intersects d o' = (
     if dso_start d < dso_start o' then (if dso_end d < dso_start o' then False else True)
     else if dso_end o' < dso_start d then False
     else True)"

definition is_within :: "dso \<Rightarrow> u64 \<Rightarrow> bool" where
  "is_within d addr \<longleftrightarrow> dso_start d \<le> addr \<and> addr \<le> dso_end d"

definition is_executable :: "dso \<Rightarrow> bool" where
  "is_executable d \<longleftrightarrow> dso_prot d AND PROT_EXEC \<noteq> 0"

definition has_runtime_symbols :: "dso \<Rightarrow> bool" where
  "has_runtime_symbols d \<longleftrightarrow>
     (dso_type d = kRuntime \<or> dso_type d = kAnon) \<and> dso_prot d AND PROT_EXEC \<noteq> 0"

lemmas dso_ops = adjust_end_def adjust_start_def dso_with_pid_def mk_dso_def

section \<open>Mappings as address ranges\<close>

definition dso_range :: "dso \<Rightarrow> u64 set" where
  "dso_range d = {dso_start d .. dso_end d}"

text \<open>A mapping covers at least one address.\<close>

definition dso_nonempty :: "dso \<Rightarrow> bool" where
  "dso_nonempty d \<longleftrightarrow> dso_start d \<le> dso_end d"

lemma is_within_range: "is_within d a \<longleftrightarrow> a \<in> dso_range d"
  by (simp add: is_within_def dso_range_def)

lemma intersects_alt:
  "dso_nonempty d \<Longrightarrow> dso_nonempty n \<Longrightarrow>
   intersects d n \<longleftrightarrow> dso_start d \<le> dso_end n \<and> dso_start n \<le> dso_end d"
  by (auto simp: intersects_def dso_nonempty_def)

lemma intersects_range:
  assumes "dso_nonempty d" and "dso_nonempty n"
  shows "intersects d n \<longleftrightarrow> dso_range d \<inter> dso_range n \<noteq> {}"
proof -
  have "dso_range d \<inter> dso_range n = {max (dso_start d) (dso_start n) .. min (dso_end d) (dso_end n)}"
    by (simp add: dso_range_def)
  then show ?thesis
    using assms by (simp add: intersects_alt) (simp add: dso_nonempty_def)
qed

lemma intersects_sym:
  "dso_nonempty d \<Longrightarrow> dso_nonempty n \<Longrightarrow> intersects d n \<longleftrightarrow> intersects n d"
  by (auto simp: intersects_alt)

section \<open>Paths of jit dumps\<close>

lemma after_last_slash_append:
  "CHR ''/'' \<notin> set q \<Longrightarrow> after_last_slash (p @ CHR ''/'' # q) = q"
  by (simp add: after_last_slash_def takeWhile_append)

lemma split_last_slash:
  "CHR ''/'' \<in> set p \<Longrightarrow> \<exists>dir. p = dir @ CHR ''/'' # after_last_slash p
     \<and> CHR ''/'' \<notin> set (after_last_slash p)"
proof -
  assume "CHR ''/'' \<in> set p"
  then obtain dir q where "p = dir @ CHR ''/'' # q" "CHR ''/'' \<notin> set q"
    using split_list_last by metis
  then show ?thesis by (auto simp: after_last_slash_append)
qed

lemma isdigit_not_slash: "list_all isdigit ds \<Longrightarrow> CHR ''/'' \<notin> set ds"
  by (auto simp: list_all_iff isdigit_def)

lemma after_last_slash_none: "CHR ''/'' \<notin> set q \<Longrightarrow> after_last_slash q = q"
proof -
  assume "CHR ''/'' \<notin> set q"
  then have "takeWhile (\<lambda>c. c \<noteq> CHR ''/'') (rev q) = rev q" by (intro takeWhile_eq_all_conv[THEN iffD2]) auto
  then show ?thesis unfolding after_last_slash_def by (metis rev_rev_ident)
qed

lemma after_last_slash_dir:
  "dir = [] \<or> last dir = CHR ''/'' \<Longrightarrow> CHR ''/'' \<notin> set b \<Longrightarrow> after_last_slash (dir @ b) = b"
proof (cases dir rule: rev_cases)
  case (snoc dir' c)
  then show "dir = [] \<or> last dir = CHR ''/'' \<Longrightarrow> CHR ''/'' \<notin> set b \<Longrightarrow> after_last_slash (dir @ b) = b"
    using after_last_slash_append[of b dir'] by simp
qed (simp add: after_last_slash_none)

lemma after_last_slash_split:
  "\<exists>dir. q = dir @ after_last_slash q \<and> (dir = [] \<or> last dir = CHR ''/'')"
proof (cases "CHR ''/'' \<in> set q")
  case True
  then obtain dir where "q = (dir @ [CHR ''/'']) @ after_last_slash q" using split_last_slash by fastforce
  then show ?thesis by (metis last_snoc)
qed (simp add: after_last_slash_none)

lemma is_jit_dump_stem:
  "is_jit_dump_str (q @ ''.dump'') \<longleftrightarrow> prefix ''jit-'' (after_last_slash q)
     \<and> list_all isdigit (drop (length ''jit-'') (after_last_slash q))"
proof -
  have "suffix ''.dump'' (q @ ''.dump'')" by (rule suffixI) simp
  then show ?thesis by (simp add: is_jit_dump_str_def Let_def after_last_slash_none)
qed

text \<open>C34. Recognition of a jit dump: the path is accepted exactly when it is a directory
  followed by \<^verbatim>\<open>jit-<digits>.dump\<close>. The digits may be missing.\<close>

theorem is_jit_dump_str_iff:
  "is_jit_dump_str p \<longleftrightarrow> (\<exists>dir ds. p = dir @ ''jit-'' @ ds @ ''.dump''
     \<and> (dir = [] \<or> last dir = CHR ''/'') \<and> list_all isdigit ds)"
proof
  assume "\<exists>dir ds. p = dir @ ''jit-'' @ ds @ ''.dump''
     \<and> (dir = [] \<or> last dir = CHR ''/'') \<and> list_all isdigit ds"
  then obtain dir ds where p: "p = (dir @ ''jit-'' @ ds) @ ''.dump''"
    and dir: "dir = [] \<or> last dir = CHR ''/''" and ds: "list_all isdigit ds" by auto
  have "CHR ''/'' \<notin> set (''jit-'' @ ds)" using isdigit_not_slash[OF ds] by simp
  from after_last_slash_dir[OF dir this] show "is_jit_dump_str p"
    unfolding p is_jit_dump_stem using ds by simp
next
  assume j: "is_jit_dump_str p"
  then obtain q where p: "p = q @ ''.dump''" by (auto simp: is_jit_dump_str_def suffix_def split: if_splits)
  obtain dir where q: "q = dir @ after_last_slash q" and dir: "dir = [] \<or> last dir = CHR ''/''"
    using after_last_slash_split by blast
  obtain ds where ds: "after_last_slash q = ''jit-'' @ ds" "list_all isdigit ds"
    using j unfolding p is_jit_dump_stem by (auto elim!: prefixE)
  show "\<exists>dir ds. p = dir @ ''jit-'' @ ds @ ''.dump''
     \<and> (dir = [] \<or> last dir = CHR ''/'') \<and> list_all isdigit ds"
    using p q dir ds by (metis append_assoc)
qed

end
