(* ===== verification/Interfaces.thy ===== *)
theory Interfaces
  imports Ddprof_Prelude
begin

text \<open>
  The contracts between components, as locales. Each is interpreted on the definitions of
  the component that provides it, in that component's theory; the lemmas proved here hold
  for every provider.
\<close>

section \<open>Search in a container of disjoint address ranges\<close>

text \<open>
  Both the mappings of a process and the symbols of a binary are kept in a map sorted by
  start address. The client asks for the element that contains an address. The provider
  promises that elements are disjoint, that what is found contains the address, and that an
  element that contains it is found.
\<close>

locale closest_search =
  fixes wf :: "'m \<Rightarrow> bool"
    and elems :: "'m \<Rightarrow> 'e set"
    and covers :: "'e \<Rightarrow> u64 \<Rightarrow> bool"
    and search :: "'m \<Rightarrow> u64 \<Rightarrow> 'e option"
  assumes disjoint: "wf m \<Longrightarrow> x \<in> elems m \<Longrightarrow> y \<in> elems m \<Longrightarrow> covers x a \<Longrightarrow> covers y a \<Longrightarrow> x = y"
    and search_sound: "wf m \<Longrightarrow> search m a = Some x \<Longrightarrow> x \<in> elems m \<and> covers x a"
    and search_complete: "wf m \<Longrightarrow> x \<in> elems m \<Longrightarrow> covers x a \<Longrightarrow> search m a \<noteq> None"
begin

lemma search_Some_iff: "wf m \<Longrightarrow> search m a = Some x \<longleftrightarrow> x \<in> elems m \<and> covers x a"
  using disjoint search_sound search_complete by blast

lemma search_None_iff: "wf m \<Longrightarrow> search m a = None \<longleftrightarrow> (\<forall>x\<in>elems m. \<not> covers x a)"
  using search_sound search_complete by (cases "search m a") blast+

text \<open>The answer depends only on which elements the container holds.\<close>

lemma search_cong: "wf m \<Longrightarrow> wf m' \<Longrightarrow> elems m = elems m' \<Longrightarrow> search m a = search m' a"
  using search_Some_iff search_None_iff by (metis option.exhaust)

lemma search_subset:
  assumes "wf m" and "wf m'" and "elems m \<subseteq> elems m'" and "search m a = Some x"
  shows "search m' a = Some x"
  using assms search_Some_iff by blast

end

section \<open>Sources of events\<close>

text \<open>
  The worker empties a ring by asking for the next event until there is none. \<open>drain\<close> is that loop
  for at most \<open>fuel\<close> events; \<^term>\<open>None\<close> is an access outside the mapping, and the flag says whether
  the source answered that it has no more events. A ring promises that its queue comes out in
  order, one event per call.
\<close>

fun drain :: "('s \<Rightarrow> ('s \<times> 'e option) option) \<Rightarrow> nat \<Rightarrow> 's \<Rightarrow> ('s \<times> 'e list \<times> bool) option" where
  "drain next_event 0 s = Some (s, [], False)"
| "drain next_event (Suc fuel) s = (case next_event s of
     None \<Rightarrow> None
   | Some (s', None) \<Rightarrow> Some (s', [], True)
   | Some (s', Some e) \<Rightarrow> map_option (\<lambda>(s', es, done). (s', e # es, done)) (drain next_event fuel s'))"

locale event_source =
  fixes holds :: "'s \<Rightarrow> 'e list \<Rightarrow> bool"
    and next_event :: "'s \<Rightarrow> ('s \<times> 'e option) option"
  assumes next_empty: "holds s [] \<Longrightarrow> \<exists>s'. next_event s = Some (s', None) \<and> holds s' []"
    and next_some: "holds s (e # q) \<Longrightarrow> \<exists>s'. next_event s = Some (s', Some e) \<and> holds s' q"
begin

lemma drain_all: "holds s q \<Longrightarrow> length q < fuel \<Longrightarrow> \<exists>s'. drain next_event fuel s = Some (s', q, True) \<and> holds s' []"
proof (induction q arbitrary: s fuel)
  case Nil
  then show ?case using next_empty[of s] by (cases fuel) auto
next
  case (Cons e q)
  from Cons.prems obtain f where f: "fuel = Suc f" "length q < f" by (cases fuel) auto
  from next_some[OF Cons.prems(1)] obtain s1 where s1: "next_event s = Some (s1, Some e)" "holds s1 q" by auto
  from Cons.IH[OF s1(2) f(2)] s1(1) f(1) show ?case by auto
qed

lemma drain_prefix: "holds s q \<Longrightarrow> fuel \<le> length q \<Longrightarrow>
    \<exists>s'. drain next_event fuel s = Some (s', take fuel q, False) \<and> holds s' (drop fuel q)"
proof (induction fuel arbitrary: s q)
  case (Suc fuel)
  then obtain e q' where q: "q = e # q'" by (cases q) auto
  with next_some[of s e q'] Suc.prems obtain s1 where s1: "next_event s = Some (s1, Some e)" "holds s1 q'" by auto
  from Suc.IH[OF s1(2)] Suc.prems q s1(1) show ?case by auto
qed simp

end

section \<open>Bags of tracked addresses\<close>

text \<open>
  The allocation tracker asks for addresses to be tracked and to be forgotten. Tracking may be
  refused; forgetting succeeds exactly for tracked addresses. \<open>bag_run\<close> performs a list of such
  requests and returns the answers.
\<close>

datatype 'a bag_op = BagAdd 'a | BagRemove 'a

fun bag_run :: "('s \<Rightarrow> 'a \<Rightarrow> ('s \<times> bool) option) \<Rightarrow> ('s \<Rightarrow> 'a \<Rightarrow> ('s \<times> bool) option) \<Rightarrow>
    's \<Rightarrow> 'a bag_op list \<Rightarrow> ('s \<times> bool list) option" where
  "bag_run add remove s [] = Some (s, [])"
| "bag_run add remove s (oper # ops) = (
     case (case oper of BagAdd x \<Rightarrow> add s x | BagRemove x \<Rightarrow> remove s x) of
       None \<Rightarrow> None
     | Some (s, r) \<Rightarrow> map_option (apsnd (\<lambda>rs. r # rs)) (bag_run add remove s ops))"

definition successes :: "'a bag_op \<Rightarrow> 'a bag_op list \<Rightarrow> bool list \<Rightarrow> nat" where
  "successes oper ops rs = length (filter (\<lambda>(x, r). x = oper \<and> r) (zip ops rs))"

locale address_bag =
  fixes wf :: "'s \<Rightarrow> bool"
    and ok :: "'a \<Rightarrow> bool"
    and tracked :: "'s \<Rightarrow> 'a \<Rightarrow> nat"
    and total :: "'s \<Rightarrow> nat"
    and add :: "'s \<Rightarrow> 'a \<Rightarrow> ('s \<times> bool) option"
    and remove :: "'s \<Rightarrow> 'a \<Rightarrow> ('s \<times> bool) option"
  assumes add_law: "wf s \<Longrightarrow> ok x \<Longrightarrow> \<exists>s' r. add s x = Some (s', r) \<and> wf s' \<and>
      tracked s' = (tracked s)(x := tracked s x + of_bool r) \<and> total s' = total s + of_bool r"
    and remove_law: "wf s \<Longrightarrow> ok x \<Longrightarrow> \<exists>s'. remove s x = Some (s', 0 < tracked s x) \<and> wf s' \<and>
      tracked s' = (tracked s)(x := tracked s x - 1) \<and> total s' = total s - of_bool (0 < tracked s x)"
begin

lemma run_history:
  assumes "wf s" "\<forall>oper\<in>set ops. ok (case oper of BagAdd x \<Rightarrow> x | BagRemove x \<Rightarrow> x)"
  shows "\<exists>s' rs. bag_run add remove s ops = Some (s', rs) \<and> wf s' \<and> length rs = length ops \<and>
    (\<forall>x. tracked s' x + successes (BagRemove x) ops rs = tracked s x + successes (BagAdd x) ops rs)"
  using assms
proof (induction ops arbitrary: s)
  case Nil
  then show ?case by (simp add: successes_def)
next
  case (Cons oper ops)
  obtain s1 r where s1: "(case oper of BagAdd x \<Rightarrow> add s x | BagRemove x \<Rightarrow> remove s x) = Some (s1, r)" "wf s1"
    "\<forall>x. tracked s1 x + of_bool (r \<and> oper = BagRemove x) = tracked s x + of_bool (r \<and> oper = BagAdd x)"
  proof (cases oper)
    case (BagAdd y)
    with add_law[of s y] Cons.prems show ?thesis by (auto intro!: that)
  next
    case (BagRemove y)
    with remove_law[of s y] Cons.prems show ?thesis by (auto intro!: that)
  qed
  from Cons.IH[OF s1(2)] Cons.prems obtain s2 rs where s2: "bag_run add remove s1 ops = Some (s2, rs)" "wf s2"
    "length rs = length ops" "\<forall>x. tracked s2 x + successes (BagRemove x) ops rs = tracked s1 x + successes (BagAdd x) ops rs"
    by auto
  have suc: "successes z (oper # ops) (r # rs) = of_bool (r \<and> oper = z) + successes z ops rs" for z
    by (auto simp: successes_def)
  have "tracked s2 x + successes (BagRemove x) (oper # ops) (r # rs) = tracked s x + successes (BagAdd x) (oper # ops) (r # rs)" for x
    using spec[OF s1(3), of x] spec[OF s2(4), of x] unfolding suc by linarith
  then show ?case using s1(1) s2(1-3) by (auto intro!: exI[of _ s2])
qed

end

end
