(* ===== verification/Dso_Map.thy ===== *)
theory Dso_Map
  imports Std_Map Dso Interfaces
begin

text \<open>
  The sorted map of the mappings of one process (\<^verbatim>\<open>DsoHdr::DsoMap\<close> in
  \<^verbatim>\<open>src/include/dso_hdr.hpp\<close>) and the algorithms of \<^verbatim>\<open>src/src/dso_hdr.cc\<close> that work on it with
  iterators: the search for the mapping of an address, the range of mappings a new one
  intersects, and the removal of that range, which truncates or splits mappings of the same
  file. \<open>carve\<close> says what must stay of one old mapping; the removal is shown to compute
  exactly that on every mapping of the map.
\<close>

type_synonym dso_map = "(u64, dso) smap"
type_synonym dso_it = "u64 smap_it"
type_synonym DsoFindRes = "dso_it \<times> bool"
type_synonym DsoRange = "dso_it \<times> dso_it"

text \<open>
  A failed \<^verbatim>\<open>DDPROF_CHECK_FATAL\<close> ends the program. An invalid iterator is undefined
  behaviour.
\<close>

datatype dso_error = Check_fatal | Bad_iterator

section \<open>Operations\<close>

definition is_intersection_allowed :: "dso \<Rightarrow> dso \<Rightarrow> bool" where
  "is_intersection_allowed old_dso new_dso \<longleftrightarrow> is_same_file old_dso new_dso
     \<or> (dso_type old_dso = kStandard \<and> dso_type new_dso = kAnon)"

definition find_res_not_found :: "dso_map \<Rightarrow> DsoFindRes" where
  "find_res_not_found m = (None, False)"

text \<open>The loop of \<^verbatim>\<open>dso_find_first_std_executable\<close>, from \<^verbatim>\<open>lower_bound(0)\<close> on.\<close>

definition dso_find_first_std_executable :: "dso_map \<Rightarrow> DsoFindRes" where
  "dso_find_first_std_executable m =
     (case dropWhile (\<lambda>p. \<not> is_executable (snd p) \<and> dso_type (snd p) \<noteq> kStandard)
             (dropWhile (\<lambda>p. fst p < 0) m) of
        [] \<Rightarrow> find_res_not_found m
      | p # _ \<Rightarrow> (Some (fst p), True))"

definition dso_find_closest :: "dso_map \<Rightarrow> u64 \<Rightarrow> DsoFindRes" where
  "dso_find_closest m addr = (
     let it = smap_upper_bound m addr in
     if it = smap_begin m then find_res_not_found m
     else let it = smap_prev m it in
          (it, case smap_deref m it of None \<Rightarrow> False | Some d \<Rightarrow> is_within d addr))"

text \<open>
  \<^verbatim>\<open>get_elf_range\<close>: the neighbours of \<open>it\<close> that map the same file, as a half-open range.
  The reverse search starts at the element before \<open>it\<close>.
\<close>

definition get_elf_range :: "dso_map \<Rightarrow> u64 \<Rightarrow> dso_error + DsoRange" where
  "get_elf_range m it = (case map_of m it of
      None \<Rightarrow> Inl Bad_iterator
    | Some d \<Rightarrow>
       (let not_same_file = (\<lambda>p. dso_inode d \<noteq> dso_inode (snd p)
                               \<or> dso_filename d \<noteq> dso_filename (snd p));
            before = takeWhile (\<lambda>p. fst p < it) m;
            same_before = takeWhile (\<lambda>p. \<not> not_same_file p) (rev before);
            first = (case rev same_before of [] \<Rightarrow> Some it | p # _ \<Rightarrow> Some (fst p));
            last = smap_begin (dropWhile (\<lambda>p. \<not> not_same_file p) (dropWhile (\<lambda>p. fst p \<le> it) m))
        in Inr (first, last)))"

definition get_intersection :: "dso_map \<Rightarrow> dso \<Rightarrow> DsoRange" where
  "get_intersection m d = (
     let first = smap_upper_bound m (dso_start d);
         first = (if first \<noteq> smap_begin m
                  then let p = smap_prev m first in
                       case smap_deref m p of
                         None \<Rightarrow> first
                       | Some pd \<Rightarrow> if dso_start d \<le> dso_end pd then p else first
                  else first);
         last = (case first of
                   None \<Rightarrow> first
                 | Some k \<Rightarrow> if dso_end d < k then first else smap_lower_bound m (dso_end d + 1))
     in (first, last))"

text \<open>The second half of \<^verbatim>\<open>erase_range\<close>: truncate the first mapping, erase the rest.\<close>

definition erase_range_first :: "dso_map \<Rightarrow> DsoRange \<Rightarrow> dso \<Rightarrow> dso_error + dso_map" where
  "erase_range_first m rng n = (case rng of
      (None, _) \<Rightarrow> Inl Bad_iterator
    | (Some first, second) \<Rightarrow> (case map_of m first of
        None \<Rightarrow> Inl Bad_iterator
      | Some first_mapping \<Rightarrow>
          if dso_start first_mapping < dso_start n \<and> is_intersection_allowed first_mapping n
          then let m' = smap_assign first (adjust_end first_mapping (dso_start n - 1)) m
               in Inr (smap_erase_range (smap_next m' (Some first)) second m')
          else Inr (smap_erase_range (Some first) second m)))"

definition erase_range :: "dso_map \<Rightarrow> DsoRange \<Rightarrow> dso \<Rightarrow> dso_error + dso_map" where
  "erase_range m rng n = (
     let (first, second) = rng in
     if first = second then Inr m
     else case smap_prev m second of
       None \<Rightarrow> Inl Bad_iterator
     | Some last_it \<Rightarrow> (case map_of m last_it of
         None \<Rightarrow> Inl Bad_iterator
       | Some last_mapping \<Rightarrow>
           if dso_end n < dso_end last_mapping \<and> is_intersection_allowed last_mapping n then
             if dso_start last_mapping < dso_start n then
               let right_part = adjust_start last_mapping (dso_end n + 1);
                   m' = smap_assign (dso_start right_part) right_part m
               in Inr (smap_assign last_it (adjust_end last_mapping (dso_start n - 1)) m')
             else
               let only_one_mapping = (first = Some last_it);
                   new_start = dso_end n + 1;
                   (m', inserted) = smap_insert new_start (adjust_start last_mapping new_start)
                                      (smap_erase last_it m)
               in if \<not> inserted then Inl Check_fatal
                  else if only_one_mapping then Inr m'
                  else erase_range_first m' (first, smap_prev m' second) n
           else erase_range_first m (first, second) n))"

definition dso_find_adjust_same :: "dso_map \<Rightarrow> dso \<Rightarrow> dso_map \<times> DsoFindRes" where
  "dso_find_adjust_same m d = (case map_of m (dso_start d) of
      None \<Rightarrow> (m, (None, False))
    | Some old \<Rightarrow> (let (old', found_same) = adjust_same old d
                   in (smap_assign (dso_start d) old' m, (Some (dso_start d), found_same))))"

section \<open>Invariant of the map\<close>

text \<open>
  Keys are the starts, mappings are not empty, and a mapping ends before the next one
  starts. \<^verbatim>\<open>DsoHdr::check_invariants\<close> tests the first and the last of these.
\<close>

definition dso_map_wf :: "dso_map \<Rightarrow> bool" where
  "dso_map_wf m \<longleftrightarrow> smap_wf m
     \<and> (\<forall>p\<in>set m. fst p = dso_start (snd p) \<and> dso_nonempty (snd p))
     \<and> (\<forall>p\<in>set m. \<forall>q\<in>set m. dso_start (snd p) < dso_start (snd q)
          \<longrightarrow> dso_end (snd p) < dso_start (snd q))"

definition dsos :: "dso_map \<Rightarrow> dso set" where
  "dsos m = snd ` set m"

text \<open>What must stay of an old mapping \<open>d\<close> when \<open>n\<close> is mapped over it.\<close>

definition carve :: "dso \<Rightarrow> dso \<Rightarrow> dso list" where
  "carve n d = (
     if \<not> intersects d n then [d]
     else if \<not> is_intersection_allowed d n then []
     else (if dso_start d < dso_start n then [adjust_end d (dso_start n - 1)] else [])
        @ (if dso_end n < dso_end d then [adjust_start d (dso_end n + 1)] else []))"

lemma dso_map_wfD:
  assumes "dso_map_wf m"
  shows "smap_wf m" and "(k, d) \<in> set m \<Longrightarrow> k = dso_start d"
    and "(k, d) \<in> set m \<Longrightarrow> dso_start d \<le> dso_end d"
    and "(k, d) \<in> set m \<Longrightarrow> dso_nonempty d"
    and "(k, d) \<in> set m \<Longrightarrow> (k', d') \<in> set m \<Longrightarrow> k < k' \<Longrightarrow> dso_end d < k'"
proof -
  show key: "k = dso_start d" if "(k, d) \<in> set m" for k d
    using that assms by (auto simp: dso_map_wf_def)
  have "\<forall>p\<in>set m. \<forall>q\<in>set m. dso_start (snd p) < dso_start (snd q) \<longrightarrow> dso_end (snd p) < dso_start (snd q)"
    using assms by (simp add: dso_map_wf_def)
  then show "dso_end d < k'" if "(k, d) \<in> set m" "(k', d') \<in> set m" "k < k'"
    using that key by fastforce
qed (use assms in \<open>auto simp: dso_map_wf_def dso_nonempty_def\<close>)

lemma dso_map_wf_Nil [simp, inv_intros]: "dso_map_wf []"
  by (simp add: dso_map_wf_def)

lemma dso_map_memI: "dso_map_wf m \<Longrightarrow> d \<in> dsos m \<Longrightarrow> (dso_start d, d) \<in> set m"
  by (auto simp: dsos_def dso_map_wf_def)

lemma dso_map_disjoint:
  assumes "dso_map_wf m" and "d \<in> dsos m" and "d' \<in> dsos m"
    and "is_within d a" and "is_within d' a"
  shows "d = d'"
proof -
  note mem = assms(1)[THEN dso_map_memI]
  have "\<not> dso_start d < dso_start d'" "\<not> dso_start d' < dso_start d"
    using dso_map_wfD(5)[OF assms(1) mem mem, OF assms(2,3)] assms(4,5)
      dso_map_wfD(5)[OF assms(1) mem mem, OF assms(3,2)]
    by (auto simp: is_within_def)
  then have "dso_start d = dso_start d'" by auto
  with mem[OF assms(2)] mem[OF assms(3)] show ?thesis
    using smap_unique_value[OF dso_map_wfD(1)[OF assms(1)]] by metis
qed

section \<open>Search\<close>

lemma dso_find_closest_found:
  assumes wf: "dso_map_wf m"
  shows "dso_find_closest m a = (Some k, True) \<longleftrightarrow> (\<exists>d. (k, d) \<in> set m \<and> is_within d a)"
proof -
  note [simp] = dso_map_wfD(1)[OF wf]
  define p where "p = smap_prev m (smap_upper_bound m a)"
  have p: "p = Some k \<longleftrightarrow> k \<in> fst ` set m \<and> k \<le> a \<and> (\<forall>q\<in>set m. fst q \<le> a \<longrightarrow> fst q \<le> k)"
    by (simp add: p_def smap_prev_upper_bound)
  have le: "k \<le> a \<and> (\<forall>q\<in>set m. fst q \<le> a \<longrightarrow> fst q \<le> k)"
    if "(k, d) \<in> set m" "is_within d a" for d
    using that dso_map_wfD(2,5)[OF wf] by (fastforce simp: is_within_def)
  show ?thesis
  proof (cases "smap_upper_bound m a = smap_begin m")
    case True
    then have "\<forall>q\<in>set m. a < fst q" by (simp add: smap_upper_bound_begin)
    with True show ?thesis using le
      by (fastforce simp: dso_find_closest_def find_res_not_found_def)
  next
    case False
    then have "dso_find_closest m a =
        (p, case smap_deref m p of None \<Rightarrow> False | Some d \<Rightarrow> is_within d a)"
      by (simp add: dso_find_closest_def p_def Let_def)
    then have "dso_find_closest m a = (Some k, True) \<longleftrightarrow>
        p = Some k \<and> (\<exists>d. (k, d) \<in> set m \<and> is_within d a)"
      by (auto simp: smap_deref_def smap_mem_iff split: option.splits)
    then show ?thesis using p le by (force simp: image_iff)
  qed
qed

section \<open>The intersected range\<close>

text \<open>
  The range found for a new mapping is empty when nothing intersects it. Otherwise its first
  element and the element before its end are the outermost intersecting mappings, and the
  range holds exactly the intersecting ones.
\<close>

lemma get_intersection_first:
  assumes wf: "dso_map_wf m"
  shows "fst (get_intersection m n) = smap_begin (filter (\<lambda>p. dso_start n \<le> dso_end (snd p)) m)"
    (is "?f = smap_begin (filter ?P m)")
proof (cases "\<forall>q\<in>set m. dso_start n < fst q")
  case True
  then have "filter ?P m = m"
    using dso_map_wfD(2,3)[OF wf] by (fastforce simp: filter_id_conv)
  with True show ?thesis
    by (simp add: get_intersection_def Let_def smap_upper_bound_begin dso_map_wfD(1)[OF wf])
next
  case False
  note sm [simp] = dso_map_wfD(1)[OF wf]
  define ub where "ub = smap_upper_bound m (dso_start n)"
  have nb: "ub \<noteq> smap_begin m" using False by (simp add: ub_def smap_upper_bound_begin)
  have "smap_prev m ub \<noteq> None"
    unfolding ub_def smap_prev_upper_bound_None[OF sm] by (rule False)
  then obtain k0 where k0: "smap_prev m ub = Some k0" by blast
  then have k0m: "k0 \<in> fst ` set m" "k0 \<le> dso_start n" and
    k0max: "\<forall>q\<in>set m. fst q \<le> dso_start n \<longrightarrow> fst q \<le> k0"
    by (simp_all add: ub_def smap_prev_upper_bound)
  then obtain pd where pd: "(k0, pd) \<in> set m" by auto
  then have first: "?f = (if dso_start n \<le> dso_end pd then Some k0 else ub)"
    using nb k0 by (simp add: get_intersection_def Let_def ub_def[symmetric] smap_deref_Some)
  have low: "(k, d) \<in> set m \<Longrightarrow> k \<noteq> k0 \<Longrightarrow> k \<le> dso_start n \<Longrightarrow> dso_end d < k0" for k d
    using dso_map_wfD(5)[OF wf _ pd] k0max by fastforce
  show ?thesis
  proof (cases "dso_start n \<le> dso_end pd")
    case True
    have "smap_begin (filter ?P m) = Some k0"
      using True pd low k0m(2) by (fastforce simp: smap_begin_Some image_iff)
    with True first show ?thesis by simp
  next
    case nP: False
    have "filter ?P m = filter (\<lambda>p. dso_start n < fst p) m"
    proof (rule filter_cong[OF refl])
      fix q assume "q \<in> set m"
      then obtain k d where q: "q = (k, d)" and mem: "(k, d) \<in> set m" by (metis surj_pair)
      note start = dso_map_wfD(2,3)[OF wf mem]
      show "dso_start n \<le> dso_end (snd q) \<longleftrightarrow> dso_start n < fst q"
      proof (cases "k = k0")
        case True
        then have "d = pd" using smap_unique_value[OF sm pd] mem by simp
        with True nP k0m(2) show ?thesis by (simp add: q)
      next
        case False
        then have "dso_start d \<le> dso_start n \<Longrightarrow> dso_end d < dso_start n"
          using low[OF mem] start k0m(2) by simp
        then show ?thesis using start by (auto simp: q not_le[symmetric])
      qed
    qed
    with nP first show ?thesis by (simp add: ub_def smap_upper_bound_def smap_dropWhile_le)
  qed
qed

lemma get_intersection_last:
  assumes wf: "dso_map_wf m" and n: "dso_nonempty n" and max: "dso_end n < x"
  shows "snd (get_intersection m n) = smap_begin (filter (\<lambda>p. dso_end n < fst p) m)"
proof -
  note sm [simp] = dso_map_wfD(1)[OF wf]
  define f where "f = fst (get_intersection m n)"
  have f: "f = smap_begin (filter (\<lambda>p. dso_start n \<le> dso_end (snd p)) m)"
    using get_intersection_first[OF wf] by (simp add: f_def)
  have snd: "snd (get_intersection m n) = (case f of None \<Rightarrow> f
      | Some k \<Rightarrow> if dso_end n < k then f else smap_lower_bound m (dso_end n + 1))"
    unfolding f_def get_intersection_def Let_def fst_conv snd_conv by (rule refl)
  have lb: "smap_lower_bound m (dso_end n + 1) = smap_begin (filter (\<lambda>p. dso_end n < fst p) m)"
    by (simp add: smap_lower_bound_def smap_dropWhile_less word_add_one_le_iff[OF max])
  have sub: "(k, d) \<in> set m \<Longrightarrow> dso_end n < k \<Longrightarrow> dso_start n \<le> dso_end d" for k d
    using n dso_map_wfD(2,3)[OF wf, of k d] by (simp add: dso_nonempty_def)
  show ?thesis
  proof (cases f)
    case None
    then have "filter (\<lambda>p. dso_end n < fst p) m = []"
      using f sub by (auto simp: filter_empty_conv)
    with None snd show ?thesis by (simp add: smap_begin_def)
  next
    case (Some k)
    then obtain d where kd: "(k, d) \<in> set m"
      and le: "\<And>k' d'. (k', d') \<in> set m \<Longrightarrow> dso_start n \<le> dso_end d' \<Longrightarrow> k \<le> k'"
      using f by (auto elim!: smap_begin_filter_SomeE[OF sm])
    have "dso_end n < k \<Longrightarrow> smap_begin (filter (\<lambda>p. dso_end n < fst p) m) = Some k"
      by (rule smap_begin_filter_Some[OF sm kd]) (auto intro: le sub)
    with Some snd lb show ?thesis by simp
  qed
qed

lemma smap_prev_begin_filter:
  assumes "smap_wf m"
  shows "smap_prev m (smap_begin (filter (\<lambda>p. c < fst p) m)) = smap_prev m (smap_upper_bound m c)"
  using assms by (simp add: smap_upper_bound_def smap_dropWhile_le)

text \<open>The intersecting mappings are those between the first and the last one of the range.\<close>

lemma intersection_cases:
  assumes wf: "dso_map_wf m" and n: "dso_nonempty n" and max: "dso_end n < x"
    and gi: "get_intersection m n = (f, l)"
  obtains (empty) "f = l" and "\<And>k d. (k, d) \<in> set m \<Longrightarrow> \<not> intersects d n"
  | (range) a da b db where "f \<noteq> l" and "f = Some a" and "smap_prev m l = Some b"
      and "(a, da) \<in> set m" and "(b, db) \<in> set m" and "a \<le> b"
      and "\<forall>p\<in>set m. intersects (snd p) n \<longleftrightarrow> a \<le> fst p \<and> fst p \<le> b"
      and "\<forall>p\<in>set m. in_range f l (fst p) \<longleftrightarrow> a \<le> fst p \<and> fst p \<le> b"
      and "\<forall>p\<in>set m. fst p \<le> dso_end n \<longleftrightarrow> fst p \<le> b"
      and "\<forall>c. l = Some c \<longrightarrow> dso_end n < c \<and> c \<in> fst ` set m"
proof -
  note sm [simp] = dso_map_wfD(1)[OF wf]
  let ?A = "filter (\<lambda>p. dso_start n \<le> dso_end (snd p)) m" and ?B = "filter (\<lambda>p. dso_end n < fst p) m"
  have f: "f = smap_begin ?A" and l: "l = smap_begin ?B"
    using get_intersection_first[OF wf, of n] get_intersection_last[OF wf n max] gi by auto
  have BA: "dso_start n \<le> dso_end d" if "(k, d) \<in> set m" "dso_end n < k" for k d
    using that n dso_map_wfD(2,3)[OF wf that(1)] by (simp add: dso_nonempty_def)
  have int: "intersects d n \<longleftrightarrow> dso_start n \<le> dso_end d \<and> k \<le> dso_end n" if "(k, d) \<in> set m" for k d
    using that n dso_map_wfD(2,4)[OF wf that] by (auto simp: intersects_alt)
  show thesis
  proof (cases "\<exists>k d. (k, d) \<in> set m \<and> intersects d n")
    case False
    then have "?A = ?B" by (intro filter_cong refl) (metis BA int not_le prod.collapse)
    then show thesis using f l False by (intro empty) auto
  next
    case True
    then obtain k d where kd: "(k, d) \<in> set m" "dso_start n \<le> dso_end d" "k \<le> dso_end n"
      using int by blast
    then have "f \<noteq> None" unfolding f by (auto simp: filter_empty_conv intro!: bexI[of _ "(k, d)"])
    then obtain a where a: "f = Some a" by blast
    then obtain da where da: "(a, da) \<in> set m" "dso_start n \<le> dso_end da"
      and amin: "\<And>k d. (k, d) \<in> set m \<Longrightarrow> dso_start n \<le> dso_end d \<Longrightarrow> a \<le> k"
      using f by (auto elim!: smap_begin_filter_SomeE[OF sm])
    have pl: "smap_prev m l = smap_prev m (smap_upper_bound m (dso_end n))"
      unfolding l by (rule smap_prev_begin_filter[OF sm])
    then obtain b where b: "smap_prev m l = Some b"
      using smap_prev_upper_bound_exists[OF sm kd(1,3)] by metis
    then obtain db where db: "(b, db) \<in> set m" "b \<le> dso_end n"
      and bmax: "\<And>k d. (k, d) \<in> set m \<Longrightarrow> k \<le> dso_end n \<Longrightarrow> k \<le> b"
      using pl smap_prev_upper_boundE[OF sm] by metis
    have up: "dso_start n \<le> dso_end d \<longleftrightarrow> a \<le> k" if "(k, d) \<in> set m" for k d
    proof
      assume "a \<le> k"
      then consider "a = k" | "a < k" by fastforce
      then show "dso_start n \<le> dso_end d"
      proof cases
        case 1 then show ?thesis using smap_unique_value[OF sm da(1)] that da(2) by simp
      next
        case 2 then show ?thesis
          using dso_map_wfD(5)[OF wf da(1) that] da(2) dso_map_wfD(2,3)[OF wf that] by simp
      qed
    qed (use that amin in blast)
    have down: "k \<le> dso_end n \<longleftrightarrow> k \<le> b" if "(k, d) \<in> set m" for k d
      using bmax[OF that] db(2) by auto
    have ab: "a \<le> b" using amin[OF kd(1,2)] bmax[OF kd(1,3)] by simp
    have in_l: "(case l of None \<Rightarrow> True | Some c \<Rightarrow> k < c) \<longleftrightarrow> k \<le> b" if "(k, d) \<in> set m" for k d
    proof (cases l)
      case None
      then have "smap_begin ?B = None" using l by simp
      then have "k \<le> dso_end n" using that by (auto simp: filter_empty_conv not_less)
      with None show ?thesis using down[OF that] by simp
    next
      case (Some c)
      then have "smap_begin ?B = Some c" using l by simp
      then have "dso_end n < c" and "(k, d) \<in> set m \<Longrightarrow> dso_end n < k \<Longrightarrow> c \<le> k"
        by (elim smap_begin_filter_SomeE[OF sm]; simp)+
      then have "k < c \<longleftrightarrow> k \<le> dso_end n" using that by (cases "dso_end n < k") auto
      with Some show ?thesis using down[OF that] by simp
    qed
    have "f \<noteq> l" using in_l[OF db(1)] in_l[OF da(1)] a ab by auto
    moreover have "dso_end n < c \<and> c \<in> fst ` set m" if "l = Some c" for c
      using that unfolding l by (elim smap_begin_filter_SomeE[OF sm]) force
    ultimately show thesis
      using a b da(1) db(1) ab int up down in_l
      by (intro range[of a b da db]) (auto simp: in_range_def)
  qed
qed

section \<open>Removal of the intersected range\<close>

text \<open>Only the outermost intersecting mappings can reach beyond the new one.\<close>

lemma carve_inside:
  assumes "intersects d n" and "dso_nonempty d" and "dso_nonempty n"
    and "dso_start n \<le> dso_start d" and "dso_end d \<le> dso_end n"
  shows "carve n d = []"
  using assms by (simp add: carve_def)

definition carved :: "dso \<Rightarrow> dso_map \<Rightarrow> (u64 \<times> dso) set" where
  "carved n m = (\<Union>p\<in>set m. (\<lambda>d. (dso_start d, d)) ` set (carve n (snd p)))"

lemma carved_disjoint:
  assumes wf: "dso_map_wf m" and "\<And>k d. (k, d) \<in> set m \<Longrightarrow> \<not> intersects d n"
  shows "carved n m = set m"
  using assms dso_map_wfD(2)[OF wf] by (force simp: carved_def carve_def)

lemma carved_range:
  assumes wf: "dso_map_wf m" and n: "dso_nonempty n"
    and a: "(a, da) \<in> set m" and b: "(b, db) \<in> set m" and ab: "a \<le> b"
    and int: "\<forall>p\<in>set m. intersects (snd p) n \<longleftrightarrow> a \<le> fst p \<and> fst p \<le> b"
  defines "L \<equiv> if is_intersection_allowed da n \<and> dso_start da < dso_start n
                then {(a, adjust_end da (dso_start n - 1))} else {}"
    and "R \<equiv> if is_intersection_allowed db n \<and> dso_end n < dso_end db
                then {(dso_end n + 1, adjust_start db (dso_end n + 1))} else {}"
  shows "carved n m = {p \<in> set m. \<not> (a \<le> fst p \<and> fst p \<le> b)} \<union> L \<union> R"
proof -
  note sm = dso_map_wfD(1)[OF wf]
  let ?C = "\<lambda>p. (\<lambda>d. (dso_start d, d)) ` set (carve n (snd p))"
  have ia: "dso_start n \<le> dso_end da" and ib: "dso_start db \<le> dso_end n"
    using bspec[OF int a] bspec[OF int b] ab n dso_map_wfD(4)[OF wf a] dso_map_wfD(4)[OF wf b]
    by (simp_all add: intersects_alt)
  have out: "?C p = {p}" if "p \<in> set m" "\<not> (a \<le> fst p \<and> fst p \<le> b)" for p
  proof -
    obtain k d where p: "p = (k, d)" by (cases p)
    with that bspec[OF int, of p] dso_map_wfD(2)[OF wf, of k d] show ?thesis by (auto simp: carve_def)
  qed
  have inr: "?C p = (if fst p = a then L else {}) \<union> (if fst p = b then R else {})"
    if "p \<in> set m" "a \<le> fst p" "fst p \<le> b" for p
  proof -
    obtain k d where p: "p = (k, d)" by (cases p)
    with that have mem: "(k, d) \<in> set m" and "intersects d n" using int by auto
    have "k = a \<Longrightarrow> d = da" "k = b \<Longrightarrow> d = db" using smap_unique_value[OF sm] mem a b by blast+
    moreover have "k \<noteq> a \<Longrightarrow> \<not> dso_start d < dso_start n"
      using dso_map_wfD(5)[OF wf a mem] that(2) ia dso_map_wfD(2)[OF wf mem] p by fastforce
    moreover have "k \<noteq> b \<Longrightarrow> \<not> dso_end n < dso_end d"
      using dso_map_wfD(5)[OF wf mem b] that(3) ib dso_map_wfD(2)[OF wf b] p by fastforce
    moreover have "k = dso_start d" by (rule dso_map_wfD(2)[OF wf mem])
    ultimately show ?thesis using \<open>intersects d n\<close>
      by (auto simp: p carve_def L_def R_def dso_ops split: if_splits)
  qed
  have "carved n m = (\<Union>p\<in>{p \<in> set m. \<not> (a \<le> fst p \<and> fst p \<le> b)}. ?C p)
      \<union> (\<Union>p\<in>{p \<in> set m. a \<le> fst p \<and> fst p \<le> b}. ?C p)"
    by (auto simp: carved_def)
  also have "(\<Union>p\<in>{p \<in> set m. \<not> (a \<le> fst p \<and> fst p \<le> b)}. ?C p)
      = {p \<in> set m. \<not> (a \<le> fst p \<and> fst p \<le> b)}"
    using out by auto
  also have "(\<Union>p\<in>{p \<in> set m. a \<le> fst p \<and> fst p \<le> b}. ?C p)
      = (\<Union>p\<in>{p \<in> set m. a \<le> fst p \<and> fst p \<le> b}.
          (if fst p = a then L else {}) \<union> (if fst p = b then R else {}))"
    using inr by (intro SUP_cong) auto
  also have "\<dots> = L \<union> R"
  proof (intro equalityI Un_least)
    show "L \<subseteq> (\<Union>p\<in>{p \<in> set m. a \<le> fst p \<and> fst p \<le> b}.
          (if fst p = a then L else {}) \<union> (if fst p = b then R else {}))"
      by (rule SUP_upper2[of "(a, da)"]) (simp_all add: a ab)
    show "R \<subseteq> (\<Union>p\<in>{p \<in> set m. a \<le> fst p \<and> fst p \<le> b}.
          (if fst p = a then L else {}) \<union> (if fst p = b then R else {}))"
      by (rule SUP_upper2[of "(b, db)"]) (simp_all add: b ab)
  qed (auto split: if_splits)
  finally show ?thesis by (simp add: Un_assoc)
qed

lemma erase_range_first_set:
  assumes sm: "smap_wf m" and a: "(a, da) \<in> set m" and ina: "in_range (Some a) l a"
  obtains m' where "erase_range_first m (Some a, l) n = Inr m'" and "smap_wf m'"
    and "set m' = {p \<in> set m. \<not> in_range (Some a) l (fst p)}
      \<union> (if is_intersection_allowed da n \<and> dso_start da < dso_start n
         then {(a, adjust_end da (dso_start n - 1))} else {})"
proof (cases "dso_start da < dso_start n \<and> is_intersection_allowed da n")
  case True
  let ?m = "smap_assign a (adjust_end da (dso_start n - 1)) m"
  have "set (smap_erase_range (smap_next ?m (Some a)) l ?m)
      = {p \<in> set ?m. \<not> (a < fst p \<and> in_range (Some a) l (fst p))}"
    using in_range_next[of ?m _ _ a l] sm by (auto simp: set_smap_erase_range)
  also have "\<dots> = {p \<in> set m. \<not> in_range (Some a) l (fst p)}
      \<union> {(a, adjust_end da (dso_start n - 1))}"
    using sm ina by (auto simp: set_smap_assign in_range_def)
  finally show thesis
    using that[of "smap_erase_range (smap_next ?m (Some a)) l ?m"] True a sm
    by (simp add: erase_range_first_def smap_mem_iff Let_def)
next
  case False
  then show thesis
    using that[of "smap_erase_range (Some a) l m"] a sm
    by (auto simp: erase_range_first_def smap_mem_iff set_smap_erase_range)
qed

lemma no_key_inside:
  assumes wf: "dso_map_wf m" and b: "(b, db) \<in> set m" and "b < x" and "x \<le> dso_end db"
  shows "(x, d) \<notin> set m"
  using dso_map_wfD(5)[OF wf b, of x d] assms(3,4) by auto

lemma erase_range_unfold:
  assumes "smap_wf m" and "f \<noteq> l" and "smap_prev m l = Some b" and "(b, db) \<in> set m"
  shows "\<not> (dso_end n < dso_end db \<and> is_intersection_allowed db n) \<Longrightarrow>
      erase_range m (f, l) n = erase_range_first m (f, l) n"
    and "dso_end n < dso_end db \<Longrightarrow> is_intersection_allowed db n \<Longrightarrow> dso_start db < dso_start n \<Longrightarrow>
      erase_range m (f, l) n = Inr (smap_assign b (adjust_end db (dso_start n - 1))
        (smap_assign (dso_end n + 1) (adjust_start db (dso_end n + 1)) m))"
    and "dso_end n < dso_end db \<Longrightarrow> is_intersection_allowed db n \<Longrightarrow> \<not> dso_start db < dso_start n \<Longrightarrow>
      map_of m (dso_end n + 1) = None \<Longrightarrow>
      erase_range m (f, l) n =
        (let m' = smap_assign (dso_end n + 1) (adjust_start db (dso_end n + 1)) (smap_erase b m)
         in if f = Some b then Inr m' else erase_range_first m' (f, smap_prev m' l) n)"
  using assms by (auto simp: erase_range_def Let_def smap_insert_def adjust_start_def smap_mem_iff)

lemma prev_after_reinsert:
  assumes sm: "smap_wf m" and ns: "b < ns" and l: "\<forall>c. l = Some c \<longrightarrow> ns < c"
    and k: "\<forall>p\<in>set m. in_range (Some a) l (fst p) \<longrightarrow> fst p \<le> b" and a: "a < b"
  shows "smap_prev (smap_assign ns v (smap_erase b m)) l = Some ns"
proof -
  let ?m = "smap_assign ns v (smap_erase b m)"
  have set: "set ?m = insert (ns, v) {p \<in> set m. fst p \<noteq> b \<and> fst p \<noteq> ns}"
    using sm by (auto simp: set_smap_assign set_smap_erase)
  have le: "k' \<le> ns" if "(k', d) \<in> set m" "\<And>c. l = Some c \<Longrightarrow> k' < c" for k' d
    using bspec[OF k that(1)] that(2) ns a by (cases l; cases "a \<le> k'") (auto simp: in_range_def)
  show ?thesis
  proof (cases l)
    case None
    then show ?thesis using sm le set by (auto simp: smap_prev_None smap_last_Some)
  next
    case (Some c)
    then show ?thesis using sm le set l by (auto simp: smap_prev_Some)
  qed
qed

lemma set_split_mapping:
  assumes "smap_wf m" and "\<forall>p\<in>set m. fst p \<noteq> ns" and "b \<noteq> ns"
  shows "set (smap_assign b x (smap_assign ns y m)) = {p \<in> set m. fst p \<noteq> b} \<union> {(b, x)} \<union> {(ns, y)}"
  using assms by (auto simp: set_smap_assign)

lemma set_reinsert:
  assumes "smap_wf m" and "\<forall>p\<in>set m. fst p \<noteq> ns"
  shows "set (smap_assign ns y (smap_erase b m)) = insert (ns, y) {p \<in> set m. fst p \<noteq> b}"
  using assms by (auto simp: set_smap_assign set_smap_erase)

lemma erase_range_truncate:
  assumes sm: "smap_wf m" and a: "(a, da) \<in> set m" and ab: "a < b" and bns: "b < ns"
    and no_ns: "\<forall>p\<in>set m. fst p \<noteq> ns" and down: "\<forall>p\<in>set m. fst p < ns \<longleftrightarrow> fst p \<le> b"
  obtains m' where
    "erase_range_first (smap_assign ns y (smap_erase b m)) (Some a, Some ns) n = Inr m'"
    and "smap_wf m'"
    and "set m' = {p \<in> set m. \<not> (a \<le> fst p \<and> fst p \<le> b)}
      \<union> (if is_intersection_allowed da n \<and> dso_start da < dso_start n
         then {(a, adjust_end da (dso_start n - 1))} else {}) \<union> {(ns, y)}"
proof -
  let ?m = "smap_assign ns y (smap_erase b m)"
  note set' = set_reinsert[OF sm no_ns, of y b]
  have "(a, da) \<in> set ?m" using a ab by (auto simp: set')
  then obtain m' where m': "erase_range_first ?m (Some a, Some ns) n = Inr m'" "smap_wf m'"
    and "set m' = {p \<in> set ?m. \<not> in_range (Some a) (Some ns) (fst p)}
      \<union> (if is_intersection_allowed da n \<and> dso_start da < dso_start n
         then {(a, adjust_end da (dso_start n - 1))} else {})"
    using ab bns sm by (rule_tac erase_range_first_set[of ?m a da "Some ns" n]) (auto simp: in_range_def)
  moreover have "{p \<in> set ?m. \<not> in_range (Some a) (Some ns) (fst p)}
      = insert (ns, y) {p \<in> set m. \<not> (a \<le> fst p \<and> fst p \<le> b)}"
    unfolding set' in_range_def using down ab by (auto simp del: not_le)
  ultimately show thesis by (intro that[OF m']) auto
qed

text \<open>
  The removal never fails, and leaves exactly what \<^const>\<open>carve\<close> keeps of every mapping.
\<close>

lemma erase_range_carved:
  assumes wf: "dso_map_wf m" and n: "dso_nonempty n" and max: "dso_end n < x"
    and gi: "get_intersection m n = (f, l)"
  obtains m' where "erase_range m (f, l) n = Inr m'" and "smap_wf m'" and "set m' = carved n m"
proof (cases rule: intersection_cases[OF wf n max gi])
  case 1
  then show thesis
    using that[of m] carved_disjoint[OF wf] dso_map_wfD(1)[OF wf] by (auto simp: erase_range_def)
next
  case (2 a da b db)
  note sm = dso_map_wfD(1)[OF wf] and rng = 2(8)[unfolded 2(2)]
  note cr = carved_range[OF wf n 2(4-7)]
  note unf = erase_range_unfold[OF sm 2(1,3,5), of n]
  have rng_eq: "{p \<in> set m. \<not> in_range (Some a) l (fst p)} = {p \<in> set m. \<not> (a \<le> fst p \<and> fst p \<le> b)}"
    using rng by blast
  let ?ns = "dso_end n + 1"
  have down: "\<forall>p\<in>set m. fst p < ?ns \<longleftrightarrow> fst p \<le> b" and bns: "b < ?ns"
    using 2(5,9) by (auto simp: word_less_add_one_iff[OF max])
  consider "\<not> (dso_end n < dso_end db \<and> is_intersection_allowed db n)"
    | (trunc) "dso_end n < dso_end db" "is_intersection_allowed db n"
    by blast
  then show thesis
  proof cases
    case 1
    obtain m' where "erase_range_first m (Some a, l) n = Inr m'" "smap_wf m'"
      and "set m' = {p \<in> set m. \<not> in_range (Some a) l (fst p)}
      \<union> (if is_intersection_allowed da n \<and> dso_start da < dso_start n
         then {(a, adjust_end da (dso_start n - 1))} else {})"
      using bspec[OF rng 2(4)] 2(6) by (rule_tac erase_range_first_set[OF sm 2(4), of l n]) auto
    moreover from this(3) have "set m' = carved n m" unfolding cr rng_eq using 1 by auto
    ultimately show thesis using that[of m'] 1 unf(1) 2(2) by simp
  next
    case trunc
    have no_ns: "\<forall>p\<in>set m. fst p \<noteq> ?ns"
      using no_key_inside[OF wf 2(5) bns] trunc(1) by (auto simp: word_add_one_le_iff[OF max])
    then have fresh: "map_of m ?ns = None" by (auto simp: map_of_eq_None_iff)
    have same: "da = db" if "a = b" using that smap_unique_value[OF sm] 2(4,5) by blast
    have eqb: "{p \<in> set m. b \<le> fst p \<longrightarrow> fst p \<noteq> b} = {p \<in> set m. fst p \<noteq> b}" by auto
    consider (split) "dso_start db < dso_start n" | (one) "a = b" "\<not> dso_start db < dso_start n"
      | (more) "a < b" "\<not> dso_start db < dso_start n"
      using 2(6) by fastforce
    then show thesis
    proof cases
      case split
      have "dso_start n \<le> dso_end da"
        using bspec[OF 2(7) 2(4)] 2(6) n dso_map_wfD(4)[OF wf 2(4)] by (simp add: intersects_alt)
      then have "a = b" using dso_map_wfD(5)[OF wf 2(4,5)] 2(6) split dso_map_wfD(2)[OF wf 2(5)]
        by fastforce
      then show thesis
        using that[OF unf(2)[OF trunc split]] sm set_split_mapping[OF sm no_ns] bns same split trunc
        unfolding cr by (simp add: eqb)
    next
      case one
      then show thesis
        using that[of "smap_assign ?ns (adjust_start db ?ns) (smap_erase b m)"]
          unf(3)[OF trunc one(2) fresh] 2(2) sm set_reinsert[OF sm no_ns] same trunc
        unfolding cr by (simp add: eqb)
    next
      case more
      let ?m = "smap_assign ?ns (adjust_start db ?ns) (smap_erase b m)"
      have "?ns \<le> c" "c \<noteq> ?ns" if "l = Some c" for c
        using 2(10) that no_ns word_add_one_le_iff[OF max] by auto
      then have "\<forall>c. l = Some c \<longrightarrow> ?ns < c" by (metis order.strict_iff_order)
      then have prev: "smap_prev ?m l = Some ?ns"
        using prev_after_reinsert[OF sm bns _ _ more(1)] rng by blast
      obtain m' where m': "erase_range_first ?m (Some a, Some ?ns) n = Inr m'" "smap_wf m'"
        and "set m' = {p \<in> set m. \<not> (a \<le> fst p \<and> fst p \<le> b)}
          \<union> (if is_intersection_allowed da n \<and> dso_start da < dso_start n
             then {(a, adjust_end da (dso_start n - 1))} else {}) \<union> {(?ns, adjust_start db ?ns)}"
        by (rule erase_range_truncate[OF sm 2(4) more(1) bns no_ns down])
      then have "set m' = carved n m" unfolding cr using trunc by simp
      moreover have "f \<noteq> Some b" using more(1) 2(2) by simp
      ultimately show thesis
        using m' unf(3)[OF trunc more(2) fresh] 2(2) prev by (intro that[of m']) (simp_all add: Let_def)
    qed
  qed
qed

section \<open>What stays after an insertion\<close>

lemma carve_range:
  assumes d: "dso_nonempty d" and n: "dso_nonempty n" and max: "dso_end n < x"
    and p: "p \<in> set (carve n d)"
  shows "dso_nonempty p" and "dso_range p \<subseteq> dso_range d - dso_range n"
proof -
  consider (keep) "\<not> intersects d n" "p = d"
    | (left) "dso_start d < dso_start n" "p = adjust_end d (dso_start n - 1)" "intersects d n"
    | (right) "dso_end n < dso_end d" "p = adjust_start d (dso_end n + 1)" "intersects d n"
    using p by (auto simp: carve_def split: if_splits)
  then have "dso_nonempty p \<and> dso_range p \<subseteq> dso_range d - dso_range n"
  proof cases
    case keep
    then show ?thesis using d n intersects_range[OF d n] by auto
  next
    case left
    then have "dso_start n \<le> dso_end d" using d n by (simp add: intersects_alt)
    with left(1) show ?thesis
      by (auto simp: left(2) dso_nonempty_def dso_range_def adjust_end_def
          word_sub_one_less_iff(2)[OF left(1)])
  next
    case right
    then have "dso_start d \<le> dso_end n" using d n by (simp add: intersects_alt)
    with right(1) show ?thesis
      by (auto simp: right(2) dso_nonempty_def dso_range_def adjust_start_def
          word_add_one_le_iff[OF max])
  qed
  then show "dso_nonempty p" and "dso_range p \<subseteq> dso_range d - dso_range n" by auto
qed

text \<open>Together the pieces cover what \<open>n\<close> does not, when the overlap is allowed.\<close>

lemma carve_cover:
  assumes d: "dso_nonempty d" and n: "dso_nonempty n" and max: "dso_end n < x"
    and "is_intersection_allowed d n"
  shows "(\<Union>p\<in>set (carve n d). dso_range p) = dso_range d - dso_range n"
proof
  show "(\<Union>p\<in>set (carve n d). dso_range p) \<subseteq> dso_range d - dso_range n"
    using carve_range(2)[OF d n max] by blast
  show "dso_range d - dso_range n \<subseteq> (\<Union>p\<in>set (carve n d). dso_range p)"
  proof
    fix y assume y: "y \<in> dso_range d - dso_range n"
    show "y \<in> (\<Union>p\<in>set (carve n d). dso_range p)"
    proof (cases "y < dso_start n")
      case True
      moreover then have "dso_start d < dso_start n" using y by (auto simp: dso_range_def)
      ultimately show ?thesis using y assms word_sub_one_less_iff(2)[of "dso_start d" "dso_start n" y]
        by (auto simp: carve_def dso_range_def adjust_end_def)
    next
      case False
      then have "dso_end n < y" using y n by (auto simp: dso_range_def dso_nonempty_def)
      moreover then have "dso_end n < dso_end d" using y by (auto simp: dso_range_def)
      ultimately show ?thesis using y assms word_add_one_le_iff[OF max, of y]
        by (auto simp: carve_def dso_range_def adjust_start_def)
    qed
  qed
qed

lemma carve_same_file:
  "p \<in> set (carve n d) \<Longrightarrow> dso_pid p = dso_pid d \<and> dso_filename p = dso_filename d
     \<and> dso_inode p = dso_inode d \<and> dso_type p = dso_type d \<and> dso_prot p = dso_prot d
     \<and> dso_offset p = dso_offset d \<and> dso_id p = dso_id d"
  by (auto simp: carve_def dso_ops split: if_splits)

lemma range_order:
  assumes "dso_nonempty d" and "dso_nonempty e" and "dso_range d \<inter> dso_range e = {}"
  shows "dso_start d \<noteq> dso_start e" and "dso_start d < dso_start e \<Longrightarrow> dso_end d < dso_start e"
proof -
  have "dso_start e \<in> dso_range e" "dso_start d \<in> dso_range d"
    using assms by (auto simp: dso_range_def dso_nonempty_def)
  then show "dso_start d \<noteq> dso_start e" using assms(3) by auto
  have "dso_start e \<notin> dso_range d" using \<open>dso_start e \<in> dso_range e\<close> assms(3) by auto
  then show "dso_start d < dso_start e \<Longrightarrow> dso_end d < dso_start e"
    by (auto simp: dso_range_def)
qed

lemma carve_two_pieces:
  assumes "p \<in> set (carve n d)" and "q \<in> set (carve n d)" and "p \<noteq> q"
  shows "dso_start d < dso_start n \<and> dso_end n < dso_end d
    \<and> {p, q} = {adjust_end d (dso_start n - 1), adjust_start d (dso_end n + 1)}"
  using assms by (auto simp: carve_def split: if_splits)

lemma carve_pieces_disjoint:
  assumes n: "dso_nonempty n" and max: "dso_end n < x"
    and pq: "p \<in> set (carve n d)" "q \<in> set (carve n d)" "p \<noteq> q"
  shows "dso_range p \<inter> dso_range q = {}"
proof -
  let ?l = "adjust_end d (dso_start n - 1)" and ?r = "adjust_start d (dso_end n + 1)"
  from carve_two_pieces[OF pq] have lt: "dso_start d < dso_start n" and eq: "{p, q} = {?l, ?r}" by auto
  have "\<forall>y\<in>dso_range ?l. y < dso_start n" "\<forall>y\<in>dso_range ?r. dso_end n < y"
    using word_sub_one_less_iff(2)[OF lt] word_add_one_le_iff[OF max]
    by (auto simp: dso_range_def dso_ops)
  then have "dso_range ?l \<inter> dso_range ?r = {}" using n by (fastforce simp: dso_nonempty_def)
  with eq show ?thesis by (auto simp: doubleton_eq_iff)
qed

lemma carvedE:
  assumes wf: "dso_map_wf m" and n: "dso_nonempty n" and max: "dso_end n < x"
    and p: "(k, p) \<in> carved n m"
  obtains d where "(dso_start d, d) \<in> set m" and "p \<in> set (carve n d)" and "k = dso_start p"
    and "dso_nonempty p" and "dso_range p \<subseteq> dso_range d - dso_range n" and "dso_nonempty d"
proof -
  from p obtain k' d where d: "(k', d) \<in> set m" "p \<in> set (carve n d)" "k = dso_start p"
    by (auto simp: carved_def)
  then show thesis
    using that[of d] carve_range[OF _ n max d(2)] dso_map_wfD(2,4)[OF wf d(1)] by simp
qed

lemma carved_ranges_disjoint:
  assumes wf: "dso_map_wf m" and n: "dso_nonempty n" and max: "dso_end n < x"
    and "(k, p) \<in> carved n m" and "(k', q) \<in> carved n m" and "p \<noteq> q"
  shows "dso_range p \<inter> dso_range q = {}"
proof (rule carvedE[OF wf n max assms(4)], rule carvedE[OF wf n max assms(5)])
  fix d e assume d: "(dso_start d, d) \<in> set m" and e: "(dso_start e, e) \<in> set m"
    and p: "p \<in> set (carve n d)" "dso_range p \<subseteq> dso_range d - dso_range n"
    and q: "q \<in> set (carve n e)" "dso_range q \<subseteq> dso_range e - dso_range n"
  show ?thesis
  proof (cases "d = e")
    case True
    then show ?thesis using carve_pieces_disjoint[OF n max] p(1) q(1) assms(6) by simp
  next
    case False
    have mem: "d \<in> dsos m" "e \<in> dsos m" using d e by (auto simp: dsos_def intro: rev_image_eqI)
    have "dso_range d \<inter> dso_range e = {}"
      using dso_map_disjoint[OF wf mem] False by (simp add: is_within_range disjoint_iff) blast
    with p(2) q(2) show ?thesis by blast
  qed
qed

lemma carved_fresh:
  assumes "dso_map_wf m" and n: "dso_nonempty n" and "dso_end n < x"
  shows "(dso_start n, p) \<notin> carved n m"
proof
  assume "(dso_start n, p) \<in> carved n m"
  then have "dso_start n \<in> dso_range p" "dso_start n \<notin> dso_range p"
    using n by (auto elim!: carvedE[OF assms] simp: dso_range_def dso_nonempty_def)
  then show False by simp
qed

text \<open>Any pairwise disjoint, non-empty mappings keyed by their start make a well-formed map.\<close>

lemma dso_map_wfI:
  assumes "smap_wf m"
    and "\<And>k d. (k, d) \<in> set m \<Longrightarrow> k = dso_start d \<and> dso_nonempty d"
    and "\<And>k d k' e. (k, d) \<in> set m \<Longrightarrow> (k', e) \<in> set m \<Longrightarrow> d \<noteq> e \<Longrightarrow> dso_range d \<inter> dso_range e = {}"
  shows "dso_map_wf m"
  unfolding dso_map_wf_def
proof (intro conjI ballI impI)
  fix p q assume pq: "p \<in> set m" "q \<in> set m" "dso_start (snd p) < dso_start (snd q)"
  obtain k d k' e where [simp]: "p = (k, d)" "q = (k', e)" by (metis surj_pair)
  have "d \<noteq> e" using assms(2)[of k d] assms(2)[of k' e] pq by auto
  then show "dso_end (snd p) < dso_start (snd q)"
    using range_order(2)[of d e] assms(2)[of k d] assms(2)[of k' e] assms(3)[of k d k' e] pq by simp
qed (use assms in auto)

lemma insert_carved_wf:
  assumes wf: "dso_map_wf m" and n: "dso_nonempty n" and max: "dso_end n < x"
    and sm: "smap_wf m'" and set: "set m' = insert (dso_start n, n) (carved n m)"
  shows "dso_map_wf m'"
proof (rule dso_map_wfI[OF sm])
  fix k d assume "(k, d) \<in> set m'"
  then show "k = dso_start d \<and> dso_nonempty d"
    using n by (auto simp: set elim: carvedE[OF wf n max])
next
  have out: "dso_range n \<inter> dso_range p = {}" if "(k, p) \<in> carved n m" for k p
    using that by (auto elim: carvedE[OF wf n max])
  fix k d k' e assume "(k, d) \<in> set m'" "(k', e) \<in> set m'" and ne: "d \<noteq> e"
  then consider "d = n" "(k', e) \<in> carved n m" | "e = n" "(k, d) \<in> carved n m"
    | "(k, d) \<in> carved n m" "(k', e) \<in> carved n m"
    by (auto simp: set)
  then show "dso_range d \<inter> dso_range e = {}"
    using carved_ranges_disjoint[OF wf n max _ _ ne] out by cases blast+
qed

lemma dso_map_set: "dso_map_wf m \<Longrightarrow> set m = (\<lambda>d. (dso_start d, d)) ` dsos m"
  by (force simp: dsos_def dso_map_wf_def)

lemma dsos_unique: "dso_map_wf m \<Longrightarrow> d \<in> dsos m \<Longrightarrow> e \<in> dsos m \<Longrightarrow> dso_start d = dso_start e \<Longrightarrow> d = e"
  using smap_unique_value[OF dso_map_wfD(1)] dso_map_memI by metis

lemma dsos_nonempty: "dso_map_wf m \<Longrightarrow> d \<in> dsos m \<Longrightarrow> dso_nonempty d"
  by (meson dso_map_memI dso_map_wfD(4))

text \<open>Replacing a mapping by one with the same start that covers less.\<close>

lemma shrink_mapping:
  assumes wf: "dso_map_wf m" and old: "old \<in> dsos m"
    and new: "dso_start d = dso_start old" "dso_nonempty d" "dso_range d \<subseteq> dso_range old"
  shows "dsos (smap_assign (dso_start d) d m) = insert d (dsos m - {old})"
    and "dso_map_wf (smap_assign (dso_start d) d m)"
proof -
  note sm = dso_map_wfD(1)[OF wf]
  let ?m = "smap_assign (dso_start d) d m"
  have eq: "{p \<in> set m. fst p \<noteq> dso_start d} = (\<lambda>d. (dso_start d, d)) ` (dsos m - {old})"
    using dsos_unique[OF wf _ old] new(1) by (auto simp: dso_map_set[OF wf])
  then have set: "set ?m = insert (dso_start d, d) ((\<lambda>d. (dso_start d, d)) ` (dsos m - {old}))"
    by (simp add: set_smap_assign[OF sm])
  then show "dsos ?m = insert d (dsos m - {old})"
    by (simp add: dsos_def image_image)
  have disj: "dso_range e \<inter> dso_range e' = {}" if "e \<in> dsos m" "e' \<in> dsos m" "e \<noteq> e'" for e e'
    using dso_map_disjoint[OF wf that(1,2)] that(3) by (simp add: is_within_range disjoint_iff) blast
  show "dso_map_wf ?m"
  proof (rule dso_map_wfI)
    fix k e k' e' assume "(k, e) \<in> set ?m" "(k', e') \<in> set ?m" and ne: "e \<noteq> e'"
    then consider "e = d" "e' \<in> dsos m" "e' \<noteq> old" | "e' = d" "e \<in> dsos m" "e \<noteq> old"
      | "e \<in> dsos m" "e' \<in> dsos m"
      unfolding set by blast
    then show "dso_range e \<inter> dso_range e' = {}"
      using disj[OF _ _ ne] disj[OF old, of e'] disj[OF old, of e] new(3) by cases blast+
  qed (use sm set new dsos_nonempty[OF wf] in auto)
qed

section \<open>The search contract\<close>

definition closest_dso :: "dso_map \<Rightarrow> u64 \<Rightarrow> dso option" where
  "closest_dso m a = (case dso_find_closest m a of (it, found) \<Rightarrow> if found then smap_deref m it else None)"

interpretation dso_search: closest_search dso_map_wf dsos is_within closest_dso
proof
  fix m a and x :: dso assume wf: "dso_map_wf m"
  obtain it found where r: "dso_find_closest m a = (it, found)" by (cases "dso_find_closest m a")
  note found = dso_find_closest_found[OF wf, of a] and mem = smap_mem_iff[OF dso_map_wfD(1)[OF wf]]
  show "x \<in> dsos m \<and> is_within x a" if c: "closest_dso m a = Some x"
  proof -
    obtain k where k: "it = Some k" "found" "map_of m k = Some x"
      using c r by (auto simp: closest_dso_def smap_deref_def split: if_splits option.splits)
    then have "(k, x) \<in> set m" by (simp add: mem)
    moreover have "is_within x a" using k r found[of k] by (auto simp: mem)
    ultimately show ?thesis by (auto simp: dsos_def intro: rev_image_eqI)
  qed
  show "closest_dso m a \<noteq> None" if "x \<in> dsos m" "is_within x a"
  proof -
    have "(dso_start x, x) \<in> set m" using dso_map_memI[OF wf that(1)] .
    then show ?thesis using found[of "dso_start x"] that(2) mem
      by (auto simp: closest_dso_def smap_deref_def)
  qed
qed (rule dso_map_disjoint)

end
