(* ===== verification/Proc_Maps.thy ===== *)
theory Proc_Maps
  imports Dso
begin

text \<open>
  The reader of a line of \<^verbatim>\<open>/proc/<pid>/maps\<close> (\<^verbatim>\<open>DsoHdr::dso_from_proc_line\<close> in
  \<^verbatim>\<open>src/src/dso_hdr.cc\<close>). The conversions of \<^verbatim>\<open>sscanf\<close> that its format string uses are
  modelled on character lists: each takes the input and gives the converted value and the
  rest of the input, or \<^term>\<open>None\<close> on a matching failure. A line printed the way the
  kernel prints it is read back into the mapping it describes.
\<close>

section \<open>Conversions\<close>

definition isspace :: "char \<Rightarrow> bool" where
  "isspace c \<longleftrightarrow> of_char c = (32::nat) \<or> (9::nat) \<le> of_char c \<and> of_char c \<le> (13::nat)"

definition hex_value :: "char \<Rightarrow> nat option" where
  "hex_value c = (let n = of_char c :: nat in
     if 48 \<le> n \<and> n \<le> 57 then Some (n - 48)
     else if 97 \<le> n \<and> n \<le> 102 then Some (n - 87)
     else if 65 \<le> n \<and> n \<le> 70 then Some (n - 55)
     else None)"

definition dec_value :: "char \<Rightarrow> nat option" where
  "dec_value c = (if isdigit c then Some (of_char c - 48) else None)"

text \<open>The longest run of digits: its value and what follows; it must not be empty.\<close>

fun digits_value :: "nat \<Rightarrow> (char \<Rightarrow> nat option) \<Rightarrow> nat \<Rightarrow> string \<Rightarrow> nat \<times> string" where
  "digits_value base dv acc [] = (acc, [])"
| "digits_value base dv acc (c # s) = (case dv c of
      None \<Rightarrow> (acc, c # s)
    | Some v \<Rightarrow> digits_value base dv (base * acc + v) s)"

definition scan_digits :: "nat \<Rightarrow> (char \<Rightarrow> nat option) \<Rightarrow> string \<Rightarrow> (nat \<times> string) option" where
  "scan_digits base dv s = (case s of
      [] \<Rightarrow> None
    | c # _ \<Rightarrow> if dv c = None then None else Some (digits_value base dv 0 s))"

text \<open>
  \<^verbatim>\<open>strtoul\<close> on the digits read: an out-of-range value saturates, and a minus sign negates
  modulo \<open>2 ^ 64\<close>.
\<close>

definition strtoul_value :: "bool \<Rightarrow> nat \<Rightarrow> u64" where
  "strtoul_value neg n = (if 2 ^ 64 \<le> n then - 1 else if neg then - of_nat n else of_nat n)"

definition scan_sign :: "string \<Rightarrow> bool \<times> string" where
  "scan_sign s = (case s of
      [] \<Rightarrow> (False, [])
    | c # s' \<Rightarrow> if c = CHR ''-'' then (True, s') else if c = CHR ''+'' then (False, s') else (False, s))"

definition scan_0x :: "string \<Rightarrow> string" where
  "scan_0x s = (if prefix ''0x'' s \<or> prefix ''0X'' s then drop 2 s else s)"

text \<open>\<^verbatim>\<open>%lx\<close> and \<^verbatim>\<open>%x\<close>; \<^verbatim>\<open>%lu\<close>; an ordinary character; a space directive; \<^verbatim>\<open>%4c\<close>.\<close>

definition scan_hex :: "string \<Rightarrow> (u64 \<times> string) option" where
  "scan_hex s = (let (neg, s') = scan_sign (dropWhile isspace s) in
     map_option (\<lambda>(n, r). (strtoul_value neg n, r)) (scan_digits 16 hex_value (scan_0x s')))"

definition scan_dec :: "string \<Rightarrow> (u64 \<times> string) option" where
  "scan_dec s = (let (neg, s') = scan_sign (dropWhile isspace s) in
     map_option (\<lambda>(n, r). (strtoul_value neg n, r)) (scan_digits 10 dec_value s'))"

definition scan_lit :: "char \<Rightarrow> string \<Rightarrow> string option" where
  "scan_lit c s = (case s of [] \<Rightarrow> None | c' # s' \<Rightarrow> if c' = c then Some s' else None)"

definition scan_space :: "string \<Rightarrow> string" where
  "scan_space s = dropWhile isspace s"

definition scan_4c :: "string \<Rightarrow> (string \<times> string) option" where
  "scan_4c s = (if s = [] then None else Some (take 4 s, drop 4 s))"

section \<open>The line reader\<close>

definition mode_string_to_prot :: "string \<Rightarrow> u32" where
  "mode_string_to_prot mode =
     ((if mode ! 0 = CHR ''r'' then PROT_READ else 0)
      OR (if mode ! 1 = CHR ''w'' then PROT_WRITE else 0))
      OR (if mode ! 2 = CHR ''x'' then PROT_EXEC else 0)"

definition trim_left :: "string \<Rightarrow> string" where
  "trim_left s = dropWhile (\<lambda>c. c = CHR '' '' \<or> c = CHR 0x09) s"

definition strip_newline :: "string \<Rightarrow> string" where
  "strip_newline s = (if s \<noteq> [] \<and> last s = CHR 0x0A then butlast s else s)"

text \<open>
  \<^verbatim>\<open>sscanf(line, "%lx-%lx %4c %lx %x:%x %lu%n", ...)\<close>: \<^term>\<open>None\<close> unless all seven
  conversions succeed; otherwise start, end, mode, offset, inode and the unread rest. The two
  device numbers are read and dropped.
\<close>

definition scan_maps_line :: "string \<Rightarrow> (u64 \<times> u64 \<times> string \<times> u64 \<times> u64 \<times> string) option" where
  "scan_maps_line line =
     Option.bind (scan_hex line) (\<lambda>(m_start, s).
     Option.bind (scan_lit (CHR ''-'') s) (\<lambda>s.
     Option.bind (scan_hex s) (\<lambda>(m_end, s).
     Option.bind (scan_4c (scan_space s)) (\<lambda>(m_mode, s).
     Option.bind (scan_hex (scan_space s)) (\<lambda>(m_off, s).
     Option.bind (scan_hex (scan_space s)) (\<lambda>(m_dev_major, s).
     Option.bind (scan_lit (CHR '':'') s) (\<lambda>s.
     Option.bind (scan_hex s) (\<lambda>(m_dev_minor, s).
     Option.bind (scan_dec (scan_space s)) (\<lambda>(m_inode, s).
       Some (m_start, m_end, m_mode, m_off, m_inode, s))))))))))"

definition dso_from_proc_line :: "pid_t \<Rightarrow> string \<Rightarrow> dso" where
  "dso_from_proc_line pid line = (case scan_maps_line line of
      None \<Rightarrow> invalid_dso
    | Some (m_start, m_end, m_mode, m_off, m_inode, rest) \<Rightarrow>
        mk_dso pid m_start (m_end - 1) m_off (strip_newline (trim_left rest)) m_inode
          (mode_string_to_prot m_mode) kProcMaps)"

section \<open>Printing, and the round trip\<close>

definition hex_char :: "nat \<Rightarrow> char" where
  "hex_char n = (if n < 10 then char_of (48 + n) else char_of (87 + n))"

fun print_digits :: "nat \<Rightarrow> nat \<Rightarrow> string" where
  "print_digits base n =
     (if n < base \<or> base < 2 then [hex_char n]
      else print_digits base (n div base) @ [hex_char (n mod base)])"

declare print_digits.simps [simp del]

text \<open>The kernel's line for a mapping of \<open>[start, end)\<close>, with one space before the path.\<close>

definition maps_line :: "u64 \<Rightarrow> u64 \<Rightarrow> string \<Rightarrow> u64 \<Rightarrow> nat \<Rightarrow> nat \<Rightarrow> u64 \<Rightarrow> string \<Rightarrow> string" where
  "maps_line start stop mode off major minor inode path =
     print_digits 16 (unat start) @ ''-'' @ print_digits 16 (unat stop) @ '' '' @ mode @ '' ''
     @ print_digits 16 (unat off) @ '' '' @ print_digits 16 major @ '':'' @ print_digits 16 minor
     @ '' '' @ print_digits 10 (unat inode) @ '' '' @ path @ [CHR 0x0A]"

lemma hex_value_char: "n < 16 \<Longrightarrow> hex_value (hex_char n) = Some n"
  by (auto simp: hex_value_def hex_char_def)

lemma dec_value_char: "n < 10 \<Longrightarrow> dec_value (hex_char n) = Some n"
  by (auto simp: dec_value_def isdigit_def hex_char_def)

lemma digits_value_append:
  assumes "\<forall>c\<in>set s. dv c \<noteq> None"
  shows "digits_value b dv acc (s @ t) = digits_value b dv (fst (digits_value b dv acc s)) t"
  using assms by (induction s arbitrary: acc) auto

lemma digits_value_print:
  assumes dv: "\<And>n. n < b \<Longrightarrow> dv (hex_char n) = Some n" and b: "2 \<le> b"
    and t: "t = [] \<or> dv (hd t) = None"
  shows "digits_value b dv 0 (print_digits b n @ t) = (n, t)"
    and "\<forall>c\<in>set (print_digits b n). dv c \<noteq> None"
proof -
  have "(\<forall>c\<in>set (print_digits b n). dv c \<noteq> None)
      \<and> fst (digits_value b dv 0 (print_digits b n)) = n"
  proof (induction n rule: less_induct)
    case (less n)
    show ?case
    proof (cases "n < b")
      case True
      then show ?thesis using dv by (simp add: print_digits.simps)
    next
      case False
      then have "n div b < n" using b by (simp add: div_less_dividend)
      from less.IH[OF this] show ?thesis
        using False b dv[of "n mod b"] digits_value_append[of "print_digits b (n div b)" dv b 0]
        by (simp add: print_digits.simps[of b n])
    qed
  qed
  then show "\<forall>c\<in>set (print_digits b n). dv c \<noteq> None"
    and "digits_value b dv 0 (print_digits b n @ t) = (n, t)"
    using digits_value_append[of "print_digits b n" dv b 0 t] t by (cases t; simp)+
qed

lemma print_digits_Nil [simp]: "print_digits b n \<noteq> []"
  by (subst print_digits.simps) simp

lemma hex_value_not_special:
  "hex_value c = Some n \<Longrightarrow> \<not> isspace c \<and> c \<noteq> CHR ''-'' \<and> c \<noteq> CHR ''+'' \<and> c \<noteq> CHR ''x'' \<and> c \<noteq> CHR ''X''"
  by (auto simp: hex_value_def isspace_def Let_def split: if_splits)

lemma dec_value_not_special:
  "dec_value c = Some n \<Longrightarrow> \<not> isspace c \<and> c \<noteq> CHR ''-'' \<and> c \<noteq> CHR ''+''"
  by (auto simp: dec_value_def isspace_def isdigit_def split: if_splits)

lemma scan_digits_print:
  assumes "\<And>n. n < b \<Longrightarrow> dv (hex_char n) = Some n" and "2 \<le> b" and "dv c = None"
  shows "scan_digits b dv (print_digits b n @ c # t) = Some (n, c # t)"
    and "dv (hd (print_digits b n)) \<noteq> None"
proof -
  obtain x xs where x: "print_digits b n = x # xs" by (cases "print_digits b n") auto
  then show "dv (hd (print_digits b n)) \<noteq> None"
    using digits_value_print(2)[of b dv "[]" n] assms by auto
  with x show "scan_digits b dv (print_digits b n @ c # t) = Some (n, c # t)"
    using digits_value_print(1)[of b dv "c # t" n] assms by (auto simp: scan_digits_def)
qed

lemma scan_sign_id: "c \<noteq> CHR ''-'' \<Longrightarrow> c \<noteq> CHR ''+'' \<Longrightarrow> scan_sign (c # s) = (False, c # s)"
  by (simp add: scan_sign_def)

lemma scan_hex_print:
  assumes "hex_value c = None" and "c \<noteq> CHR ''x''" and "c \<noteq> CHR ''X''"
  shows "scan_hex (print_digits 16 n @ c # t) = Some (strtoul_value False n, c # t)"
proof -
  obtain x xs where x: "print_digits 16 n = x # xs" by (cases "print_digits 16 n") auto
  have d: "scan_digits 16 hex_value (print_digits 16 n @ c # t) = Some (n, c # t)"
    using hex_value_char assms(1) by (intro scan_digits_print(1)) auto
  have "\<forall>c\<in>set (print_digits 16 n). hex_value c \<noteq> None"
    using digits_value_print(2)[of 16 hex_value "[]" n] hex_value_char by simp
  then have all: "\<forall>c\<in>set (x # xs). \<not> isspace c \<and> c \<noteq> CHR ''-'' \<and> c \<noteq> CHR ''+'' \<and> c \<noteq> CHR ''x'' \<and> c \<noteq> CHR ''X''"
    using hex_value_not_special unfolding x by blast
  then have "scan_0x (x # xs @ c # t) = x # xs @ c # t"
    using assms(2,3) by (cases xs) (auto simp: scan_0x_def)
  then show ?thesis
    using all d by (simp add: x scan_hex_def scan_sign_id)
qed

lemma scan_dec_print:
  assumes "dec_value c = None"
  shows "scan_dec (print_digits 10 n @ c # t) = Some (strtoul_value False n, c # t)"
proof -
  obtain x xs where x: "print_digits 10 n = x # xs" by (cases "print_digits 10 n") auto
  have d: "scan_digits 10 dec_value (print_digits 10 n @ c # t) = Some (n, c # t)"
    "dec_value (hd (print_digits 10 n)) \<noteq> None"
    using dec_value_char assms by (intro scan_digits_print; simp)+
  have "\<not> isspace x \<and> x \<noteq> CHR ''-'' \<and> x \<noteq> CHR ''+''"
    using d(2) dec_value_not_special[of x] by (auto simp: x)
  then show ?thesis using d(1) by (simp add: x scan_dec_def scan_sign_id)
qed

lemma strtoul_value_unat [simp]: "strtoul_value False (unat w) = w"
proof -
  have "unat w < 2 ^ 64" using unsigned_less[of w] by simp
  then show ?thesis by (simp add: strtoul_value_def)
qed

lemma scan_space_print: "base = 16 \<and> dv = hex_value \<or> base = 10 \<and> dv = dec_value \<Longrightarrow>
   scan_space (CHR '' '' # print_digits base n @ t) = print_digits base n @ t"
proof -
  assume b: "base = 16 \<and> dv = hex_value \<or> base = 10 \<and> dv = dec_value"
  obtain x xs where x: "print_digits base n = x # xs" by (cases "print_digits base n") auto
  have "dv (hd (print_digits base n)) \<noteq> None"
    using b scan_digits_print(2)[of base dv "CHR '' ''" n] hex_value_char dec_value_char
    by (auto simp: hex_value_def dec_value_def isdigit_def)
  then have "\<not> isspace x"
    using b hex_value_not_special[of x] dec_value_not_special[of x] by (auto simp: x)
  moreover have "isspace (CHR '' '')" by (simp add: isspace_def)
  ultimately show ?thesis by (simp add: x scan_space_def)
qed

lemmas scan_print = scan_hex_print scan_dec_print
  scan_space_print[of 16 hex_value, simplified] scan_space_print[of 10 dec_value, simplified]

lemma scan_maps_line_print:
  assumes "length mode = 4" and "\<not> isspace (hd mode)"
  shows "scan_maps_line (maps_line start stop mode off major minor inode path) =
    Some (start, stop, mode, off, inode, CHR '' '' # path @ [CHR 0x0A])"
proof -
  have sep: "hex_value (CHR ''-'') = None" "hex_value (CHR '' '') = None" "hex_value (CHR '':'') = None"
    "dec_value (CHR '' '') = None"
    by (simp_all add: hex_value_def dec_value_def isdigit_def)
  have "mode \<noteq> []" using assms(1) by auto
  then have "scan_space (CHR '' '' # mode @ t) = mode @ t" for t
    using assms(2) by (cases mode) (auto simp: scan_space_def isspace_def)
  then show ?thesis
    using assms(1) \<open>mode \<noteq> []\<close>
    by (simp add: scan_maps_line_def maps_line_def scan_print sep scan_lit_def scan_4c_def)
qed



end
