(* ===== verification/Dso_Hdr.thy ===== *)
theory Dso_Hdr
  imports Dso_Map Proc_Maps
begin

text \<open>
  The table of the mappings of all profiled processes (\<^verbatim>\<open>DsoHdr\<close> in
  \<^verbatim>\<open>src/include/dso_hdr.hpp\<close> and \<^verbatim>\<open>src/src/dso_hdr.cc\<close>): insertion, search with
  backpopulation from \<^verbatim>\<open>/proc\<close>, fork and exit of processes, and the table of file
  identifiers. A reference to an element of a container (\<^verbatim>\<open>PidMapping &\<close>) is the element,
  returned updated and stored back by the caller. What the operating system gives is an
  argument: the clock, the lines of the maps file, the result of \<^verbatim>\<open>stat\<close>.
\<close>

section \<open>State\<close>

datatype DsoEventType = kTargetDso | kNewDso

record DsoStats =
  ds_metrics :: "DsoEventType \<Rightarrow> DsoType \<Rightarrow> u64"
  ds_backpopulate_count :: u64

datatype BackpopulatePermission = kForbidden | kAllowed

record BackpopulateState =
  nb_unfound_dsos :: int
  last_backpopulate_time :: int
  bp_perm :: BackpopulatePermission

definition init_BackpopulateState :: BackpopulateState where
  "init_BackpopulateState = \<lparr>nb_unfound_dsos = 0, last_backpopulate_time = 0, bp_perm = kAllowed\<rparr>"

record PidMapping =
  pm_map :: dso_map
  pm_backpopulate_state :: BackpopulateState
  pm_jitdump_addr :: u64

definition init_PidMapping :: PidMapping where
  "init_PidMapping =
     \<lparr>pm_map = [], pm_backpopulate_state = init_BackpopulateState, pm_jitdump_addr = 0\<rparr>"

record FileInfo =
  fi_path :: string
  fi_size :: int
  fi_inode :: u64

definition empty_FileInfo :: FileInfo where
  "empty_FileInfo = \<lparr>fi_path = [], fi_size = 0, fi_inode = 0\<rparr>"

record FileInfoValue =
  fv_info :: FileInfo
  fv_errored :: bool
  fv_id :: FileInfoId_t

definition mk_FileInfoValue :: "FileInfo \<Rightarrow> FileInfoId_t \<Rightarrow> FileInfoValue" where
  "mk_FileInfoValue info i = \<lparr>fv_info = info, fv_errored = False, fv_id = i\<rparr>"

record DsoHdr =
  dh_pid_map :: "(pid_t, PidMapping) umap"
  dh_stats :: DsoStats
  dh_file_info_inode_map :: "(u64 \<times> int, FileInfoId_t) umap"
  dh_file_info_vector :: "FileInfoValue list"
  dh_path_to_proc :: string
  dh_dd_profiling_fd :: int
  dh_dd_profiling_file_info :: FileInfoId_t

section \<open>Statistics\<close>

definition init_DsoStats :: DsoStats where
  "init_DsoStats = \<lparr>ds_metrics = (\<lambda>_ _. 0), ds_backpopulate_count = 0\<rparr>"

definition incr_metric :: "DsoEventType \<Rightarrow> DsoType \<Rightarrow> DsoStats \<Rightarrow> DsoStats" where
  "incr_metric ev t st = st\<lparr>ds_metrics := (ds_metrics st)(ev := (ds_metrics st ev)(t := ds_metrics st ev t + 1))\<rparr>"

definition incr_backpopulate_count :: "DsoStats \<Rightarrow> DsoStats" where
  "incr_backpopulate_count st = st\<lparr>ds_backpopulate_count := ds_backpopulate_count st + 1\<rparr>"

definition all_dso_types :: "DsoType list" where
  "all_dso_types = [kStandard, kVdso, kVsysCall, kStack, kHeap, kUndef, kAnon, kRuntime, kSocket,
     kDDProfiling, kJITDump]"

definition sum_event_metric :: "DsoEventType \<Rightarrow> DsoStats \<Rightarrow> u64" where
  "sum_event_metric ev st = sum_list (map (ds_metrics st ev) all_dso_types)"

definition dso_stats_reset :: "DsoStats \<Rightarrow> DsoStats" where
  "dso_stats_reset st = st\<lparr>ds_metrics := (\<lambda>_ _. 0), ds_backpopulate_count := 0\<rparr>"

section \<open>Operations\<close>

text \<open>
  The constructor; \<open>host_proc\<close> says whether \<^verbatim>\<open>/host/proc/self\<close> resolves to the pid of the
  profiler.
\<close>

definition mk_DsoHdr :: "string \<Rightarrow> int \<Rightarrow> bool \<Rightarrow> DsoHdr" where
  "mk_DsoHdr path_to_proc dd_profiling_fd host_proc =
     \<lparr>dh_pid_map = [], dh_stats = init_DsoStats, dh_file_info_inode_map = [],
      dh_file_info_vector = [mk_FileInfoValue empty_FileInfo 0],
      dh_path_to_proc = (if path_to_proc = [] then (if host_proc then ''/host'' else [])
                         else path_to_proc),
      dh_dd_profiling_fd = dd_profiling_fd, dh_dd_profiling_file_info = k_file_info_undef\<rparr>"

definition get_pid_mapping :: "DsoHdr \<Rightarrow> pid_t \<Rightarrow> PidMapping" where
  "get_pid_mapping h pid = umap_at init_PidMapping (dh_pid_map h) pid"

definition set_pid_mapping :: "DsoHdr \<Rightarrow> pid_t \<Rightarrow> PidMapping \<Rightarrow> DsoHdr" where
  "set_pid_mapping h pid pm = h\<lparr>dh_pid_map := AList.update pid pm (dh_pid_map h)\<rparr>"

definition insert_erase_overlap_pm ::
    "DsoStats \<Rightarrow> PidMapping \<Rightarrow> dso \<Rightarrow> dso_error + DsoStats \<times> PidMapping \<times> DsoFindRes" where
  "insert_erase_overlap_pm st pm d = (
     let (m, find_res) = dso_find_adjust_same (pm_map pm) d in
     if snd find_res then Inr (st, pm\<lparr>pm_map := m\<rparr>, find_res)
     else
       let range' = get_intersection m d in
       case (if fst range' \<noteq> snd range' then erase_range m range' d else Inr m) of
         Inl e \<Rightarrow> Inl e
       | Inr m \<Rightarrow>
           let pm = (if dso_type d = kJITDump then pm\<lparr>pm_jitdump_addr := dso_start d\<rparr> else pm);
               st = incr_metric kNewDso (dso_type d) st;
               (m, inserted) = smap_insert (dso_start d) d m
           in Inr (st, pm\<lparr>pm_map := m\<rparr>, (Some (dso_start d), inserted)))"

definition insert_erase_overlap :: "DsoHdr \<Rightarrow> dso \<Rightarrow> dso_error + DsoHdr \<times> DsoFindRes" where
  "insert_erase_overlap h d =
     (case insert_erase_overlap_pm (dh_stats h) (get_pid_mapping h (dso_pid d)) d of
        Inl e \<Rightarrow> Inl e
      | Inr (st, pm, r) \<Rightarrow> Inr ((set_pid_mapping h (dso_pid d) pm)\<lparr>dh_stats := st\<rparr>, r))"

definition maybe_insert_erase_overlap :: "DsoHdr \<Rightarrow> dso \<Rightarrow> int \<Rightarrow> dso_error + DsoHdr \<times> bool" where
  "maybe_insert_erase_overlap h d timestamp = (
     let pm = get_pid_mapping h (dso_pid d);
         h = set_pid_mapping h (dso_pid d) pm in
     if timestamp < last_backpopulate_time (pm_backpopulate_state pm) then Inr (h, False)
     else case insert_erase_overlap_pm (dh_stats h) pm d of
         Inl e \<Rightarrow> Inl e
       | Inr (st, pm, _) \<Rightarrow> Inr ((set_pid_mapping h (dso_pid d) pm)\<lparr>dh_stats := st\<rparr>, True))"

text \<open>The loop of \<^verbatim>\<open>pid_backpopulate\<close> over the lines of the maps file.\<close>

fun backpopulate_lines ::
    "pid_t \<Rightarrow> string list \<Rightarrow> DsoStats \<Rightarrow> PidMapping \<Rightarrow> int \<Rightarrow> dso_error + DsoStats \<times> PidMapping \<times> int" where
  "backpopulate_lines pid [] st pm nb = Inr (st, pm, nb)"
| "backpopulate_lines pid (line # lines) st pm nb = (
     let d = dso_from_proc_line pid line in
     if dso_pid d = -1 then backpopulate_lines pid lines st pm nb
     else case insert_erase_overlap_pm st pm d of
         Inl e \<Rightarrow> Inl e
       | Inr (st, pm, res) \<Rightarrow> backpopulate_lines pid lines st pm (if snd res then nb + 1 else nb))"

text \<open>
  \<open>now\<close> is the reading of the perf clock; \<open>proc_maps\<close> is \<^term>\<open>None\<close> when the file cannot be
  opened. The result has the number of elements added.
\<close>

definition pid_backpopulate ::
    "int \<Rightarrow> string list option \<Rightarrow> DsoStats \<Rightarrow> PidMapping \<Rightarrow> pid_t \<Rightarrow> int
     \<Rightarrow> dso_error + DsoStats \<times> PidMapping \<times> int \<times> bool" where
  "pid_backpopulate now proc_maps st pm pid nb_elts_added = (
     let bp = pm_backpopulate_state pm;
         bp = bp\<lparr>nb_unfound_dsos := nb_unfound_dsos bp + 1\<rparr> in
     if bp_perm bp \<noteq> kAllowed then Inr (st, pm\<lparr>pm_backpopulate_state := bp\<rparr>, nb_elts_added, False)
     else
       let st = incr_backpopulate_count st;
           bp = bp\<lparr>last_backpopulate_time := now\<rparr>;
           pm = pm\<lparr>pm_backpopulate_state := bp\<rparr> in
       case proc_maps of
         None \<Rightarrow> Inr (st, pm, 0, False)
       | Some lines \<Rightarrow> (case backpopulate_lines pid lines st pm 0 of
           Inl e \<Rightarrow> Inl e
         | Inr (st, pm, nb) \<Rightarrow>
             let pm = (if nb = 0 then pm\<lparr>pm_backpopulate_state := (pm_backpopulate_state pm)\<lparr>bp_perm := kForbidden\<rparr>\<rparr>
                       else pm)
             in Inr (st, pm, nb, True)))"

definition dso_find_or_backpopulate ::
    "int \<Rightarrow> string list option \<Rightarrow> DsoHdr \<Rightarrow> pid_t \<Rightarrow> u64 \<Rightarrow> dso_error + DsoHdr \<times> DsoFindRes" where
  "dso_find_or_backpopulate now proc_maps h pid addr = (
     let pm = get_pid_mapping h pid;
         h = set_pid_mapping h pid pm in
     if addr < 4096 then Inr (h, find_res_not_found (pm_map pm))
     else
       let find_res = dso_find_closest (pm_map pm) addr in
       if snd find_res then Inr (h, find_res)
       else case pid_backpopulate now proc_maps (dh_stats h) pm pid 0 of
           Inl e \<Rightarrow> Inl e
         | Inr (st, pm, nb_elts_added, ok) \<Rightarrow>
             Inr ((set_pid_mapping h pid pm)\<lparr>dh_stats := st\<rparr>,
                  if ok \<and> nb_elts_added \<noteq> 0 then dso_find_closest (pm_map pm) addr else find_res))"

definition pid_free :: "DsoHdr \<Rightarrow> pid_t \<Rightarrow> DsoHdr" where
  "pid_free h pid = h\<lparr>dh_pid_map := AList.delete pid (dh_pid_map h)\<rparr>"

definition get_nb_dso :: "DsoHdr \<Rightarrow> nat" where
  "get_nb_dso h = sum_list (map (\<lambda>el. length (pm_map (snd el))) (dh_pid_map h))"

definition reset_backpopulate_state :: "int \<Rightarrow> DsoHdr \<Rightarrow> DsoHdr" where
  "reset_backpopulate_state reset_threshold h = h\<lparr>dh_pid_map :=
     map (\<lambda>(pid, pm). (pid, if reset_threshold \<le> nb_unfound_dsos (pm_backpopulate_state pm)
                           then pm\<lparr>pm_backpopulate_state := init_BackpopulateState\<rparr> else pm)) (dh_pid_map h)\<rparr>"

definition pid_fork :: "DsoHdr \<Rightarrow> pid_t \<Rightarrow> pid_t \<Rightarrow> DsoHdr" where
  "pid_fork h child_pid parent_pid = (case map_of (dh_pid_map h) parent_pid of
      None \<Rightarrow> h
    | Some parent \<Rightarrow>
       (if map_of (dh_pid_map h) child_pid \<noteq> None then h
        else set_pid_mapping h child_pid (init_PidMapping\<lparr>pm_map :=
               foldl (\<lambda>m p. smap_assign (fst p) (dso_with_pid (snd p) child_pid) m) [] (pm_map parent)\<rparr>)))"

fun check_invariants_map :: "pid_t \<Rightarrow> dso option \<Rightarrow> dso_map \<Rightarrow> bool" where
  "check_invariants_map pid previous [] = True"
| "check_invariants_map pid previous ((start, d) # m) = (
     if dso_pid d \<noteq> pid then False
     else if start \<noteq> dso_start d then False
     else if (case previous of None \<Rightarrow> False | Some p \<Rightarrow> dso_start d \<le> dso_end p) then False
     else check_invariants_map pid (Some d) m)"

definition check_invariants :: "DsoHdr \<Rightarrow> bool" where
  "check_invariants h \<longleftrightarrow>
     list_all (\<lambda>el. check_invariants_map (fst el) None (pm_map (snd el))) (dh_pid_map h)"

definition clear_unvisited :: "pid_t set \<Rightarrow> DsoHdr \<Rightarrow> DsoHdr \<times> nat" where
  "clear_unvisited visited_pids h = (
     let pids_to_clear = filter (\<lambda>pid. pid \<notin> visited_pids) (map fst (dh_pid_map h))
     in (h\<lparr>dh_pid_map := foldl (\<lambda>m pid. AList.delete pid m) (dh_pid_map h) pids_to_clear\<rparr>,
         length pids_to_clear))"

section \<open>File identifiers\<close>

text \<open>
  \<open>stat\<close> is the system call: the inode and the size of a path, \<^term>\<open>None\<close> when it fails. The
  field \<open>_id\<close> of a mapping is mutable, so the functions that set it give the mapping back.
\<close>

type_synonym file_stat = "string \<Rightarrow> (u64 \<times> int) option"

definition get_file_inode :: "file_stat \<Rightarrow> string \<Rightarrow> bool \<times> u64 \<times> int" where
  "get_file_inode stat path = (case stat path of
      None \<Rightarrow> (False, 0, 0)
    | Some (inode, sz) \<Rightarrow> (True, inode, sz))"

definition int_to_string :: "int \<Rightarrow> string" where
  "int_to_string i = (if i < 0 then CHR ''-'' # print_digits 10 (nat (- i)) else print_digits 10 (nat i))"

definition find_file_info :: "file_stat \<Rightarrow> DsoHdr \<Rightarrow> dso \<Rightarrow> FileInfo" where
  "find_file_info stat h d = (
     let (ok, inode, sz) = get_file_inode stat (dso_filename d) in
     if ok \<and> inode = dso_inode d then \<lparr>fi_path = dso_filename d, fi_size = sz, fi_inode = inode\<rparr>
     else
       let proc_path = dh_path_to_proc h @ ''/proc/'' @ int_to_string (dso_pid d) @ ''/root'' @ dso_filename d;
           (ok, inode, sz) = get_file_inode stat proc_path in
       if ok then \<lparr>fi_path = proc_path, fi_size = sz, fi_inode = inode\<rparr>
       else empty_FileInfo)"

definition update_id_from_path :: "file_stat \<Rightarrow> DsoHdr \<Rightarrow> dso \<Rightarrow> DsoHdr \<times> dso \<times> FileInfoId_t" where
  "update_id_from_path stat h d = (
     let file_info = find_file_info stat h d in
     if fi_inode file_info = 0 then (h, d\<lparr>dso_id := k_file_info_error\<rparr>, k_file_info_error)
     else
       let key = (fi_inode file_info, fi_size file_info) in
       case map_of (dh_file_info_inode_map h) key of
         None \<Rightarrow>
           let i = int (length (dh_file_info_vector h)) in
           (h\<lparr>dh_file_info_inode_map := AList.update key i (dh_file_info_inode_map h),
              dh_file_info_vector := dh_file_info_vector h @ [mk_FileInfoValue file_info i]\<rparr>,
            d\<lparr>dso_id := i\<rparr>, i)
       | Some i \<Rightarrow>
           ((if fi_path file_info \<noteq> fi_path (fv_info (dh_file_info_vector h ! nat i))
             then h\<lparr>dh_file_info_vector := (dh_file_info_vector h)[nat i := mk_FileInfoValue file_info i]\<rparr>
             else h),
            d\<lparr>dso_id := i\<rparr>, i))"

definition update_id_dd_profiling :: "file_stat \<Rightarrow> DsoHdr \<Rightarrow> dso \<Rightarrow> DsoHdr \<times> dso \<times> FileInfoId_t" where
  "update_id_dd_profiling stat h d = (
     if dh_dd_profiling_file_info h \<noteq> k_file_info_undef
     then (h, d\<lparr>dso_id := dh_dd_profiling_file_info h\<rparr>, dh_dd_profiling_file_info h)
     else if dh_dd_profiling_fd h \<noteq> -1 then
       let i = int (length (dh_file_info_vector h)) in
       (h\<lparr>dh_dd_profiling_file_info := i,
          dh_file_info_vector := dh_file_info_vector h
            @ [mk_FileInfoValue \<lparr>fi_path = dso_filename d, fi_size = 0, fi_inode = 0\<rparr> i]\<rparr>,
        d\<lparr>dso_id := i\<rparr>, i)
     else
       let (h, d, i) = update_id_from_path stat h d
       in (h\<lparr>dh_dd_profiling_file_info := i\<rparr>, d, i))"

definition update_id_from_dso :: "file_stat \<Rightarrow> DsoHdr \<Rightarrow> dso \<Rightarrow> DsoHdr \<times> dso \<times> FileInfoId_t" where
  "update_id_from_dso stat h d = (
     if \<not> has_relevant_path (dso_type d) then (h, d\<lparr>dso_id := k_file_info_error\<rparr>, k_file_info_error)
     else if dso_type d = kDDProfiling then update_id_dd_profiling stat h d
     else update_id_from_path stat h d)"

definition get_or_insert_file_info :: "file_stat \<Rightarrow> DsoHdr \<Rightarrow> dso \<Rightarrow> DsoHdr \<times> dso \<times> FileInfoId_t" where
  "get_or_insert_file_info stat h d = (
     if dso_id d \<noteq> k_file_info_undef then (h, d, dso_id d)
     else update_id_from_dso stat (h\<lparr>dh_stats := incr_metric kTargetDso (dso_type d) (dh_stats h)\<rparr>) d)"

section \<open>Insertion into one process\<close>

text \<open>A mapping the insertion handles: not empty, and its end is not the last address.\<close>

definition dso_valid :: "dso \<Rightarrow> bool" where
  "dso_valid d \<longleftrightarrow> dso_nonempty d \<and> dso_end d < - 1"

text \<open>The existing mapping that the new one repeats, up to a smaller size.\<close>

definition same_mapping :: "dso_map \<Rightarrow> dso \<Rightarrow> dso option" where
  "same_mapping m d = (case map_of m (dso_start d) of
      None \<Rightarrow> None
    | Some old \<Rightarrow> if is_same_or_smaller old d then Some old else None)"

lemma same_mappingD:
  assumes "dso_map_wf m" and "same_mapping m d = Some old"
  shows "old \<in> dsos m" and "dso_start old = dso_start d" and "dso_end d \<le> dso_end old"
    and "map_of m (dso_start d) = Some old" and "is_same_or_smaller old d"
proof -
  show m: "map_of m (dso_start d) = Some old" and ss: "is_same_or_smaller old d"
    using assms(2) by (auto simp: same_mapping_def split: option.splits if_splits)
  then show "old \<in> dsos m" "dso_start old = dso_start d" "dso_end d \<le> dso_end old"
    by (auto simp: dsos_def is_same_or_smaller_def split: if_splits dest!: map_of_SomeD intro: rev_image_eqI)
qed

lemma insert_pm_same:
  assumes wf: "dso_map_wf (pm_map pm)" and d: "dso_nonempty d" and same: "same_mapping (pm_map pm) d = Some old"
  defines "old' \<equiv> old\<lparr>dso_end := dso_end d, dso_origin := dso_origin d\<rparr>"
    and "m' \<equiv> smap_assign (dso_start d) (old\<lparr>dso_end := dso_end d, dso_origin := dso_origin d\<rparr>) (pm_map pm)"
  shows "insert_erase_overlap_pm st pm d = Inr (st, pm\<lparr>pm_map := m'\<rparr>, Some (dso_start d), True)"
    and "dso_map_wf m'" and "dsos m' = insert old' (dsos (pm_map pm) - {old})"
proof -
  note old = same_mappingD[OF wf same]
  show "insert_erase_overlap_pm st pm d = Inr (st, pm\<lparr>pm_map := m'\<rparr>, Some (dso_start d), True)"
    using old(4,5) by (simp add: insert_erase_overlap_pm_def dso_find_adjust_same_def adjust_same_def m'_def)
  have "dso_start old' = dso_start old" "dso_nonempty old'" "dso_range old' \<subseteq> dso_range old"
    using old(2,3) d by (auto simp: old'_def dso_nonempty_def dso_range_def)
  from shrink_mapping[OF wf old(1) this] old(2)
  show "dso_map_wf m'" and "dsos m' = insert old' (dsos (pm_map pm) - {old})"
    by (simp_all add: m'_def old'_def)
qed

lemma insert_pm_new:
  assumes wf: "dso_map_wf (pm_map pm)" and d: "dso_valid d" and new: "same_mapping (pm_map pm) d = None"
  obtains m' where "insert_erase_overlap_pm st pm d =
      Inr (incr_metric kNewDso (dso_type d) st,
           (if dso_type d = kJITDump then pm\<lparr>pm_jitdump_addr := dso_start d\<rparr> else pm)\<lparr>pm_map := m'\<rparr>,
           Some (dso_start d), True)"
    and "dso_map_wf m'" and "dsos m' = insert d (\<Union>e\<in>dsos (pm_map pm). set (carve d e))"
proof -
  let ?m = "pm_map pm"
  have ne: "dso_nonempty d" and max: "dso_end d < - 1" using d by (auto simp: dso_valid_def)
  note sm = dso_map_wfD(1)[OF wf]
  have adj: "dso_find_adjust_same ?m d = (?m, fst (snd (dso_find_adjust_same ?m d)), False)"
    using new smap_assign_same[OF sm]
    by (auto simp: dso_find_adjust_same_def same_mapping_def adjust_same_def split: option.splits if_splits)
  obtain f l where gi: "get_intersection ?m d = (f, l)" by (cases "get_intersection ?m d")
  obtain m1 where m1: "erase_range ?m (f, l) d = Inr m1" "smap_wf m1" "set m1 = carved d ?m"
    by (rule erase_range_carved[OF wf ne max gi])
  have er: "(if f \<noteq> l then erase_range ?m (f, l) d else Inr ?m) = Inr m1"
    using m1(1) by (auto simp: erase_range_def)
  have "map_of m1 (dso_start d) = None"
    using carved_fresh[OF wf ne max] m1(3) by (auto simp: map_of_eq_None_iff)
  then have ins: "smap_insert (dso_start d) d m1 = (smap_assign (dso_start d) d m1, True)"
    by (simp add: smap_insert_def)
  let ?m' = "smap_assign (dso_start d) d m1"
  have set: "set ?m' = insert (dso_start d, d) (carved d ?m)"
    using carved_fresh[OF wf ne max] by (auto simp: set_smap_assign[OF m1(2)] m1(3))
  show thesis
  proof (rule that)
    show "dso_map_wf ?m'" by (rule insert_carved_wf[OF wf ne max _ set]) (simp add: m1(2))
    show "dsos ?m' = insert d (\<Union>e\<in>dsos ?m. set (carve d e))"
      by (simp add: dsos_def set carved_def image_UN image_image)
    show "insert_erase_overlap_pm st pm d =
      Inr (incr_metric kNewDso (dso_type d) st,
           (if dso_type d = kJITDump then pm\<lparr>pm_jitdump_addr := dso_start d\<rparr> else pm)\<lparr>pm_map := ?m'\<rparr>,
           Some (dso_start d), True)"
      by (subst insert_erase_overlap_pm_def, subst adj) (simp add: gi er ins Let_def)
  qed
qed

text \<open>
  The contract of the insertion on the set of mappings: a repeated mapping is shortened,
  otherwise the new mapping is added and the old ones are carved.
\<close>

definition mapped_after :: "dso_map \<Rightarrow> dso \<Rightarrow> dso set" where
  "mapped_after m d = (case same_mapping m d of
      Some old \<Rightarrow> insert (old\<lparr>dso_end := dso_end d, dso_origin := dso_origin d\<rparr>) (dsos m - {old})
    | None \<Rightarrow> insert d (\<Union>e\<in>dsos m. set (carve d e)))"

lemma insert_pm_cases:
  assumes "dso_map_wf (pm_map pm)" and "dso_valid d"
  obtains st' pm' where
    "insert_erase_overlap_pm st pm d = Inr (st', pm', Some (dso_start d), True)"
    and "dso_map_wf (pm_map pm')" and "dsos (pm_map pm') = mapped_after (pm_map pm) d"
    and "pm_backpopulate_state pm' = pm_backpopulate_state pm"
proof (cases "same_mapping (pm_map pm) d")
  case None
  with assms show thesis
    by (elim insert_pm_new[of pm d st]) (auto simp: mapped_after_def intro: that)
next
  case (Some old)
  have "dso_nonempty d" using assms(2) by (simp add: dso_valid_def)
  from insert_pm_same[OF assms(1) this Some] show thesis
    using that[of st "pm\<lparr>pm_map := _\<rparr>"] by (simp add: mapped_after_def Some)
qed

lemma mapped_after_pid:
  assumes "dso_map_wf m" and "\<forall>e\<in>dsos m. dso_pid e = pid" and "dso_pid d = pid" and "e \<in> mapped_after m d"
  shows "dso_pid e = pid"
  using assms same_mappingD(1)[OF assms(1)] carve_same_file
  by (auto simp: mapped_after_def split: option.splits)

section \<open>Invariant of the table\<close>

definition pm_wf :: "pid_t \<Rightarrow> PidMapping \<Rightarrow> bool" where
  "pm_wf pid pm \<longleftrightarrow> dso_map_wf (pm_map pm) \<and> (\<forall>d\<in>dsos (pm_map pm). dso_pid d = pid)"

definition hdr_wf :: "DsoHdr \<Rightarrow> bool" where
  "hdr_wf h \<longleftrightarrow> umap_wf (dh_pid_map h) \<and> (\<forall>el\<in>set (dh_pid_map h). pm_wf (fst el) (snd el))"

lemma pm_wf_init [simp, inv_intros]: "pm_wf pid init_PidMapping"
  by (simp add: pm_wf_def init_PidMapping_def dsos_def)

lemma hdr_wf_init [simp, inv_intros]: "hdr_wf (mk_DsoHdr path fd host)"
  by (simp add: hdr_wf_def mk_DsoHdr_def)

lemma pm_wf_get [simp, inv_intros]: "hdr_wf h \<Longrightarrow> pm_wf pid (get_pid_mapping h pid)"
  by (fastforce simp: hdr_wf_def get_pid_mapping_def umap_at_def split: option.splits dest: map_of_SomeD)

lemma hdr_wf_set [simp, inv_intros]: "hdr_wf h \<Longrightarrow> pm_wf pid pm \<Longrightarrow> hdr_wf (set_pid_mapping h pid pm)"
  by (auto simp: hdr_wf_def set_pid_mapping_def set_umap_update)

lemma hdr_wf_frame [simp]:
  "hdr_wf (h\<lparr>dh_stats := st\<rparr>) = hdr_wf h"
  "hdr_wf (h\<lparr>dh_file_info_inode_map := im\<rparr>) = hdr_wf h"
  "hdr_wf (h\<lparr>dh_file_info_vector := v\<rparr>) = hdr_wf h"
  "hdr_wf (h\<lparr>dh_dd_profiling_file_info := i\<rparr>) = hdr_wf h"
  by (simp_all add: hdr_wf_def)

lemma get_set_pid_mapping [simp]:
  "get_pid_mapping (set_pid_mapping h pid pm) pid' = (if pid' = pid then pm else get_pid_mapping h pid')"
  "get_pid_mapping (h\<lparr>dh_stats := st\<rparr>) pid' = get_pid_mapping h pid'"
  by (simp_all add: get_pid_mapping_def set_pid_mapping_def)

lemma insert_pm_wf:
  assumes "pm_wf pid pm" and "dso_valid d" and "dso_pid d = pid"
  obtains st' pm' where
    "insert_erase_overlap_pm st pm d = Inr (st', pm', Some (dso_start d), True)"
    and "pm_wf pid pm'" and "dsos (pm_map pm') = mapped_after (pm_map pm) d"
    and "pm_backpopulate_state pm' = pm_backpopulate_state pm"
proof -
  have wf: "dso_map_wf (pm_map pm)" and pid: "\<forall>e\<in>dsos (pm_map pm). dso_pid e = pid"
    using assms(1) by (auto simp: pm_wf_def)
  obtain st' pm' where r: "insert_erase_overlap_pm st pm d = Inr (st', pm', Some (dso_start d), True)"
    "dso_map_wf (pm_map pm')" "dsos (pm_map pm') = mapped_after (pm_map pm) d"
    "pm_backpopulate_state pm' = pm_backpopulate_state pm"
    by (rule insert_pm_cases[OF wf assms(2)])
  moreover have "pm_wf pid pm'"
    using r(2,3) mapped_after_pid[OF wf pid assms(3)] by (simp add: pm_wf_def)
  ultimately show thesis using that by blast
qed

lemma insert_hdr:
  assumes "hdr_wf h" and "dso_valid d"
  obtains h' where "insert_erase_overlap h d = Inr (h', Some (dso_start d), True)" and "hdr_wf h'"
    and "dsos (pm_map (get_pid_mapping h' (dso_pid d))) = mapped_after (pm_map (get_pid_mapping h (dso_pid d))) d"
    and "\<And>pid. pid \<noteq> dso_pid d \<Longrightarrow> get_pid_mapping h' pid = get_pid_mapping h pid"
proof -
  let ?pm = "get_pid_mapping h (dso_pid d)"
  obtain st' pm' where r: "insert_erase_overlap_pm (dh_stats h) ?pm d = Inr (st', pm', Some (dso_start d), True)"
    and wf: "pm_wf (dso_pid d) pm'" and d: "dsos (pm_map pm') = mapped_after (pm_map ?pm) d"
    using insert_pm_wf[OF pm_wf_get[OF assms(1)] assms(2) refl] .
  show thesis
    by (rule that[of "(set_pid_mapping h (dso_pid d) pm')\<lparr>dh_stats := st'\<rparr>"])
      (use r wf d assms(1) in \<open>simp_all add: insert_erase_overlap_def\<close>)
qed

text \<open>Lines of a maps file that describe mappings the insertion handles.\<close>

definition maps_ok :: "pid_t \<Rightarrow> string list \<Rightarrow> bool" where
  "maps_ok pid lines \<longleftrightarrow> pid \<noteq> -1 \<and>
     (\<forall>line\<in>set lines. dso_pid (dso_from_proc_line pid line) = -1 \<or> dso_valid (dso_from_proc_line pid line))"

lemma dso_from_proc_line_pid: "dso_pid (dso_from_proc_line pid line) \<in> {-1, pid}"
  by (auto simp: dso_from_proc_line_def invalid_dso_def mk_dso_def split: option.splits)

lemma backpopulate_lines_wf:
  assumes "pm_wf pid pm" and "maps_ok pid lines"
  obtains st' pm' nb' where "backpopulate_lines pid lines st pm nb = Inr (st', pm', nb')"
    and "pm_wf pid pm'" and "nb \<le> nb'" and "nb' \<le> nb + int (length lines)"
    and "pm_backpopulate_state pm' = pm_backpopulate_state pm"
  using assms
proof (induction pid lines st pm nb arbitrary: thesis rule: backpopulate_lines.induct)
  case (2 pid line lines st pm nb)
  let ?d = "dso_from_proc_line pid line"
  have ok: "maps_ok pid lines" using 2 by (simp add: maps_ok_def)
  show ?case
  proof (cases "dso_pid ?d = -1")
    case True
    show thesis
      by (rule 2(1)[OF refl True _ 2(4) ok]) (use True in \<open>auto intro: 2(3)\<close>)
  next
    case False
    then have d: "dso_valid ?d" "dso_pid ?d = pid"
      using 2(5) dso_from_proc_line_pid[of pid line] by (auto simp: maps_ok_def)
    obtain st1 pm1 where r: "insert_erase_overlap_pm st pm ?d = Inr (st1, pm1, Some (dso_start ?d), True)"
      and wf1: "pm_wf pid pm1" and bp: "pm_backpopulate_state pm1 = pm_backpopulate_state pm"
      by (rule insert_pm_wf[OF 2(4) d])
    show thesis
      by (rule 2(2)[OF refl False r refl refl _ wf1 ok]) (use False r bp in \<open>auto intro: 2(3)\<close>)
  qed
qed simp

lemma pid_backpopulate_wf:
  assumes "pm_wf pid pm" and "\<And>lines. proc_maps = Some lines \<Longrightarrow> maps_ok pid lines"
  obtains st' pm' nb' ok where "pid_backpopulate now proc_maps st pm pid nb = Inr (st', pm', nb', ok)"
    and "pm_wf pid pm'"
proof (cases "bp_perm (pm_backpopulate_state pm) = kAllowed")
  case False
  then show thesis using assms(1) that by (auto simp: pid_backpopulate_def pm_wf_def Let_def)
next
  case True
  let ?pm = "pm\<lparr>pm_backpopulate_state := (pm_backpopulate_state pm)
      \<lparr>nb_unfound_dsos := nb_unfound_dsos (pm_backpopulate_state pm) + 1, last_backpopulate_time := now\<rparr>\<rparr>"
  have wf: "pm_wf pid ?pm" using assms(1) by (simp add: pm_wf_def)
  show thesis
  proof (cases proc_maps)
    case None
    then show thesis using True wf that by (auto simp: pid_backpopulate_def Let_def)
  next
    case (Some lines)
    obtain st' pm' nb' where "backpopulate_lines pid lines (incr_backpopulate_count st) ?pm 0 = Inr (st', pm', nb')"
      and "pm_wf pid pm'"
      by (rule backpopulate_lines_wf[OF wf assms(2)[OF Some]])
    then show thesis using True Some that
      by (simp add: pid_backpopulate_def Let_def pm_wf_def split: if_splits)
  qed
qed

lemma foldl_delete: "foldl (\<lambda>m k. AList.delete k m) m ks = filter (\<lambda>p. fst p \<notin> set ks) m"
proof (induction ks arbitrary: m)
  case (Cons k ks)
  then show ?case by (auto simp: AList.delete_eq intro: filter_cong)
qed simp

lemma clear_unvisited_map:
  "dh_pid_map (fst (clear_unvisited visited h)) = filter (\<lambda>el. fst el \<in> visited) (dh_pid_map h)"
  by (auto simp: clear_unvisited_def Let_def foldl_delete intro!: filter_cong)

lemma pid_fork_map:
  assumes "dso_map_wf m"
  shows "foldl (\<lambda>m p. smap_assign (fst p) (dso_with_pid (snd p) c) m) [] m
    = map (\<lambda>p. (fst p, dso_with_pid (snd p) c)) m"
  using foldl_smap_assign[of "[]" m "\<lambda>d. dso_with_pid d c"] dso_map_wfD(1)[OF assms] by simp

lemma dso_map_wf_map:
  assumes wf: "dso_map_wf m" and f: "\<And>d. dso_start (f d) = dso_start d" "\<And>d. dso_end (f d) = dso_end d"
  shows "dso_map_wf (map (\<lambda>p. (fst p, f (snd p))) m)"
  using assms by (simp add: dso_map_wf_def dso_nonempty_def smap_wf_def comp_def)

lemma pm_wf_fork:
  assumes "dso_map_wf m"
  shows "pm_wf c (init_PidMapping\<lparr>pm_map := map (\<lambda>p. (fst p, dso_with_pid (snd p) c)) m\<rparr>)"
  using dso_map_wf_map[OF assms, of "\<lambda>d. dso_with_pid d c"]
  by (auto simp: pm_wf_def dsos_def dso_with_pid_def)

lemma dso_map_wf_ConsD:
  assumes "dso_map_wf ((k, d) # m)"
  shows "dso_map_wf m" and "k = dso_start d" and "\<forall>q\<in>set m. dso_end d < fst q"
  using assms by (force simp: dso_map_wf_def)+

lemma check_invariants_map_wf:
  assumes "dso_map_wf m" and "\<forall>d\<in>dsos m. dso_pid d = pid"
    and "case previous of None \<Rightarrow> True | Some p \<Rightarrow> \<forall>q\<in>set m. dso_end p < fst q"
  shows "check_invariants_map pid previous m"
  using assms
proof (induction pid previous m rule: check_invariants_map.induct)
  case (2 pid previous start d m)
  note wf = dso_map_wf_ConsD[OF 2(2)]
  have "\<forall>d\<in>dsos m. dso_pid d = pid" "dso_pid d = pid" using 2(3) by (auto simp: dsos_def)
  moreover have "\<not> (case previous of None \<Rightarrow> False | Some p \<Rightarrow> dso_start d \<le> dso_end p)"
    using 2(4) wf(2) by (auto split: option.splits)
  ultimately show ?case using 2(1) wf by simp
qed simp

lemma hdr_wf_check_invariants: "hdr_wf h \<Longrightarrow> check_invariants h"
  by (auto simp: hdr_wf_def check_invariants_def list_all_iff pm_wf_def intro!: check_invariants_map_wf)

section \<open>Runs of the table\<close>

text \<open>
  One rule per operation the worker calls. The mappings inserted are valid, and the maps
  files read describe valid mappings. \<open>file_info\<close> writes the identifier into the mapping it
  looks up.
\<close>

inductive dso_step :: "DsoHdr \<Rightarrow> DsoHdr \<Rightarrow> bool" where
  insert: "dso_valid d \<Longrightarrow> insert_erase_overlap h d = Inr (h', r) \<Longrightarrow> dso_step h h'"
| maybe_insert: "dso_valid d \<Longrightarrow> maybe_insert_erase_overlap h d t = Inr (h', b) \<Longrightarrow> dso_step h h'"
| find: "\<forall>lines. proc_maps = Some lines \<longrightarrow> maps_ok pid lines \<Longrightarrow>
    dso_find_or_backpopulate now proc_maps h pid addr = Inr (h', r) \<Longrightarrow> dso_step h h'"
| file_info: "d \<in> dsos (pm_map (get_pid_mapping h pid)) \<Longrightarrow>
    get_or_insert_file_info stat h d = (h', d', i) \<Longrightarrow>
    dso_step h (set_pid_mapping h' pid ((get_pid_mapping h' pid)
      \<lparr>pm_map := smap_assign (dso_start d) d' (pm_map (get_pid_mapping h' pid))\<rparr>))"
| fork: "dso_step h (pid_fork h child parent)"
| free: "dso_step h (pid_free h pid)"
| clear: "dso_step h (fst (clear_unvisited visited h))"
| reset: "dso_step h (reset_backpopulate_state threshold h)"

inductive dso_reachable :: "DsoHdr \<Rightarrow> bool" where
  start: "dso_reachable (mk_DsoHdr path fd host)"
| step: "dso_reachable h \<Longrightarrow> dso_step h h' \<Longrightarrow> dso_reachable h'"

lemma file_info_frame:
  assumes "get_or_insert_file_info stat h d = (h', d', i)"
  shows "dh_pid_map h' = dh_pid_map h" and "d' = d\<lparr>dso_id := i\<rparr>"
  using assms
  by (auto simp: get_or_insert_file_info_def update_id_from_dso_def update_id_dd_profiling_def
      update_id_from_path_def Let_def split: if_splits option.splits prod.splits)

lemma maybe_insert_wf:
  assumes "hdr_wf h" and "dso_valid d"
  obtains h' b where "maybe_insert_erase_overlap h d t = Inr (h', b)" and "hdr_wf h'"
proof -
  let ?pm = "get_pid_mapping h (dso_pid d)"
  obtain st' pm' where r: "insert_erase_overlap_pm (dh_stats h) ?pm d = Inr (st', pm', Some (dso_start d), True)"
    and wf: "pm_wf (dso_pid d) pm'"
    by (rule insert_pm_wf[OF pm_wf_get[OF assms(1)] assms(2) refl])
  have "dh_stats (set_pid_mapping h (dso_pid d) ?pm) = dh_stats h" by (simp add: set_pid_mapping_def)
  with r wf assms(1) show thesis
    by (cases "t < last_backpopulate_time (pm_backpopulate_state ?pm)")
      (auto intro!: that simp: maybe_insert_erase_overlap_def Let_def)
qed

lemma find_or_backpopulate_wf:
  assumes "hdr_wf h" and "\<forall>lines. proc_maps = Some lines \<longrightarrow> maps_ok pid lines"
  obtains h' r where "dso_find_or_backpopulate now proc_maps h pid addr = Inr (h', r)" and "hdr_wf h'"
proof -
  let ?pm = "get_pid_mapping h pid"
  obtain st' pm' nb ok where r: "pid_backpopulate now proc_maps (dh_stats h) ?pm pid 0 = Inr (st', pm', nb, ok)"
    and wf: "pm_wf pid pm'"
    using pid_backpopulate_wf[OF pm_wf_get[OF assms(1)], of proc_maps pid now "dh_stats h" 0] assms(2) by blast
  have st: "dh_stats (set_pid_mapping h pid ?pm) = dh_stats h" by (simp add: set_pid_mapping_def)
  show thesis
  proof (cases "addr < 4096 \<or> snd (dso_find_closest (pm_map ?pm) addr)")
    case True
    then have "dso_find_or_backpopulate now proc_maps h pid addr = Inr (set_pid_mapping h pid ?pm,
        if addr < 4096 then find_res_not_found (pm_map ?pm) else dso_find_closest (pm_map ?pm) addr)"
      by (auto simp: dso_find_or_backpopulate_def Let_def)
    then show thesis using that assms(1) by simp
  next
    case False
    then obtain r where "dso_find_or_backpopulate now proc_maps h pid addr =
        Inr ((set_pid_mapping (set_pid_mapping h pid ?pm) pid pm')\<lparr>dh_stats := st'\<rparr>, r)"
      using r st by (simp add: dso_find_or_backpopulate_def Let_def)
    then show thesis using that assms(1) wf by simp
  qed
qed

lemma pid_fork_wf: "hdr_wf h \<Longrightarrow> hdr_wf (pid_fork h child parent)"
proof -
  assume wf: "hdr_wf h"
  show ?thesis
  proof (cases "map_of (dh_pid_map h) parent")
    case (Some pm)
    then have "dso_map_wf (pm_map pm)"
      using pm_wf_get[OF wf, of parent] by (simp add: get_pid_mapping_def umap_at_def pm_wf_def)
    with Some wf show ?thesis by (simp add: pid_fork_def pid_fork_map pm_wf_fork)
  qed (simp add: pid_fork_def wf)
qed

lemma reset_backpopulate_wf: "hdr_wf h \<Longrightarrow> hdr_wf (reset_backpopulate_state threshold h)"
  by (fastforce simp: hdr_wf_def reset_backpopulate_state_def pm_wf_def split: if_splits
      intro!: umap_wf_map_values)

lemma file_info_wf:
  assumes wf: "hdr_wf h" and d: "d \<in> dsos (pm_map (get_pid_mapping h pid))"
    and r: "get_or_insert_file_info stat h d = (h', d', i)"
  shows "hdr_wf (set_pid_mapping h' pid ((get_pid_mapping h' pid)
      \<lparr>pm_map := smap_assign (dso_start d) d' (pm_map (get_pid_mapping h' pid))\<rparr>))"
proof -
  note fr = file_info_frame[OF r]
  have wf': "hdr_wf h'" using wf fr(1) by (simp add: hdr_wf_def)
  have same: "get_pid_mapping h' pid = get_pid_mapping h pid" by (simp add: get_pid_mapping_def fr(1))
  let ?m = "pm_map (get_pid_mapping h pid)"
  have pm: "dso_map_wf ?m" "\<forall>e\<in>dsos ?m. dso_pid e = pid"
    using pm_wf_get[OF wf, of pid] by (auto simp: pm_wf_def)
  have "dso_start d' = dso_start d" "dso_nonempty d'" "dso_range d' \<subseteq> dso_range d" "dso_pid d' = pid"
    using dsos_nonempty[OF pm(1) d] pm(2) d by (auto simp: fr(2) dso_nonempty_def dso_range_def)
  with shrink_mapping[OF pm(1) d this(1-3)] pm(2) wf' show ?thesis
    by (intro hdr_wf_set) (auto simp: pm_wf_def same)
qed

lemma dso_step_wf: "dso_step h h' \<Longrightarrow> hdr_wf h \<Longrightarrow> hdr_wf h'"
proof (induction rule: dso_step.induct)
  case (insert d h h' r)
  then show ?case by (metis insert_hdr Inr_inject prod.inject)
next
  case (maybe_insert d h t h' b)
  then show ?case by (metis maybe_insert_wf Inr_inject prod.inject)
next
  case (find proc_maps pid now h addr h' r)
  then show ?case by (metis find_or_backpopulate_wf Inr_inject prod.inject)
next
  case (clear h visited)
  then show ?case by (simp add: hdr_wf_def clear_unvisited_map)
qed (auto simp: file_info_wf pid_fork_wf reset_backpopulate_wf,
     simp add: hdr_wf_def pid_free_def set_umap_delete)

lemma dso_reachable_wf: "dso_reachable h \<Longrightarrow> hdr_wf h"
  by (induction rule: dso_reachable.induct) (auto intro: dso_step_wf)

section \<open>Properties\<close>

text \<open>C3. Insertion of a mapping: from any consistent table, inserting a valid mapping never
  fails, keeps the table consistent, leaves the other processes alone, and leaves in the
  process exactly the mappings of the contract: a repeated mapping is shortened in place;
  otherwise the new mapping is there and every old one is kept, truncated, split or dropped
  as \<^const>\<open>carve\<close> says.\<close>

theorem insert_erase_overlap_correct:
  assumes "hdr_wf h" and "dso_valid d"
  shows "\<exists>h'. insert_erase_overlap h d = Inr (h', Some (dso_start d), True) \<and> hdr_wf h'
    \<and> dsos (pm_map (get_pid_mapping h' (dso_pid d))) = mapped_after (pm_map (get_pid_mapping h (dso_pid d))) d
    \<and> (\<forall>pid. pid \<noteq> dso_pid d \<longrightarrow> get_pid_mapping h' pid = get_pid_mapping h pid)"
  by (rule insert_hdr[OF assms]) blast

definition ex_bar :: dso where
  "ex_bar = \<lparr>dso_start = 1000, dso_end = 1499, dso_offset = 0, dso_filename = ''bar.so.1'',
     dso_inode = 7, dso_pid = 10, dso_prot = 4, dso_id = -1, dso_type = kStandard,
     dso_origin = kPerfMmapEvent\<rparr>"

definition ex_anon :: dso where
  "ex_anon = \<lparr>dso_start = 1200, dso_end = 1299, dso_offset = 0, dso_filename = [],
     dso_inode = 0, dso_pid = 10, dso_prot = 4, dso_id = -1, dso_type = kAnon,
     dso_origin = kPerfMmapEvent\<rparr>"

lemma ex_dso_valid: "dso_valid ex_bar" "dso_valid ex_anon"
  by code_simp+

lemma ex_bar_sel: "dso_start ex_bar = 1000" "dso_end ex_bar = 1499" "dso_pid ex_bar = 10"
  by (simp_all add: ex_bar_def)

lemma ex_mapped: "mapped_after (pm_map (get_pid_mapping (mk_DsoHdr [] (-1) False) 10)) ex_bar = {ex_bar}"
  by (simp add: mapped_after_def same_mapping_def get_pid_mapping_def mk_DsoHdr_def
      init_PidMapping_def dsos_def)

theorem insert_erase_overlap_correct_witness:
  "\<exists>h'. insert_erase_overlap (mk_DsoHdr [] (-1) False) ex_bar = Inr (h', Some 1000, True) \<and> hdr_wf h'
    \<and> dsos (pm_map (get_pid_mapping h' 10)) = {ex_bar}"
  using insert_erase_overlap_correct[OF hdr_wf_init ex_dso_valid(1), of "[]" "-1" False] ex_mapped
  by (auto simp: ex_bar_sel)

lemma carve_find:
  assumes wf: "dso_map_wf m" and d: "dso_valid d"
    and wf': "dso_map_wf m'" and m': "dsos m' = insert d (\<Union>e\<in>dsos m. set (carve d e))"
  shows "closest_dso m' a = (if is_within d a then Some d
    else case closest_dso m a of
      None \<Rightarrow> None
    | Some e \<Rightarrow> List.find (\<lambda>p. is_within p a) (carve d e))"
proof (cases "is_within d a")
  case True
  then show ?thesis using dso_search.search_Some_iff[OF wf', of a d] m' by simp
next
  case out: False
  have ne: "dso_nonempty d" and max: "dso_end d < - 1" using d by (auto simp: dso_valid_def)
  have sub: "is_within e a" if "e \<in> dsos m" "p \<in> set (carve d e)" "is_within p a" for e p
    using carve_range(2)[OF dsos_nonempty[OF wf that(1)] ne max that(2)] that(3)
    unfolding is_within_range by blast
  have iff: "closest_dso m' a = Some p \<longleftrightarrow> (\<exists>e\<in>dsos m. p \<in> set (carve d e)) \<and> is_within p a" for p
    unfolding dso_search.search_Some_iff[OF wf'] m' using out by blast
  show ?thesis
  proof (cases "closest_dso m a")
    case None
    then have "\<forall>e\<in>dsos m. \<not> is_within e a" unfolding dso_search.search_None_iff[OF wf] .
    then have "\<nexists>p. closest_dso m' a = Some p" unfolding iff using sub by blast
    with None out show ?thesis by simp
  next
    case (Some e)
    then have e: "e \<in> dsos m" "is_within e a" unfolding dso_search.search_Some_iff[OF wf] by blast+
    have eq: "e' = e" if "e' \<in> dsos m" "p \<in> set (carve d e')" "is_within p a" for e' p
      using dso_map_disjoint[OF wf that(1) e(1) sub[OF that] e(2)] .
    have only: "closest_dso m' a = Some p \<longleftrightarrow> p \<in> set (carve d e) \<and> is_within p a" for p
      unfolding iff using eq e(1) by blast
    have "closest_dso m' a = List.find (\<lambda>p. is_within p a) (carve d e)"
    proof (cases "List.find (\<lambda>p. is_within p a) (carve d e)")
      case None
      then have "\<nexists>p. closest_dso m' a = Some p" unfolding only find_None_iff by blast
      with None show ?thesis by simp
    next
      case (Some p)
      from find_SomeD[OF this] have "closest_dso m' a = Some p" unfolding only .
      with Some show ?thesis by simp
    qed
    with Some out show ?thesis by simp
  qed
qed


definition ex_hdr :: DsoHdr where
  "ex_hdr = (case insert_erase_overlap (mk_DsoHdr [] (-1) False) ex_bar of
     Inr (h, _) \<Rightarrow> h | Inl _ \<Rightarrow> mk_DsoHdr [] (-1) False)"

lemma insert_pid_map:
  "insert_erase_overlap h d = Inr (h', r) \<Longrightarrow>
   dh_pid_map h' = AList.update (dso_pid d) (get_pid_mapping h' (dso_pid d)) (dh_pid_map h)"
  by (auto simp: insert_erase_overlap_def set_pid_mapping_def get_pid_mapping_def
      split: sum.splits prod.splits)

lemma insert_files:
  assumes "insert_erase_overlap h d = Inr (h', r)"
  shows "dh_file_info_vector h' = dh_file_info_vector h"
    and "dh_file_info_inode_map h' = dh_file_info_inode_map h"
  using assms by (auto simp: insert_erase_overlap_def set_pid_mapping_def split: sum.splits prod.splits)

lemma ex_hdr_facts:
  "insert_erase_overlap (mk_DsoHdr [] (-1) False) ex_bar = Inr (ex_hdr, Some 1000, True)"
  "hdr_wf ex_hdr" "pm_map (get_pid_mapping ex_hdr 10) = [(1000, ex_bar)]"
  "pid \<noteq> 10 \<Longrightarrow> get_pid_mapping ex_hdr pid = init_PidMapping"
proof -
  obtain h' where r: "insert_erase_overlap (mk_DsoHdr [] (-1) False) ex_bar = Inr (h', Some 1000, True)"
    and h': "hdr_wf h'" "dsos (pm_map (get_pid_mapping h' 10)) = {ex_bar}"
    "\<And>pid. pid \<noteq> 10 \<Longrightarrow> get_pid_mapping h' pid = get_pid_mapping (mk_DsoHdr [] (-1) False) pid"
    by (rule insert_hdr[OF hdr_wf_init ex_dso_valid(1), of "[]" "-1" False])
      (use ex_mapped in \<open>simp add: ex_bar_sel\<close>)
  then have e: "ex_hdr = h'" by (simp add: ex_hdr_def)
  with r h' show "insert_erase_overlap (mk_DsoHdr [] (-1) False) ex_bar = Inr (ex_hdr, Some 1000, True)"
    "hdr_wf ex_hdr" "pid \<noteq> 10 \<Longrightarrow> get_pid_mapping ex_hdr pid = init_PidMapping"
    by (simp_all add: get_pid_mapping_def mk_DsoHdr_def)
  have wf: "dso_map_wf (pm_map (get_pid_mapping h' 10))"
    using pm_wf_get[OF h'(1)] by (simp add: pm_wf_def)
  show "pm_map (get_pid_mapping ex_hdr 10) = [(1000, ex_bar)]"
    unfolding e using dso_map_set[OF wf] h'(2) dso_map_wfD(1)[OF wf]
    by (intro smap_singleton) (auto simp: ex_bar_sel)
qed

lemmas ex_hdr_wf = ex_hdr_facts(2) and ex_hdr_map = ex_hdr_facts(3)

lemma ex_carve: "carve ex_anon ex_bar = [adjust_end ex_bar 1199, adjust_start ex_bar 1300]"
  by (simp add: carve_def intersects_def is_intersection_allowed_def ex_bar_def ex_anon_def)

lemma ex_closest: "closest_dso [(1000, ex_bar)] 1250 = Some ex_bar" "closest_dso [(1000, ex_bar)] 1350 = Some ex_bar"
  by (simp_all add: closest_dso_def dso_find_closest_def smap_upper_bound_def smap_begin_def smap_prev_def
      smap_last_def smap_deref_def is_within_def ex_bar_def)


text \<open>C6. Runs: in every state the table can reach by insertions, searches with
  backpopulation, forks, exits, clearing and file lookups, its own consistency check
  succeeds, and no further insertion of a valid mapping can end in the fatal check or use an
  invalid iterator.\<close>

theorem dso_reachable_consistent:
  assumes "dso_reachable h"
  shows "check_invariants h \<and> (\<forall>d. dso_valid d \<longrightarrow> (\<exists>h' r. insert_erase_overlap h d = Inr (h', r)))"
proof -
  note wf = dso_reachable_wf[OF assms]
  have "\<exists>h' r. insert_erase_overlap h d = Inr (h', r)" if "dso_valid d" for d
    by (rule insert_hdr[OF wf that]) blast
  with hdr_wf_check_invariants[OF wf] show ?thesis by blast
qed

theorem dso_reachable_consistent_witness: "check_invariants ex_hdr"
proof -
  have "dso_step (mk_DsoHdr [] (-1) False) ex_hdr"
    using ex_hdr_facts(1) by (rule dso_step.insert[OF ex_dso_valid(1)])
  then have "dso_reachable ex_hdr" by (rule dso_reachable.step[OF dso_reachable.start])
  then show ?thesis by (rule dso_reachable_consistent[THEN conjunct1])
qed

text \<open>C24. Fork: when the parent is known and the child is not, an address resolves in the
  child to the mapping it resolves to in the parent, under the pid of the child; every other
  process keeps its mappings, and a child that already has mappings keeps them.\<close>

theorem pid_fork_resolves:
  assumes "hdr_wf h" and "map_of (dh_pid_map h) parent = Some pm"
  shows "(if map_of (dh_pid_map h) child = None
      then closest_dso (pm_map (get_pid_mapping (pid_fork h child parent) child)) a
         = map_option (\<lambda>d. dso_with_pid d child) (closest_dso (pm_map pm) a)
      else pid_fork h child parent = h)
    \<and> (\<forall>pid. pid \<noteq> child \<longrightarrow> get_pid_mapping (pid_fork h child parent) pid = get_pid_mapping h pid)"
proof -
  have wf: "dso_map_wf (pm_map pm)"
    using pm_wf_get[OF assms(1), of parent] assms(2) by (simp add: get_pid_mapping_def umap_at_def pm_wf_def)
  let ?m = "map (\<lambda>p. (fst p, dso_with_pid (snd p) child)) (pm_map pm)"
  have wf': "dso_map_wf ?m" by (rule dso_map_wf_map[OF wf]) (simp_all add: dso_with_pid_def)
  have dsos: "dsos ?m = (\<lambda>d. dso_with_pid d child) ` dsos (pm_map pm)"
    by (simp add: dsos_def image_image)
  have within: "is_within (dso_with_pid d child) a = is_within d a" for d
    by (simp add: is_within_def dso_with_pid_def)
  have "closest_dso ?m a = map_option (\<lambda>d. dso_with_pid d child) (closest_dso (pm_map pm) a)"
  proof (cases "closest_dso (pm_map pm) a")
    case None
    then have "\<forall>d\<in>dsos ?m. \<not> is_within d a"
      unfolding dso_search.search_None_iff[OF wf] dsos by (auto simp: within)
    with None show ?thesis unfolding dso_search.search_None_iff[OF wf', symmetric] by simp
  next
    case (Some d)
    then have "dso_with_pid d child \<in> dsos ?m \<and> is_within (dso_with_pid d child) a"
      unfolding dso_search.search_Some_iff[OF wf] dsos by (auto simp: within)
    with Some show ?thesis unfolding dso_search.search_Some_iff[OF wf', symmetric] by simp
  qed
  then show ?thesis using assms(2) by (simp add: pid_fork_def pid_fork_map[OF wf])
qed

theorem pid_fork_resolves_witness:
  "closest_dso (pm_map (get_pid_mapping (pid_fork ex_hdr 11 10) 11)) 1250 = Some (dso_with_pid ex_bar 11)"
proof -
  have r: "map_of (dh_pid_map ex_hdr) 10 = Some (get_pid_mapping ex_hdr 10)"
    "map_of (dh_pid_map ex_hdr) 11 = None"
    unfolding insert_pid_map[OF ex_hdr_facts(1)] by (simp_all add: mk_DsoHdr_def ex_bar_sel)
  with pid_fork_resolves[OF ex_hdr_wf r(1), of 11 1250] show ?thesis
    by (simp add: ex_hdr_map ex_closest)
qed

section \<open>The table of files\<close>

text \<open>
  An identifier is the index of its entry, and the map from inode and size points at the
  entry that holds that inode and size.
\<close>

definition file_table_wf :: "DsoHdr \<Rightarrow> bool" where
  "file_table_wf h \<longleftrightarrow> dh_file_info_vector h \<noteq> [] \<and> umap_wf (dh_file_info_inode_map h)
     \<and> (\<forall>i<length (dh_file_info_vector h). fv_id (dh_file_info_vector h ! i) = int i)
     \<and> (\<forall>el\<in>set (dh_file_info_inode_map h). 0 < snd el \<and> snd el < int (length (dh_file_info_vector h))
          \<and> fst el = (fi_inode (fv_info (dh_file_info_vector h ! nat (snd el))),
                      fi_size (fv_info (dh_file_info_vector h ! nat (snd el)))))"

lemma file_table_wf_init: "file_table_wf (mk_DsoHdr path fd host)"
  by (simp add: file_table_wf_def mk_DsoHdr_def mk_FileInfoValue_def)

lemma file_table_wf_stats: "file_table_wf (h\<lparr>dh_stats := st\<rparr>) = file_table_wf h"
  "find_file_info stat (h\<lparr>dh_stats := st\<rparr>) d = find_file_info stat h d"
  unfolding file_table_wf_def find_file_info_def Let_def by (simp_all split: prod.split)

text \<open>Adding one entry at the end, with or without a key for it.\<close>

lemma file_table_push:
  assumes wf: "file_table_wf h" and v: "dh_file_info_vector h' = dh_file_info_vector h @ [x]"
    and x: "fv_id x = int (length (dh_file_info_vector h))" and im: "umap_wf (dh_file_info_inode_map h')"
    and el: "\<And>el. el \<in> set (dh_file_info_inode_map h') \<Longrightarrow> el \<in> set (dh_file_info_inode_map h)
      \<or> el = ((fi_inode (fv_info x), fi_size (fv_info x)), int (length (dh_file_info_vector h)))"
  shows "file_table_wf h'"
  unfolding file_table_wf_def v
proof (intro conjI allI impI ballI im)
  fix i assume "i < length (dh_file_info_vector h @ [x])"
  then show "fv_id ((dh_file_info_vector h @ [x]) ! i) = int i"
    using wf x by (auto simp: file_table_wf_def nth_append less_Suc_eq)
next
  fix el assume "el \<in> set (dh_file_info_inode_map h')"
  from assms(5)[OF this] consider "el \<in> set (dh_file_info_inode_map h)"
    | "el = ((fi_inode (fv_info x), fi_size (fv_info x)), int (length (dh_file_info_vector h)))" by blast
  then have "0 < snd el \<and> snd el < int (length (dh_file_info_vector h @ [x]))
    \<and> fst el = (fi_inode (fv_info ((dh_file_info_vector h @ [x]) ! nat (snd el))),
                fi_size (fv_info ((dh_file_info_vector h @ [x]) ! nat (snd el))))"
  proof cases
    case 1
    then have "0 < snd el" "nat (snd el) < length (dh_file_info_vector h)"
      "fst el = (fi_inode (fv_info (dh_file_info_vector h ! nat (snd el))),
                 fi_size (fv_info (dh_file_info_vector h ! nat (snd el))))"
      using wf by (auto simp: file_table_wf_def)
    then show ?thesis by (simp add: nth_append)
  next
    case 2
    moreover have "dh_file_info_vector h \<noteq> []" using wf by (simp add: file_table_wf_def)
    ultimately show ?thesis by simp
  qed
  then show "0 < snd el" "snd el < int (length (dh_file_info_vector h @ [x]))"
    "fst el = (fi_inode (fv_info ((dh_file_info_vector h @ [x]) ! nat (snd el))),
               fi_size (fv_info ((dh_file_info_vector h @ [x]) ! nat (snd el))))" by auto
qed simp

lemma file_table_key:
  assumes "file_table_wf h" and "map_of (dh_file_info_inode_map h) key = Some i"
  shows "0 < i" and "nat i < length (dh_file_info_vector h)"
    and "key = (fi_inode (fv_info (dh_file_info_vector h ! nat i)), fi_size (fv_info (dh_file_info_vector h ! nat i)))"
    and "fv_id (dh_file_info_vector h ! nat i) = i"
  using assms map_of_SomeD[OF assms(2)] by (fastforce simp: file_table_wf_def)+

lemma update_id_from_path_wf:
  assumes wf: "file_table_wf h" and r: "update_id_from_path stat h d = (h', d', i)"
  defines "fi \<equiv> find_file_info stat h d"
  shows "file_table_wf h'"
    and "if fi_inode fi = 0 then i = 0 else 0 < i \<and> nat i < length (dh_file_info_vector h')
      \<and> fv_id (dh_file_info_vector h' ! nat i) = i \<and> fv_info (dh_file_info_vector h' ! nat i) = fi"
proof -
  let ?v = "dh_file_info_vector h" and ?key = "(fi_inode fi, fi_size fi)"
  have "file_table_wf h' \<and> (if fi_inode fi = 0 then i = 0 else 0 < i \<and> nat i < length (dh_file_info_vector h')
      \<and> fv_id (dh_file_info_vector h' ! nat i) = i \<and> fv_info (dh_file_info_vector h' ! nat i) = fi)"
  proof (cases "fi_inode fi = 0")
    case True
    then show ?thesis using r wf by (simp add: update_id_from_path_def fi_def k_file_info_error_def)
  next
    case False
    show ?thesis
    proof (cases "map_of (dh_file_info_inode_map h) ?key")
      case None
      then have r': "i = int (length ?v)"
        "h' = h\<lparr>dh_file_info_inode_map := AList.update ?key i (dh_file_info_inode_map h),
              dh_file_info_vector := ?v @ [mk_FileInfoValue fi i]\<rparr>"
        using r False by (auto simp: update_id_from_path_def fi_def[symmetric] Let_def)
      have "?v \<noteq> []" and im: "umap_wf (dh_file_info_inode_map h)" using wf by (auto simp: file_table_wf_def)
      moreover have "file_table_wf h'"
        by (rule file_table_push[OF wf, of h' "mk_FileInfoValue fi i"])
          (auto simp: r' mk_FileInfoValue_def im set_umap_update)
      ultimately show ?thesis using False by (simp add: r' mk_FileInfoValue_def)
    next
      case (Some j)
      note key = file_table_key[OF wf Some]
      then have r': "i = j" "h' = (if fi_path fi \<noteq> fi_path (fv_info (?v ! nat j))
             then h\<lparr>dh_file_info_vector := ?v[nat j := mk_FileInfoValue fi j]\<rparr> else h)"
        using r False Some by (auto simp: update_id_from_path_def fi_def[symmetric] Let_def)
      show ?thesis
      proof (cases "fi_path fi = fi_path (fv_info (?v ! nat j))")
        case True
        then have "fv_info (?v ! nat j) = fi" using key(3) by (simp add: FileInfo.equality)
        then show ?thesis using True wf key False by (simp add: r')
      next
        case ne: False
        have "(if k = nat j then mk_FileInfoValue fi j else ?v ! k) = ?v[nat j := mk_FileInfoValue fi j] ! k" for k
          using key(2) by (simp add: nth_list_update)
        then show ?thesis using wf ne key False
          by (auto simp: r' file_table_wf_def nth_list_update mk_FileInfoValue_def)
      qed
    qed
  qed
  then show "file_table_wf h'"
    and "if fi_inode fi = 0 then i = 0 else 0 < i \<and> nat i < length (dh_file_info_vector h')
      \<and> fv_id (dh_file_info_vector h' ! nat i) = i \<and> fv_info (dh_file_info_vector h' ! nat i) = fi"
    by auto
qed

lemma update_id_from_dso_wf:
  assumes wf: "file_table_wf h" and r: "update_id_from_dso stat h d = (h', d', i)"
  shows "file_table_wf h'"
proof -
  have dd: "file_table_wf h'" if "update_id_dd_profiling stat h d = (h', d', i)"
  proof -
    consider "dh_dd_profiling_file_info h \<noteq> k_file_info_undef"
      | "dh_dd_profiling_file_info h = k_file_info_undef" "dh_dd_profiling_fd h \<noteq> -1"
      | "dh_dd_profiling_file_info h = k_file_info_undef" "dh_dd_profiling_fd h = -1" by blast
    then show ?thesis
    proof cases
      case 1
      then show ?thesis using that wf by (simp add: update_id_dd_profiling_def)
    next
      case 2
      have "umap_wf (dh_file_info_inode_map h)" using wf by (simp add: file_table_wf_def)
      with 2 that show ?thesis
        by (intro file_table_push[OF wf]) (auto simp: update_id_dd_profiling_def Let_def mk_FileInfoValue_def)
    next
      case 3
    obtain h1 d1 i1 where r1: "update_id_from_path stat h d = (h1, d1, i1)"
      by (cases "update_id_from_path stat h d") auto
    with 3 that have "h' = h1\<lparr>dh_dd_profiling_file_info := i1\<rparr>"
      by (auto simp: update_id_dd_profiling_def)
    with update_id_from_path_wf(1)[OF wf r1] show ?thesis by (simp add: file_table_wf_def)
    qed
  qed
  show ?thesis
    using r wf dd update_id_from_path_wf(1)[OF wf] by (auto simp: update_id_from_dso_def split: if_splits)
qed

text \<open>C25. File identifiers: looking up the file of a mapping keeps the table consistent, and
  for a mapping of an ordinary file seen for the first time the identifier given names the
  entry with the path, size and inode just found, or the error entry when the file cannot be
  found. Distinct files, by inode and size, have distinct identifiers.\<close>

theorem file_info_lookup:
  assumes wf: "file_table_wf h" and r: "get_or_insert_file_info stat h d = (h', d', i)"
    and "dso_id d = k_file_info_undef" and "dso_type d = kStandard"
  shows "file_table_wf h' \<and> dso_id d' = i
    \<and> (if fi_inode (find_file_info stat h d) = 0 then i = k_file_info_error
       else 0 < i \<and> nat i < length (dh_file_info_vector h')
          \<and> fv_id (dh_file_info_vector h' ! nat i) = i
          \<and> fv_info (dh_file_info_vector h' ! nat i) = find_file_info stat h d)
    \<and> (\<forall>key key' j. map_of (dh_file_info_inode_map h') key = Some j
         \<longrightarrow> map_of (dh_file_info_inode_map h') key' = Some j \<longrightarrow> key = key')"
proof -
  let ?h = "h\<lparr>dh_stats := incr_metric kTargetDso (dso_type d) (dh_stats h)\<rparr>"
  have "update_id_from_path stat ?h d = (h', d', i)"
    using r assms(3,4) by (simp add: get_or_insert_file_info_def update_id_from_dso_def)
  note p = update_id_from_path_wf[OF _ this, unfolded file_table_wf_stats, OF wf]
  have "key = key'" if "map_of (dh_file_info_inode_map h') key = Some j"
      "map_of (dh_file_info_inode_map h') key' = Some j" for key key' j
    using file_table_key(3)[OF p(1) that(1)] file_table_key(3)[OF p(1) that(2)] by simp
  then show ?thesis
    using p file_info_frame(2)[OF r] by (auto simp: k_file_info_error_def)
qed

theorem file_info_lookup_witness:
  "case get_or_insert_file_info (\<lambda>p. Some (7, 100)) ex_hdr ex_bar of (h', d', i) \<Rightarrow>
     file_table_wf h' \<and> 0 < i \<and> fv_info (dh_file_info_vector h' ! nat i) = \<lparr>fi_path = ''bar.so.1'', fi_size = 100, fi_inode = 7\<rparr>"
proof -
  obtain h' d' i where r: "get_or_insert_file_info (\<lambda>p. Some (7, 100)) ex_hdr ex_bar = (h', d', i)"
    by (cases "get_or_insert_file_info (\<lambda>p. Some (7, 100)) ex_hdr ex_bar") auto
  have "dh_file_info_vector ex_hdr = [mk_FileInfoValue empty_FileInfo 0]" "dh_file_info_inode_map ex_hdr = []"
    unfolding insert_files[OF ex_hdr_facts(1)] by (simp_all add: mk_DsoHdr_def)
  then have wf: "file_table_wf ex_hdr" by (simp add: file_table_wf_def mk_FileInfoValue_def)
  have f: "find_file_info (\<lambda>p. Some (7, 100)) ex_hdr ex_bar = \<lparr>fi_path = ''bar.so.1'', fi_size = 100, fi_inode = 7\<rparr>"
    by (simp add: find_file_info_def get_file_inode_def ex_bar_def)
  have "dso_id ex_bar = k_file_info_undef" "dso_type ex_bar = kStandard"
    by (simp_all add: ex_bar_def k_file_info_undef_def)
  from file_info_lookup[OF wf r this] show ?thesis unfolding f r by simp
qed

end
