(* ===== verification/Ring_Mem.thy ===== *)
theory Ring_Mem
  imports Ddprof_Prelude
begin

text \<open>
  The data area of a ring buffer as a list of bytes, addressed by a position that counts
  modulo its length, and little-endian fixed-width integers in it. A window of the area is
  what a mirrored mapping shows as consecutive bytes.
\<close>

section \<open>Windows\<close>

definition rd :: "u8 list \<Rightarrow> nat \<Rightarrow> nat \<Rightarrow> u8 list" where
  "rd data p n = map (\<lambda>i. data ! ((p + i) mod length data)) [0..<n]"

fun wr :: "u8 list \<Rightarrow> nat \<Rightarrow> u8 list \<Rightarrow> u8 list" where
  "wr data p [] = data"
| "wr data p (b # bs) = wr (data[p mod length data := b]) (Suc p) bs"

lemma length_rd [simp]: "length (rd data p n) = n"
  by (simp add: rd_def)

lemma length_wr [simp]: "length (wr data p bs) = length data"
  by (induction data p bs rule: wr.induct) auto

lemma nth_rd [simp]: "i < n \<Longrightarrow> rd data p n ! i = data ! ((p + i) mod length data)"
  by (simp add: rd_def)

lemma rd_append: "rd data p (n + m) = rd data p n @ rd data (p + n) m"
  by (rule nth_equalityI) (auto simp: nth_append)

lemma rd_0 [simp]: "rd data p 0 = []"
  by (simp add: rd_def)

lemma rd_cong: "p mod length data = q mod length data \<Longrightarrow> rd data p n = rd data q n"
  by (auto simp: rd_def intro!: map_cong) (metis mod_add_left_eq)

lemma rd_mod: "rd data (p mod length data) n = rd data p n"
  by (rule rd_cong) simp

lemma wr_cong: "p mod length data = q mod length data \<Longrightarrow> wr data p bs = wr data q bs"
proof (induction bs arbitrary: data p q)
  case (Cons b bs)
  have "Suc p mod length data = Suc q mod length data" using Cons.prems by (metis mod_Suc_eq)
  then show ?case using Cons.IH[of "Suc p" "data[p mod length data := b]" "Suc q"] Cons.prems by simp
qed simp

lemma wr_mod: "wr data (p mod length data) bs = wr data p bs"
  by (rule wr_cong) simp

text \<open>A window that does not cross the end is a plain slice.\<close>

lemma rd_slice: "p + n \<le> length data \<Longrightarrow> rd data p n = take n (drop p data)"
  by (auto simp: list_eq_iff_nth_eq)

lemma mod_window_inj:
  fixes L :: nat
  assumes "s \<le> p" "p < s + L" "s \<le> q" "q < s + L" "p mod L = q mod L"
  shows "p = q"
proof -
  have "a = b" if "a mod L = b mod L" "a \<le> b" "b < a + L" for a b
  proof -
    have "L dvd b - a" using that(1,2) mod_eq_dvd_iff_nat[of a b L] by simp
    then show ?thesis using that(2,3) nat_dvd_not_less[of "b - a" L] by linarith
  qed
  from this[of p q] this[of q p] assms show ?thesis
    by (cases "p \<le> q") auto
qed

lemma nth_wr_out:
  "(\<forall>i<length bs. (p + i) mod length data \<noteq> j) \<Longrightarrow> wr data p bs ! j = data ! j"
proof (induction data p bs rule: wr.induct)
  case (2 data p b bs)
  then have "p mod length data \<noteq> j" by (auto dest: spec[of _ 0])
  moreover have "\<forall>i<length bs. (Suc p + i) mod length data \<noteq> j"
    using 2(2) by (auto dest: spec[of _ "Suc _"])
  ultimately show ?case using 2(1) by simp
qed simp

lemma nth_wr_in:
  "length bs \<le> length data \<Longrightarrow> i < length bs \<Longrightarrow> wr data p bs ! ((p + i) mod length data) = bs ! i"
proof (induction data p bs arbitrary: i rule: wr.induct)
  case (2 data p b bs)
  show ?case
  proof (cases i)
    case 0
    have "(Suc p + k) mod length data \<noteq> p mod length data" if "k < length bs" for k
    proof
      assume eq: "(Suc p + k) mod length data = p mod length data"
      have "Suc p + k = p" by (rule mod_window_inj[OF _ _ _ _ eq, of p]) (use that 2(2) in auto)
      then show False by simp
    qed
    moreover have "p mod length data < length data" using 2(2) by (intro mod_less_divisor) auto
    ultimately show ?thesis
      using nth_wr_out[of bs "Suc p" "data[p mod length data := b]" "p mod length data"] 0 by simp
  next
    case (Suc k)
    then show ?thesis using 2(1)[of k] 2(2,3) by simp
  qed
qed simp

text \<open>What was written is read back; a window elsewhere in the same lap is untouched.\<close>

lemma rd_wr_same: "length bs \<le> length data \<Longrightarrow> rd (wr data p bs) p (length bs) = bs"
  by (auto simp: list_eq_iff_nth_eq nth_wr_in)

lemma rd_wr_disjoint:
  assumes "s \<le> q" "q + n \<le> s + length data" "s \<le> p" "p + length bs \<le> s + length data"
    and "q + n \<le> p \<or> p + length bs \<le> q"
  shows "rd (wr data p bs) q n = rd data q n"
proof -
  have "wr data p bs ! ((q + i) mod length data) = data ! ((q + i) mod length data)" if "i < n" for i
  proof (rule nth_wr_out, intro allI impI)
    fix j assume "j < length bs"
    with that assms show "(p + j) mod length data \<noteq> (q + i) mod length data"
      using mod_window_inj[of s "p + j" "length data" "q + i"] by auto
  qed
  then show ?thesis by (simp add: rd_def)
qed

text \<open>Writing inside a window.\<close>

lemma rd_wr_within:
  assumes "j + length bs \<le> n" "n \<le> length data"
  shows "rd (wr data (p + j) bs) p n = take j (rd data p n) @ bs @ drop (j + length bs) (rd data p n)"
proof -
  define m where "m = n - (j + length bs)"
  then have n: "n = j + (length bs + m)" using assms(1) by simp
  have a: "rd (wr data (p + j) bs) p j = rd data p j"
    by (rule rd_wr_disjoint[of p]) (use assms n in auto)
  have b: "rd (wr data (p + j) bs) (p + j) (length bs) = bs"
    by (rule rd_wr_same) (use assms in auto)
  have c: "rd (wr data (p + j) bs) (p + (j + length bs)) m = rd data (p + (j + length bs)) m"
    by (rule rd_wr_disjoint[of p]) (use assms n in auto)
  have "rd data p n = rd data p j @ rd data (p + j) (length bs) @ rd data (p + (j + length bs)) m"
    by (simp add: n rd_append add.assoc)
  moreover have "rd (wr data (p + j) bs) p n = rd data p j @ bs @ rd data (p + (j + length bs)) m"
    using a b c by (simp add: n rd_append add.assoc)
  ultimately show ?thesis by simp
qed

section \<open>Little-endian integers\<close>

definition le_bytes :: "nat \<Rightarrow> nat \<Rightarrow> u8 list" where
  "le_bytes k n = map (\<lambda>i. of_nat (n div 256 ^ i)) [0..<k]"

definition le_nat :: "u8 list \<Rightarrow> nat" where
  "le_nat bs = foldr (\<lambda>b acc. unat b + 256 * acc) bs 0"

lemma length_le_bytes [simp]: "length (le_bytes k n) = k"
  by (simp add: le_bytes_def)

lemma le_bytes_Suc: "le_bytes (Suc k) n = of_nat n # le_bytes k (n div 256)"
proof -
  have "map (\<lambda>i. of_nat (n div 256 ^ i)) [0..<Suc k]
      = (of_nat n :: u8) # map (\<lambda>i. of_nat (n div 256 ^ Suc i)) [0..<k]"
    by (simp only: upt_conv_Cons[OF zero_less_Suc] map_Suc_upt[symmetric] list.map map_map) (simp add: comp_def)
  then show ?thesis by (simp add: le_bytes_def div_mult2_eq)
qed

lemma le_nat_bytes: "le_nat (le_bytes k n) = n mod 256 ^ k"
proof (induction k arbitrary: n)
  case (Suc k)
  have "unat (of_nat n :: u8) = n mod 256" by (simp add: unat_of_nat)
  then show ?case
    using Suc[of "n div 256"] by (simp add: le_bytes_Suc le_nat_def mod_mult2_eq)
qed (simp add: le_bytes_def le_nat_def)

definition load_u64 :: "u8 list \<Rightarrow> nat \<Rightarrow> u64" where
  "load_u64 data p = of_nat (le_nat (rd data p 8))"

definition store_u64 :: "u8 list \<Rightarrow> nat \<Rightarrow> u64 \<Rightarrow> u8 list" where
  "store_u64 data p w = wr data p (le_bytes 8 (unat w))"

lemma length_store_u64 [simp]: "length (store_u64 data p w) = length data"
  by (simp add: store_u64_def)

lemma load_store_same: "8 \<le> length data \<Longrightarrow> load_u64 (store_u64 data p w) p = w"
proof -
  assume "8 \<le> length data"
  then have "rd (store_u64 data p w) p 8 = le_bytes 8 (unat w)"
    using rd_wr_same[of "le_bytes 8 (unat w)" data p] by (simp add: store_u64_def)
  moreover have "unat w < 256 ^ 8" using unsigned_less[of w] by simp
  ultimately show ?thesis by (simp add: load_u64_def le_nat_bytes)
qed

lemma load_wr_disjoint:
  assumes "s \<le> q" "q + 8 \<le> s + length data" "s \<le> p" "p + length bs \<le> s + length data"
    and "q + 8 \<le> p \<or> p + length bs \<le> q"
  shows "load_u64 (wr data p bs) q = load_u64 data q"
  using rd_wr_disjoint[OF assms(1-5)] by (simp add: load_u64_def)

lemma load_store_disjoint:
  assumes "s \<le> q" "q + 8 \<le> s + length data" "s \<le> p" "p + 8 \<le> s + length data"
    and "q + 8 \<le> p \<or> p + 8 \<le> q"
  shows "load_u64 (store_u64 data p w) q = load_u64 data q"
  unfolding store_u64_def by (rule load_wr_disjoint[of s]) (use assms in auto)

lemma rd_store_disjoint:
  assumes "s \<le> q" "q + n \<le> s + length data" "s \<le> p" "p + 8 \<le> s + length data"
    and "q + n \<le> p \<or> p + 8 \<le> q"
  shows "rd (store_u64 data p w) q n = rd data q n"
  unfolding store_u64_def by (rule rd_wr_disjoint[of s]) (use assms in auto)

end
