(* ===== verification/Ring_Buffer.thy ===== *)
theory Ring_Buffer
  imports Ring_Mem
begin

text \<open>
  The ring buffer shared by the two kinds of event sources (\<^verbatim>\<open>src/include/perf_ringbuffer.hpp\<close>,
  \<^verbatim>\<open>rb_init\<close> in \<^verbatim>\<open>src/src/perf_ringbuffer.cc\<close>), the alignment helpers, and the single-writer
  perf ring of \<^verbatim>\<open>src/include/ringbuffer_utils.hpp\<close>: writer, reader, and the event reader used
  when events are reordered. Positions count bytes since the start and are reduced by the mask.
  Reading or writing outside the mapped area gives \<^term>\<open>None\<close>.
\<close>

section \<open>Alignment\<close>

definition kRingBufferAlignment :: u64 where "kRingBufferAlignment = 8"

definition align_up :: "u64 \<Rightarrow> u64 \<Rightarrow> u64" where
  "align_up x pow2 = ((x - 1) OR (pow2 - 1)) + 1"

definition align_down :: "u64 \<Rightarrow> u64 \<Rightarrow> u64" where
  "align_down x pow2 = x AND NOT (pow2 - 1)"

section \<open>The ring buffer\<close>

datatype RingBufferType = kPerfRingBuffer | kMPSCRingBuffer

record RingBuffer =
  rb_type :: RingBufferType
  rb_mask :: u64
  rb_meta_size :: u64
  rb_data_size :: u64
  rb_data :: "u8 list"
  rb_mirrored_mapping :: bool
  rb_writer_pos :: u64
  rb_reader_pos :: u64
  rb_intermediate_reader_pos :: u64
  rb_time_zero :: u64
  rb_time_mult :: u32
  rb_time_shift :: u16
  rb_perf_clock_source :: u8
  rb_tsc_available :: bool
  rb_wrap_copy :: "u8 list option"
  rb_wrap_copy_capacity :: u64

text \<open>
  \<^verbatim>\<open>get_mask_from_size\<close> and \<^verbatim>\<open>perf_mmap_size\<close>; \<open>page\<close> is the page size. The
  metadata page holds the cursors and, for the MPSC ring, the clock parameters; the data
  pages follow it.
\<close>

definition perf_mmap_size :: "u64 \<Rightarrow> nat \<Rightarrow> u64" where
  "perf_mmap_size page buf_size_shift = (ucast (push_bit buf_size_shift (1 :: u32) + 1)) * page"

definition get_mask_from_size :: "u64 \<Rightarrow> u64 \<Rightarrow> u64" where
  "get_mask_from_size page size' = size' - page - 1"

record meta_page =
  mp_reader_pos :: u64
  mp_writer_pos :: u64
  mp_perf_clock_source :: u8
  mp_time_mult :: u32
  mp_time_shift :: u16
  mp_time_zero :: u64
  mp_tsc_available :: bool

definition rb_init ::
    "u64 \<Rightarrow> RingBuffer \<Rightarrow> meta_page \<Rightarrow> u8 list \<Rightarrow> u64 \<Rightarrow> RingBufferType \<Rightarrow> bool \<Rightarrow> RingBuffer" where
  "rb_init page rb meta data size' ring_buffer_type mirrored_mapping = (
     let rb = rb\<lparr>rb_meta_size := page, rb_data := data, rb_data_size := size' - page,
                 rb_mask := get_mask_from_size page size', rb_type := ring_buffer_type,
                 rb_mirrored_mapping := mirrored_mapping,
                 rb_wrap_copy := None, rb_wrap_copy_capacity := 0\<rparr>;
         rb = (case ring_buffer_type of
             kPerfRingBuffer \<Rightarrow> rb\<lparr>rb_reader_pos := mp_reader_pos meta, rb_writer_pos := mp_writer_pos meta\<rparr>
           | kMPSCRingBuffer \<Rightarrow> rb\<lparr>rb_reader_pos := mp_reader_pos meta, rb_writer_pos := mp_writer_pos meta,
                 rb_perf_clock_source := mp_perf_clock_source meta, rb_time_mult := mp_time_mult meta,
                 rb_time_shift := mp_time_shift meta, rb_time_zero := mp_time_zero meta,
                 rb_tsc_available := mp_tsc_available meta\<rparr>)
     in rb\<lparr>rb_intermediate_reader_pos := rb_reader_pos rb\<rparr>)"

definition rb_free :: "RingBuffer \<Rightarrow> RingBuffer" where
  "rb_free rb = rb\<lparr>rb_wrap_copy := None, rb_wrap_copy_capacity := 0\<rparr>"

text \<open>
  Access through \<^verbatim>\<open>rb.data + off\<close>: with a mirrored mapping the data area is followed by a
  second view of itself; otherwise the access must stay inside the area.
\<close>

definition rb_load :: "RingBuffer \<Rightarrow> nat \<Rightarrow> nat \<Rightarrow> u8 list option" where
  "rb_load rb off n =
     (if off + n \<le> (if rb_mirrored_mapping rb then 2 else 1) * length (rb_data rb)
      then Some (rd (rb_data rb) off n) else None)"

definition rb_store :: "RingBuffer \<Rightarrow> nat \<Rightarrow> u8 list \<Rightarrow> RingBuffer option" where
  "rb_store rb off bs =
     (if off + length bs \<le> (if rb_mirrored_mapping rb then 2 else 1) * length (rb_data rb)
      then Some (rb\<lparr>rb_data := wr (rb_data rb) off bs\<rparr>) else None)"

text \<open>
  \<open>alloc\<close> says whether \<^verbatim>\<open>posix_memalign\<close> succeeds. The result says whether a buffer is there.
  Its bytes are unspecified until copied to, so they are those of the old buffer or zero.
\<close>

definition ensure_wrap_copy_buffer :: "bool \<Rightarrow> RingBuffer \<Rightarrow> u64 \<Rightarrow> RingBuffer \<times> bool" where
  "ensure_wrap_copy_buffer alloc rb required_size = (
     if required_size = 0 then (rb, rb_wrap_copy rb \<noteq> None)
     else
       let aligned_size = align_up required_size kRingBufferAlignment in
       if rb_wrap_copy rb = None \<or> rb_wrap_copy_capacity rb < aligned_size then
         if \<not> alloc then (rb\<lparr>rb_wrap_copy := None, rb_wrap_copy_capacity := 0\<rparr>, False)
         else (rb\<lparr>rb_wrap_copy := Some (replicate (unat aligned_size) 0),
                 rb_wrap_copy_capacity := aligned_size\<rparr>, True)
       else (rb, True))"

text \<open>Copying to the start of the copy buffer, which has to be large enough.\<close>

definition wrap_copy_write :: "RingBuffer \<Rightarrow> u8 list \<Rightarrow> RingBuffer option" where
  "wrap_copy_write rb bs = (case rb_wrap_copy rb of
      Some dest \<Rightarrow> if length bs \<le> length dest
                    then Some (rb\<lparr>rb_wrap_copy := Some (bs @ drop (length bs) dest)\<rparr>) else None
    | None \<Rightarrow> None)"

text \<open>
  The two \<^verbatim>\<open>memcpy\<close> of a range that crosses the end of the area: \<open>n\<close> bytes from \<open>tail_linear\<close>,
  continued at the start.
\<close>

definition split_load :: "RingBuffer \<Rightarrow> u64 \<Rightarrow> u64 \<Rightarrow> u8 list option" where
  "split_load rb tail_linear n = (
     let first_chunk = rb_data_size rb - tail_linear in
     case (rb_load rb (unat tail_linear) (unat first_chunk), rb_load rb 0 (unat (n - first_chunk))) of
       (Some c1, Some c2) \<Rightarrow> Some (c1 @ c2)
     | _ \<Rightarrow> None)"

section \<open>Perf ring: writer\<close>

record PerfRingBufferWriter =
  pw_tail :: u64
  pw_initial_head :: u64
  pw_head :: u64

definition pw_init :: "RingBuffer \<Rightarrow> PerfRingBufferWriter" where
  "pw_init rb = \<lparr>pw_tail = rb_reader_pos rb, pw_initial_head = rb_writer_pos rb, pw_head = rb_writer_pos rb\<rparr>"

definition pw_available_size :: "RingBuffer \<Rightarrow> PerfRingBufferWriter \<Rightarrow> u64" where
  "pw_available_size rb w = rb_mask rb - (pw_head w - pw_tail w)"

definition pw_update_available :: "RingBuffer \<Rightarrow> PerfRingBufferWriter \<Rightarrow> PerfRingBufferWriter" where
  "pw_update_available rb w = w\<lparr>pw_tail := rb_reader_pos rb\<rparr>"

text \<open>A buffer is its offset in the data area and its size.\<close>

definition pw_reserve ::
    "RingBuffer \<Rightarrow> PerfRingBufferWriter \<Rightarrow> u64 \<Rightarrow> (u64 \<times> u64) option \<times> PerfRingBufferWriter" where
  "pw_reserve rb w n = (
     let n_aligned = align_up n kRingBufferAlignment in
     if n_aligned = 0 \<or> pw_available_size rb w < n_aligned then (None, w)
     else (Some (pw_head w AND rb_mask rb, n), w\<lparr>pw_head := pw_head w + n_aligned\<rparr>))"

definition pw_write ::
    "RingBuffer \<Rightarrow> PerfRingBufferWriter \<Rightarrow> u8 list \<Rightarrow> (RingBuffer \<times> PerfRingBufferWriter \<times> bool) option" where
  "pw_write rb w buf = (case pw_reserve rb w (of_nat (length buf)) of
      (None, w) \<Rightarrow> Some (rb, w, False)
    | (Some (dest, _), w) \<Rightarrow> map_option (\<lambda>rb. (rb, w, True)) (rb_store rb (unat dest) buf))"

definition pw_commit :: "RingBuffer \<Rightarrow> PerfRingBufferWriter \<Rightarrow> RingBuffer \<times> PerfRingBufferWriter \<times> bool" where
  "pw_commit rb w = (
     let rb = rb\<lparr>rb_writer_pos := pw_head w\<rparr>;
         w = pw_update_available rb w;
         consumer_has_caught_up = (pw_initial_head w \<le> pw_tail w)
     in (rb, w\<lparr>pw_initial_head := pw_head w\<rparr>, consumer_has_caught_up))"

definition pw_destroy :: "RingBuffer \<Rightarrow> PerfRingBufferWriter \<Rightarrow> RingBuffer" where
  "pw_destroy rb w = (if pw_initial_head w \<noteq> pw_head w then rb\<lparr>rb_writer_pos := pw_head w\<rparr> else rb)"

section \<open>Perf ring: reader\<close>

record PerfRingBufferReader =
  pr_head :: u64

definition pr_init :: "RingBuffer \<Rightarrow> PerfRingBufferReader" where
  "pr_init rb = \<lparr>pr_head = rb_writer_pos rb\<rparr>"

definition pr_available_size :: "RingBuffer \<Rightarrow> PerfRingBufferReader \<Rightarrow> u64" where
  "pr_available_size rb r = pr_head r - rb_intermediate_reader_pos rb"

text \<open>
  \<^verbatim>\<open>read_all_available\<close>: the outer option is an access outside the mapping, the inner one the
  empty buffer returned when the copy buffer cannot be allocated.
\<close>

definition pr_read_all_available ::
    "bool \<Rightarrow> RingBuffer \<Rightarrow> PerfRingBufferReader \<Rightarrow> (RingBuffer \<times> u8 list option) option" where
  "pr_read_all_available alloc rb r = (
     let current_tail = rb_intermediate_reader_pos rb;
         tail_linear = current_tail AND rb_mask rb;
         n = pr_head r - current_tail in
     if rb_mirrored_mapping rb \<or> tail_linear + n \<le> rb_data_size rb
     then map_option (\<lambda>bs. (rb\<lparr>rb_intermediate_reader_pos := pr_head r\<rparr>, Some bs))
            (rb_load rb (unat tail_linear) (unat n))
     else
       let (rb, ok) = ensure_wrap_copy_buffer alloc rb n in
       if \<not> ok then Some (rb, None)
       else
         case split_load rb tail_linear n of
           None \<Rightarrow> None
         | Some bs \<Rightarrow> map_option (\<lambda>rb. (rb\<lparr>rb_intermediate_reader_pos := pr_head r\<rparr>, Some bs))
                        (wrap_copy_write rb bs))"

definition pr_advance_by :: "RingBuffer \<Rightarrow> u64 \<Rightarrow> RingBuffer" where
  "pr_advance_by rb n = rb\<lparr>rb_reader_pos := rb_reader_pos rb + align_up n kRingBufferAlignment\<rparr>"

definition pr_advance :: "RingBuffer \<Rightarrow> RingBuffer" where
  "pr_advance rb = rb\<lparr>rb_reader_pos := rb_intermediate_reader_pos rb\<rparr>"

definition pr_destroy :: "RingBuffer \<Rightarrow> RingBuffer" where
  "pr_destroy rb = (if rb_reader_pos rb < rb_intermediate_reader_pos rb then pr_advance rb else rb)"

section \<open>Perf ring: one event at a time\<close>

definition perf_rb_has_inflight_events :: "RingBuffer \<Rightarrow> bool" where
  "perf_rb_has_inflight_events rb \<longleftrightarrow> rb_intermediate_reader_pos rb \<noteq> rb_reader_pos rb"

text \<open>\<^verbatim>\<open>perf_event_header\<close>: type (4 bytes), misc (2 bytes), size (2 bytes).\<close>

definition hdr_size :: "u8 list \<Rightarrow> nat" where
  "hdr_size hdr = le_nat (take 2 (drop 6 hdr))"

definition perf_rb_read_event :: "bool \<Rightarrow> RingBuffer \<Rightarrow> (RingBuffer \<times> u8 list option) option" where
  "perf_rb_read_event alloc rb = (
     let head = rb_writer_pos rb; tail = rb_intermediate_reader_pos rb in
     if tail = head then Some (rb, None)
     else
       let tail_linear = tail AND rb_mask rb;
           split_hdr = (\<not> rb_mirrored_mapping rb \<and> rb_data_size rb < tail_linear + 8);
           hdr = (if split_hdr then split_load rb tail_linear 8 else rb_load rb (unat tail_linear) 8) in
       case hdr of
         None \<Rightarrow> None
       | Some hdr \<Rightarrow>
           let sz_sample = of_nat (hdr_size hdr) :: u64;
               bytes_to_copy = max sz_sample 8;
               needs_copy = (split_hdr \<or> \<not> rb_mirrored_mapping rb \<and> rb_data_size rb < tail_linear + bytes_to_copy);
               next_pos = tail + align_up sz_sample kRingBufferAlignment in
           if \<not> needs_copy
           then map_option (\<lambda>ev. (rb\<lparr>rb_intermediate_reader_pos := next_pos\<rparr>, Some ev))
                  (rb_load rb (unat tail_linear) (unat bytes_to_copy))
           else
             let (rb, ok) = ensure_wrap_copy_buffer alloc rb bytes_to_copy in
             if \<not> ok then Some (rb, None)
             else case split_load rb tail_linear bytes_to_copy of
                 None \<Rightarrow> None
               | Some ev \<Rightarrow> map_option (\<lambda>rb. (rb\<lparr>rb_intermediate_reader_pos := next_pos\<rparr>, Some ev))
                              (wrap_copy_write rb ev))"

definition perf_rb_advance :: "RingBuffer \<Rightarrow> RingBuffer" where
  "perf_rb_advance rb = rb\<lparr>rb_reader_pos := rb_intermediate_reader_pos rb\<rparr>"

section \<open>Alignment: the contract of the comments\<close>

lemma unat_align_up:
  assumes k: "k < 64"
  shows "unat (align_up x (2 ^ k)) =
    (if x = 0 \<or> 2 ^ 64 - 2 ^ k < unat x then 0 else (unat x + 2 ^ k - 1) div 2 ^ k * 2 ^ k)"
proof (cases "x = 0")
  case True
  then show ?thesis by (simp add: align_up_def)
next
  case False
  define m where "m = unat x - 1"
  have "unat x \<noteq> 0" using False by (simp add: unsigned_eq_0_iff)
  then have x: "unat x = m + 1" by (simp add: m_def)
  have pow: "(2::nat) ^ 64 = 2 ^ (64 - k) * 2 ^ k" using k by (simp flip: power_add)
  have m: "m < 2 ^ 64" using u64_less[of x] x by linarith
  have "unat (x - 1) = m" using False by (simp add: m_def unat_minus_one)
  then have "unat (((x - 1) OR mask k) + 1) = (m div 2 ^ k * 2 ^ k + (2 ^ k - 1) + 1) mod 2 ^ 64"
    using k by (simp add: unat_word_ariths(1) unat_or_mask)
  also have "m div 2 ^ k * 2 ^ k + (2 ^ k - 1) + 1 = (m div 2 ^ k + 1) * 2 ^ k" by simp
  finally have up: "unat (align_up x (2 ^ k)) = ((m div 2 ^ k + 1) * 2 ^ k) mod 2 ^ 64"
    by (simp add: align_up_def mask_eq_exp_minus_1)
  show ?thesis
  proof (cases "2 ^ 64 - 2 ^ k \<le> m")
    case True
    have "m div 2 ^ k < 2 ^ (64 - k)" using m pow by (simp add: less_mult_imp_div_less)
    moreover have "(2 ^ (64 - k) - 1) * 2 ^ k \<le> m"
      using True by (simp only: pow diff_mult_distrib mult_1)
    then have "2 ^ (64 - k) - 1 \<le> m div 2 ^ k" by (simp only: less_eq_div_iff_mult_less_eq zero_less_power zero_less_numeral)
    ultimately have "m div 2 ^ k + 1 = 2 ^ (64 - k)" by linarith
    then show ?thesis using up pow True x by simp
  next
    case small: False
    have "m div 2 ^ k * 2 ^ k \<le> m" by simp
    then have "(m div 2 ^ k + 1) * 2 ^ k < 2 ^ 64" using small unfolding add_mult_distrib by linarith
    moreover have "(unat x + 2 ^ k - 1) div 2 ^ k = m div 2 ^ k + 1"
      using div_add_self2[of "2 ^ k" m] by (simp add: x)
    ultimately show ?thesis using up small False x by simp
  qed
qed

text \<open>The space taken by \<open>n\<close> bytes.\<close>

definition stride :: "nat \<Rightarrow> nat" where
  "stride n = (n + 7) div 8 * 8"

lemma stride_ge: "n \<le> stride n"
  unfolding stride_def by presburger

lemma stride_le: "stride n \<le> n + 7"
  unfolding stride_def by presburger

lemma dvd_stride: "8 dvd stride n"
  by (simp add: stride_def)

lemma align_up_stride:
  assumes "n \<le> 2 ^ 64 - 8"
  shows "align_up (of_nat n) kRingBufferAlignment = of_nat (stride n)"
proof -
  have n: "unat (of_nat n :: u64) = n" using assms by (intro unat_of_nat_u64) simp
  have "unat (align_up (of_nat n) 8) = stride n"
    using unat_align_up[of 3 "of_nat n"] assms n by (auto simp: stride_def)
  then show ?thesis
    by (metis kRingBufferAlignment_def of_nat_unat ucast_id)
qed

section \<open>Well-formed rings\<close>

text \<open>
  The data area is a power of two, the mask fits it, and the copy buffer has its capacity.
  The bound on \<open>k\<close> keeps sums of a linear offset and a size below the width of \<^verbatim>\<open>uint64_t\<close>.
\<close>

definition rb_wf :: "nat \<Rightarrow> RingBuffer \<Rightarrow> bool" where
  "rb_wf k rb \<longleftrightarrow> 3 \<le> k \<and> k \<le> 62 \<and> length (rb_data rb) = 2 ^ k \<and> rb_data_size rb = 2 ^ k \<and>
     rb_mask rb = 2 ^ k - 1 \<and>
     (case rb_wrap_copy rb of None \<Rightarrow> True | Some b \<Rightarrow> length b = unat (rb_wrap_copy_capacity rb))"

lemma rb_wf_cursors [simp]:
  "rb_wf k (rb\<lparr>rb_reader_pos := x\<rparr>) = rb_wf k rb"
  "rb_wf k (rb\<lparr>rb_writer_pos := x\<rparr>) = rb_wf k rb"
  "rb_wf k (rb\<lparr>rb_intermediate_reader_pos := x\<rparr>) = rb_wf k rb"
  by (simp_all add: rb_wf_def split: option.split)

lemma rb_wf_data [simp]: "length d = length (rb_data rb) \<Longrightarrow> rb_wf k (rb\<lparr>rb_data := d\<rparr>) = rb_wf k rb"
  by (simp add: rb_wf_def split: option.split)

lemma rb_wf_wrap_copy:
  "rb_wf k rb \<Longrightarrow> (\<forall>b. c = Some b \<longrightarrow> length b = unat n) \<Longrightarrow>
    rb_wf k (rb\<lparr>rb_wrap_copy := c, rb_wrap_copy_capacity := n\<rparr>)"
  by (simp add: rb_wf_def split: option.split)

lemma rb_wfD:
  assumes "rb_wf k rb"
  shows "3 \<le> k" "k \<le> 62" "length (rb_data rb) = 2 ^ k" "rb_data_size rb = 2 ^ k" "rb_mask rb = mask k"
    "unat (rb_data_size rb) = 2 ^ k" "unat (rb_mask rb) = 2 ^ k - 1" "(2::nat) ^ k \<le> 2 ^ 62" "(8::nat) \<le> 2 ^ k"
proof -
  show "3 \<le> k" "k \<le> 62" "length (rb_data rb) = 2 ^ k" and s: "rb_data_size rb = 2 ^ k" and m: "rb_mask rb = mask k"
    using assms by (auto simp: rb_wf_def mask_eq_exp_minus_1)
  then show "unat (rb_mask rb) = 2 ^ k - 1" by (simp add: unat_mask)
  show le: "(2::nat) ^ k \<le> 2 ^ 62" using \<open>k \<le> 62\<close> by (intro power_increasing) auto
  show "(8::nat) \<le> 2 ^ k" using power_increasing[OF \<open>3 \<le> k\<close>, of "2::nat"] by simp
  have "unat (of_nat (2 ^ k) :: u64) = 2 ^ k" by (rule unat_of_nat_u64) (use le in simp)
  then show "unat (rb_data_size rb) = 2 ^ k" using s by simp
qed

lemma pos_index: "k \<le> 64 \<Longrightarrow> unat (of_nat p AND mask k :: u64) = p mod 2 ^ k"
proof -
  assume "k \<le> 64"
  then have "(2::nat) ^ k dvd 2 ^ 64" by (rule le_imp_power_dvd)
  then show ?thesis unfolding unat_and_mask by (simp add: unat_of_nat mod_mod_cancel)
qed

lemma pos_diff: "r \<le> w \<Longrightarrow> w - r < 2 ^ 64 \<Longrightarrow> unat (of_nat w - of_nat r :: u64) = w - r"
  using unat_of_nat_u64[of "w - r"] by simp

text \<open>\<^verbatim>\<open>rb_init\<close> on a region sized by \<^verbatim>\<open>perf_mmap_size\<close> gives such a ring.\<close>

lemma rb_init_wf:
  assumes p: "3 \<le> p" and sh: "shift \<le> 31" and k: "p + shift \<le> 62" and d: "length data = 2 ^ (p + shift)"
  shows "rb_wf (p + shift) (rb_init (2 ^ p) rb meta data (perf_mmap_size (2 ^ p) shift) ty m)"
proof -
  have "(2::nat) ^ shift \<le> 2 ^ 31" using sh by (intro power_increasing) auto
  then have "unat (of_nat (2 ^ shift + 1) :: u32) = 2 ^ shift + 1"
    unfolding unat_of_nat by (intro mod_less) simp
  then have u: "unat (push_bit shift (1 :: u32) + 1) = 2 ^ shift + 1" by (simp add: push_bit_eq_mult add.commute)
  have "(ucast (push_bit shift (1 :: u32) + 1) :: u64) = of_nat (unat (push_bit shift (1 :: u32) + 1))"
    by (rule of_nat_unat[symmetric])
  then have "(ucast (push_bit shift (1 :: u32) + 1) :: u64) = 2 ^ shift + 1" by (simp only: u) simp
  then have "perf_mmap_size (2 ^ p) shift - 2 ^ p = 2 ^ (p + shift)"
    by (simp add: perf_mmap_size_def algebra_simps power_add)
  then show ?thesis
    using p k d by (cases ty) (simp_all add: rb_init_def rb_wf_def get_mask_from_size_def Let_def)
qed

text \<open>Access at a position of the stream.\<close>

lemma rb_load_pos:
  assumes wf: "rb_wf k rb" and "rb_mirrored_mapping rb \<or> p mod 2 ^ k + n \<le> 2 ^ k" and "n \<le> 2 ^ k"
  shows "rb_load rb (p mod 2 ^ k) n = Some (rd (rb_data rb) p n)"
proof -
  have "p mod 2 ^ k < 2 ^ k" by simp
  then have "p mod 2 ^ k + n \<le> 2 * 2 ^ k" using assms(3) by linarith
  then show ?thesis
    using assms rb_wfD(3)[OF wf] rd_mod[of "rb_data rb" p n] by (auto simp: rb_load_def)
qed

lemma split_load_pos:
  assumes wf: "rb_wf k rb" and cross: "2 ^ k < p mod 2 ^ k + n" and n: "n \<le> 2 ^ k"
  shows "split_load rb (of_nat p AND rb_mask rb) (of_nat n) = Some (rd (rb_data rb) p n)"
proof -
  note w = rb_wfD[OF wf]
  define t where "t = p mod 2 ^ k"
  define f where "f = 2 ^ k - t"
  have t: "t < 2 ^ k" by (simp add: t_def)
  have ut: "unat (of_nat p AND rb_mask rb) = t" using w by (simp add: pos_index t_def)
  have "of_nat p AND rb_mask rb \<le> rb_data_size rb" using t ut w by (simp add: word_le_nat_alt)
  then have uf: "unat (rb_data_size rb - (of_nat p AND rb_mask rb)) = f"
    using ut w by (simp add: unat_sub_u64 f_def)
  have un: "unat (of_nat n :: u64) = n" using n w by (intro unat_of_nat_u64) simp
  have "rb_data_size rb - (of_nat p AND rb_mask rb) \<le> of_nat n"
    unfolding word_le_nat_alt uf un f_def t_def using cross by linarith
  then have ud: "unat (of_nat n - (rb_data_size rb - (of_nat p AND rb_mask rb))) = n - f"
    using uf un by (simp add: unat_sub_u64)
  have "rd (rb_data rb) p n = rd (rb_data rb) t n"
    unfolding t_def using rd_mod[of "rb_data rb" p n] w(3) by simp
  also have "\<dots> = rd (rb_data rb) t f @ rd (rb_data rb) (t + f) (n - f)"
    using rd_append[of "rb_data rb" t f "n - f"] cross by (simp add: f_def t_def)
  also have "rd (rb_data rb) (t + f) (n - f) = rd (rb_data rb) 0 (n - f)"
    by (rule rd_cong) (use t w(3) in \<open>simp add: f_def\<close>)
  finally have "rd (rb_data rb) p n = rd (rb_data rb) t f @ rd (rb_data rb) 0 (n - f)" .
  moreover have "t + f \<le> 2 ^ k" "n - f \<le> 2 ^ k" using t n by (auto simp: f_def)
  ultimately show ?thesis
    using w(3) by (simp add: split_load_def Let_def ut uf ud rb_load_def)
qed

lemma split_load_wrap_copy:
  "split_load (rb\<lparr>rb_wrap_copy := c, rb_wrap_copy_capacity := m\<rparr>) t n = split_load rb t n"
  by (simp add: split_load_def rb_load_def Let_def)

lemma ensure_wrap_copy_buffer_cases:
  assumes wf: "rb_wf k rb" and n: "0 < n" "n \<le> 2 ^ k"
  shows "(\<exists>b. ensure_wrap_copy_buffer alloc rb (of_nat n) =
            (rb\<lparr>rb_wrap_copy := Some b, rb_wrap_copy_capacity := of_nat (length b)\<rparr>, True) \<and>
            n \<le> length b \<and> length b < 2 ^ 64) \<or>
    \<not> alloc \<and> ensure_wrap_copy_buffer alloc rb (of_nat n) =
      (rb\<lparr>rb_wrap_copy := None, rb_wrap_copy_capacity := 0\<rparr>, False)"
proof -
  note w = rb_wfD[OF wf]
  have un: "unat (of_nat n :: u64) = n" using n w by (intro unat_of_nat_u64) simp
  then have nz: "(of_nat n :: u64) \<noteq> 0" using n by auto
  have al: "align_up (of_nat n) kRingBufferAlignment = of_nat (stride n)"
    by (rule align_up_stride) (use n w in simp)
  have us: "unat (of_nat (stride n) :: u64) = stride n"
    by (rule unat_of_nat_u64) (use stride_le[of n] n w in simp)
  show ?thesis
  proof (cases "rb_wrap_copy rb = None \<or> rb_wrap_copy_capacity rb < of_nat (stride n)")
    case True
    then show ?thesis
      using nz stride_ge[of n] us u64_less[of "of_nat (stride n)"]
      by (cases alloc) (auto simp: ensure_wrap_copy_buffer_def al Let_def
          intro: exI[of _ "replicate (stride n) 0"])
  next
    case False
    then obtain b where b: "rb_wrap_copy rb = Some b" "of_nat (stride n) \<le> rb_wrap_copy_capacity rb" by auto
    then have l: "length b = unat (rb_wrap_copy_capacity rb)" using wf by (simp add: rb_wf_def)
    have rb: "rb = rb\<lparr>rb_wrap_copy := Some b, rb_wrap_copy_capacity := of_nat (length b)\<rparr>"
      using b(1) l by simp
    have "n \<le> length b" "length b < 2 ^ 64"
      using b(2) us l stride_ge[of n] u64_less[of "rb_wrap_copy_capacity rb"] by (auto simp: word_le_nat_alt)
    moreover have "ensure_wrap_copy_buffer alloc rb (of_nat n) = (rb, True)"
      using nz False by (auto simp: ensure_wrap_copy_buffer_def al Let_def)
    ultimately show ?thesis using rb by metis
  qed
qed

section \<open>The perf ring as a queue of events\<close>

text \<open>An event starts with its header, whose size field counts the whole event.\<close>

definition event_ok :: "u8 list \<Rightarrow> bool" where
  "event_ok e \<longleftrightarrow> 8 \<le> length e \<and> hdr_size e = length e"

fun events_at :: "u8 list \<Rightarrow> nat \<Rightarrow> u8 list list \<Rightarrow> nat \<Rightarrow> bool" where
  "events_at data p [] q \<longleftrightarrow> p = q"
| "events_at data p (e # es) q \<longleftrightarrow>
     event_ok e \<and> rd data p (length e) = e \<and> events_at data (p + stride (length e)) es q"

text \<open>
  The cursors are the positions \<open>r \<le> i \<le> w\<close> of the byte stream, reduced to 64 bits: the positions
  themselves may pass \<open>2 ^ 64\<close>. The events between \<open>i\<close> and \<open>w\<close> are still to be read.
\<close>

definition perf_at :: "nat \<Rightarrow> RingBuffer \<Rightarrow> nat \<Rightarrow> nat \<Rightarrow> nat \<Rightarrow> bool" where
  "perf_at k rb r i w \<longleftrightarrow> rb_wf k rb \<and> r \<le> i \<and> i \<le> w \<and> w - r < 2 ^ k \<and>
     rb_reader_pos rb = of_nat r \<and> rb_intermediate_reader_pos rb = of_nat i \<and> rb_writer_pos rb = of_nat w"

definition perf_queue :: "nat \<Rightarrow> RingBuffer \<Rightarrow> u8 list list \<Rightarrow> bool" where
  "perf_queue k rb q \<longleftrightarrow> (\<exists>r i w. perf_at k rb r i w \<and> events_at (rb_data rb) i q w)"

lemma events_at_le: "events_at data p es q \<Longrightarrow> p \<le> q"
  by (induction es arbitrary: p) force+

lemma hdr_size_take: "8 \<le> length e \<Longrightarrow> hdr_size (take 8 e) = hdr_size e"
  by (simp add: hdr_size_def drop_take)

lemma rd_prefix: "m \<le> n \<Longrightarrow> rd data p m = take m (rd data p n)"
  using rd_append[of data p m "n - m"] by simp

lemma hdr_size_at:
  assumes "event_ok e" "rd data p (length e) = e"
  shows "hdr_size (rd data p 8) = length e"
proof -
  have "rd data p 8 = take 8 e" using assms rd_prefix[of 8 "length e" data p] by (simp add: event_ok_def)
  then show ?thesis using assms(1) by (simp add: event_ok_def hdr_size_take)
qed

lemma wrap_copy_write_ok:
  assumes "length bs \<le> length b" "length b < 2 ^ 64"
  shows "wrap_copy_write (rb\<lparr>rb_wrap_copy := Some b, rb_wrap_copy_capacity := of_nat (length b)\<rparr>) bs =
    Some (rb\<lparr>rb_wrap_copy := Some (bs @ drop (length bs) b), rb_wrap_copy_capacity := of_nat (length b)\<rparr>)"
  using assms by (simp add: wrap_copy_write_def)

lemma pos_end_less:
  assumes wf: "rb_wf k rb" and "m \<le> 2 ^ k"
  shows "rb_data_size rb < (of_nat i AND rb_mask rb) + of_nat m \<longleftrightarrow> 2 ^ k < i mod 2 ^ k + m"
proof -
  note w = rb_wfD[OF wf]
  have "i mod 2 ^ k < 2 ^ k" by simp
  moreover have "(2::nat) ^ k + 2 ^ k < 2 ^ 64" using w(8) by simp
  ultimately have "i mod 2 ^ k + m < 2 ^ 64" using assms(2) by linarith
  then have "unat ((of_nat i AND rb_mask rb) + of_nat m) = i mod 2 ^ k + m"
    using w(1,2,5) unat_of_nat_u64[of m] by (subst unat_add_u64) (auto simp: pos_index)
  then show ?thesis using w by (simp add: word_less_nat_alt)
qed

lemma pos_neq: "i < w \<Longrightarrow> w - i < 2 ^ 64 \<Longrightarrow> (of_nat i :: u64) \<noteq> of_nat w"
  using pos_diff[of i w] by auto

lemma perf_rb_read_event_unfold:
  assumes wf: "rb_wf k rb" and iw: "i < w" "w - i < 2 ^ 64" and n: "8 \<le> n" "n < 2 ^ k"
    and pos: "rb_intermediate_reader_pos rb = of_nat i" "rb_writer_pos rb = of_nat w"
    and hs: "hdr_size (rd (rb_data rb) i 8) = n"
  shows "perf_rb_read_event alloc rb =
     (if rb_mirrored_mapping rb \<or> i mod 2 ^ k + n \<le> 2 ^ k
      then Some (rb\<lparr>rb_intermediate_reader_pos := of_nat (i + stride n)\<rparr>, Some (rd (rb_data rb) i n))
      else case ensure_wrap_copy_buffer alloc rb (of_nat n) of
             (rb', ok) \<Rightarrow>
           if \<not> ok then Some (rb', None)
           else case split_load rb' (of_nat i AND rb_mask rb) (of_nat n) of
                 None \<Rightarrow> None
               | Some ev \<Rightarrow> map_option (\<lambda>rb. (rb\<lparr>rb_intermediate_reader_pos := of_nat (i + stride n)\<rparr>, Some ev))
                              (wrap_copy_write rb' ev))"
proof -
  note w = rb_wfD[OF wf]
  have un: "unat (of_nat n :: u64) = n" using n w by (intro unat_of_nat_u64) simp
  have ut: "unat (of_nat i AND rb_mask rb) = i mod 2 ^ k" using w by (simp add: pos_index)
  have mx: "max (of_nat n) (8 :: u64) = of_nat n"
    using n un by (intro max_absorb1) (simp add: word_le_nat_alt)
  have al: "align_up (of_nat n) kRingBufferAlignment = of_nat (stride n)"
    by (rule align_up_stride) (use n w in simp)
  have sz: "rb_data_size rb < (of_nat i AND rb_mask rb) + 8 \<longleftrightarrow> 2 ^ k < i mod 2 ^ k + 8"
    using pos_end_less[OF wf, of 8 i] w by simp
  have nc: "rb_data_size rb < (of_nat i AND rb_mask rb) + of_nat n \<longleftrightarrow> 2 ^ k < i mod 2 ^ k + n"
    using pos_end_less[OF wf, of n i] n by simp
  have hdr: "(if \<not> rb_mirrored_mapping rb \<and> 2 ^ k < i mod 2 ^ k + 8
       then split_load rb (of_nat i AND rb_mask rb) 8 else rb_load rb (i mod 2 ^ k) 8) = Some (rd (rb_data rb) i 8)"
    using split_load_pos[OF wf, of i 8] rb_load_pos[OF wf, of i 8] w by auto
  have copy: "(\<not> rb_mirrored_mapping rb \<and> 2 ^ k < i mod 2 ^ k + 8 \<or> \<not> rb_mirrored_mapping rb \<and> 2 ^ k < i mod 2 ^ k + n)
      \<longleftrightarrow> \<not> (rb_mirrored_mapping rb \<or> i mod 2 ^ k + n \<le> 2 ^ k)"
    using n by auto
  show ?thesis
    unfolding perf_rb_read_event_def Let_def pos sz ut hdr option.case hs mx nc al un copy of_nat_add
    using pos_neq[OF iw] rb_load_pos[OF wf, of i n] n by simp
qed

text \<open>
  Reading one event: no access leaves the mapping, the event returned is the next one, whether or
  not it crosses the end of an area that is not mirrored, and only the read cursor and the
  copy buffer change. Where the copy buffer cannot be allocated nothing is lost.
\<close>

lemma perf_rb_read_event_cases:
  assumes at: "perf_at k rb r i w" and ev: "events_at (rb_data rb) i (e # es) w"
  shows "(\<exists>c n. perf_rb_read_event alloc rb = Some (rb\<lparr>rb_intermediate_reader_pos := of_nat (i + stride (length e)),
             rb_wrap_copy := c, rb_wrap_copy_capacity := n\<rparr>, Some e) \<and>
             (\<forall>b. c = Some b \<longrightarrow> length b = unat n)) \<or>
    \<not> alloc \<and> \<not> rb_mirrored_mapping rb \<and>
      perf_rb_read_event alloc rb = Some (rb\<lparr>rb_wrap_copy := None, rb_wrap_copy_capacity := 0\<rparr>, None)"
proof -
  from at have wf: "rb_wf k rb" and le: "i \<le> w" "r \<le> i" "w - r < 2 ^ k"
    and pos: "rb_intermediate_reader_pos rb = of_nat i" "rb_writer_pos rb = of_nat w"
    by (auto simp: perf_at_def)
  note wd = rb_wfD[OF wf]
  define n where "n = length e"
  from ev have e: "event_ok e" "rd (rb_data rb) i n = e" and st: "i + stride n \<le> w"
    by (auto simp: n_def dest: events_at_le)
  then have n: "8 \<le> n" "n < 2 ^ k" using le stride_ge[of n] by (auto simp: event_ok_def n_def)
  have hs: "hdr_size (rd (rb_data rb) i 8) = n" using e hdr_size_at by (simp add: n_def)
  have iw: "i < w" "w - i < 2 ^ 64" using st n stride_ge[of n] le wd by auto
  note unf = perf_rb_read_event_unfold[OF wf iw n pos hs, of alloc]
  show ?thesis
  proof (cases "rb_mirrored_mapping rb \<or> i mod 2 ^ k + n \<le> 2 ^ k")
    case True
    then have "perf_rb_read_event alloc rb = Some (rb\<lparr>rb_intermediate_reader_pos := of_nat (i + stride n)\<rparr>, Some e)"
      using unf e(2) by simp
    then show ?thesis using wf unfolding n_def[symmetric]
      by (intro disjI1 exI[of _ "rb_wrap_copy rb"] exI[of _ "rb_wrap_copy_capacity rb"]) (auto simp: rb_wf_def)
  next
    case False
    then have "split_load rb (of_nat i AND rb_mask rb) (of_nat n) = Some e"
      using split_load_pos[OF wf, of i n] n e(2) by simp
    then have sp: "split_load (rb\<lparr>rb_wrap_copy := c, rb_wrap_copy_capacity := m\<rparr>) (of_nat i AND rb_mask rb) (of_nat n) = Some e"
      for c m by (simp add: split_load_wrap_copy)
    have "0 < n" "n \<le> 2 ^ k" using n by auto
    from ensure_wrap_copy_buffer_cases[OF wf this, of alloc] show ?thesis
    proof (elim disjE exE conjE)
      fix b assume "ensure_wrap_copy_buffer alloc rb (of_nat n) =
            (rb\<lparr>rb_wrap_copy := Some b, rb_wrap_copy_capacity := of_nat (length b)\<rparr>, True)"
        and b: "n \<le> length b" "length b < 2 ^ 64"
      then show ?thesis
        using unf False sp wrap_copy_write_ok[of e b rb] unat_of_nat_u64[OF b(2)] unfolding n_def[symmetric]
        by (intro disjI1 exI[of _ "Some (e @ drop n b)"] exI[of _ "of_nat (length b)"]) (simp add: n_def[symmetric])
    next
      assume "\<not> alloc" "ensure_wrap_copy_buffer alloc rb (of_nat n) =
        (rb\<lparr>rb_wrap_copy := None, rb_wrap_copy_capacity := 0\<rparr>, False)"
      then show ?thesis using unf False by simp
    qed
  qed
qed

end
