(* ===== verification/Perf_Ring.thy ===== *)
theory Perf_Ring
  imports Ring_Buffer Interfaces
begin

text \<open>
  The single-writer perf ring as a concurrent system: a writer and a reader that take turns at the
  granularity of the operations of \<^verbatim>\<open>PerfRingBufferWriter\<close>, \<^verbatim>\<open>PerfRingBufferReader\<close> and
  \<^verbatim>\<open>perf_rb_read_event\<close> / \<^verbatim>\<open>perf_rb_advance\<close>. The writer works with its own, possibly stale, copy of
  the reader position. Every event written is read once, in order, unharmed.
\<close>

section \<open>Writing next to what is unread\<close>

lemma events_at_append:
  "events_at data p (a @ b) q \<longleftrightarrow> (\<exists>m. events_at data p a m \<and> events_at data m b q)"
  by (induction a arbitrary: p) auto

lemma events_at_wr:
  assumes "s \<le> p" "events_at data p es q" "q \<le> h" "h + length bs \<le> s + length data"
  shows "events_at (wr data h bs) p es q"
  using assms(1,2)
proof (induction es arbitrary: p)
  case (Cons e es)
  let ?n = "length e"
  from Cons.prems have e: "event_ok e" "rd data p ?n = e" and es: "events_at data (p + stride ?n) es q" by auto
  have "p + ?n \<le> h" using events_at_le[OF es] stride_ge[of ?n] assms(3) by simp
  then have "rd (wr data h bs) p ?n = rd data p ?n"
    by (intro rd_wr_disjoint[of s]) (use assms(4) Cons.prems(1) in auto)
  moreover have "events_at (wr data h bs) (p + stride ?n) es q"
    by (rule Cons.IH) (use Cons.prems(1) es in auto)
  ultimately show ?case using e by simp
qed simp

section \<open>The system\<close>

record perf_sys =
  ps_rb :: RingBuffer
  ps_writer :: PerfRingBufferWriter
  ps_produced :: "u8 list list"
  ps_consumed :: "u8 list list"

text \<open>
  \<open>ps_produced\<close> and \<open>ps_consumed\<close> are history variables: the events whose write returned true, and
  the events returned to the reader.
\<close>

inductive perf_step :: "perf_sys \<Rightarrow> perf_sys \<Rightarrow> bool" where
  do_write: "event_ok e \<Longrightarrow> pw_write (ps_rb s) (ps_writer s) e = Some (rb, w, ok) \<Longrightarrow>
    perf_step s (s\<lparr>ps_rb := rb, ps_writer := w,
                   ps_produced := ps_produced s @ (if ok then [e] else [])\<rparr>)"
| do_commit: "pw_commit (ps_rb s) (ps_writer s) = (rb, w, notify) \<Longrightarrow>
    perf_step s (s\<lparr>ps_rb := rb, ps_writer := w\<rparr>)"
| do_refresh: "perf_step s (s\<lparr>ps_writer := pw_update_available (ps_rb s) (ps_writer s)\<rparr>)"
| do_read: "perf_rb_read_event alloc (ps_rb s) = Some (rb, ev) \<Longrightarrow>
    perf_step s (s\<lparr>ps_rb := rb, ps_consumed := ps_consumed s @ (case ev of None \<Rightarrow> [] | Some e \<Rightarrow> [e])\<rparr>)"
| do_advance: "perf_step s (s\<lparr>ps_rb := perf_rb_advance (ps_rb s)\<rparr>)"

inductive perf_reachable :: "perf_sys \<Rightarrow> perf_sys \<Rightarrow> bool" for s0 where
  start: "perf_reachable s0 s0"
| step: "perf_reachable s0 s \<Longrightarrow> perf_step s s' \<Longrightarrow> perf_reachable s0 s'"

text \<open>
  The positions: the writer's copy \<open>t\<close> of the tail, the reader position \<open>r\<close>, the read cursor \<open>i\<close>, the
  committed head \<open>w\<close> and the writer's head \<open>h\<close>.
\<close>

definition perf_inv_at :: "nat \<Rightarrow> perf_sys \<Rightarrow> nat \<Rightarrow> nat \<Rightarrow> nat \<Rightarrow> nat \<Rightarrow> nat \<Rightarrow> u8 list list \<Rightarrow> u8 list list \<Rightarrow> bool" where
  "perf_inv_at k s t r i w h q u \<longleftrightarrow>
     perf_at k (ps_rb s) r i w \<and> t \<le> r \<and> w \<le> h \<and> h - t < 2 ^ k \<and>
     pw_tail (ps_writer s) = of_nat t \<and> pw_initial_head (ps_writer s) = of_nat w \<and> pw_head (ps_writer s) = of_nat h \<and>
     events_at (rb_data (ps_rb s)) i q w \<and> events_at (rb_data (ps_rb s)) w u h \<and>
     ps_produced s = ps_consumed s @ q @ u"

definition perf_inv :: "nat \<Rightarrow> perf_sys \<Rightarrow> bool" where
  "perf_inv k s \<longleftrightarrow> (\<exists>t r i w h q u. perf_inv_at k s t r i w h q u)"

lemma perf_invI: "perf_inv_at k s t r i w h q u \<Longrightarrow> perf_inv k s"
  unfolding perf_inv_def by blast

section \<open>Writing\<close>

lemma pw_reserve_cases:
  assumes wf: "rb_wf k rb" and th: "t \<le> h" "h - t < 2 ^ k" and n: "0 < n" "n \<le> 2 ^ 64 - 8"
    and pos: "pw_tail w = of_nat t" "pw_head w = of_nat h"
  shows "pw_reserve rb w (of_nat n) =
    (if stride n < 2 ^ k - (h - t) then (Some (of_nat h AND rb_mask rb, of_nat n), w\<lparr>pw_head := of_nat (h + stride n)\<rparr>)
     else (None, w))"
proof -
  note wd = rb_wfD[OF wf]
  have al: "align_up (of_nat n) kRingBufferAlignment = of_nat (stride n)" by (rule align_up_stride[OF n(2)])
  have "stride n < 2 ^ 64" using n(2) stride_le[of n] by simp
  then have us: "unat (of_nat (stride n) :: u64) = stride n" by (rule unat_of_nat_u64)
  then have nz: "(of_nat (stride n) :: u64) \<noteq> 0" using stride_ge[of n] n(1) by auto
  have ud: "unat (of_nat h - of_nat t :: u64) = h - t" by (rule pos_diff) (use th wd in auto)
  have "unat (rb_mask rb - (of_nat h - of_nat t)) = 2 ^ k - 1 - (h - t)"
    using ud wd th by (subst unat_sub_u64) (auto simp: word_le_nat_alt)
  then have "pw_available_size rb w < of_nat (stride n) \<longleftrightarrow> \<not> stride n < 2 ^ k - (h - t)"
    using us th(2) unfolding pw_available_size_def pos word_less_nat_alt by linarith
  then show ?thesis using nz by (simp add: pw_reserve_def Let_def al pos)
qed

lemma event_ok_length: "event_ok e \<Longrightarrow> length e < 2 ^ 16"
proof -
  assume "event_ok e"
  then obtain b0 b1 where "take 2 (drop 6 e) = [b0, b1]"
    by (cases "drop 6 e" rule: list.exhaust; cases "tl (drop 6 e)" rule: list.exhaust)
      (auto simp: event_ok_def numeral_2_eq_2 dest: arg_cong[of _ _ length])
  moreover have "unat b0 < 256" "unat b1 < 256" using unsigned_less[of b0] unsigned_less[of b1] by auto
  ultimately show ?thesis using \<open>event_ok e\<close> by (simp add: event_ok_def hdr_size_def le_nat_def)
qed

lemma pw_write_cases:
  assumes wf: "rb_wf k rb" and th: "t \<le> h" "h - t < 2 ^ k" and e: "event_ok e"
    and pos: "pw_tail w = of_nat t" "pw_head w = of_nat h"
    and res: "pw_write rb w e = Some (rb', w', ok)"
  shows "(ok \<and> h + stride (length e) - t < 2 ^ k \<and> rb' = rb\<lparr>rb_data := wr (rb_data rb) h e\<rparr> \<and>
           w' = w\<lparr>pw_head := of_nat (h + stride (length e))\<rparr>) \<or>
         (\<not> ok \<and> rb' = rb \<and> w' = w)"
proof -
  note wd = rb_wfD[OF wf]
  have n: "0 < length e" "length e \<le> 2 ^ 64 - 8" using e event_ok_length[OF e] by (auto simp: event_ok_def)
  have ix: "unat (of_nat h AND rb_mask rb) = h mod 2 ^ k" using wd by (simp add: pos_index)
  have "wr (rb_data rb) (h mod 2 ^ k) e = wr (rb_data rb) h e"
    using wr_mod[of "rb_data rb" h e] wd(3) by simp
  with pw_reserve_cases[OF wf th n pos] res th(1) ix show ?thesis
    by (auto simp: pw_write_def rb_store_def split: if_splits)
qed

lemma pw_write_mirrored:
  assumes "rb_wf k rb" "t \<le> h" "h - t < 2 ^ k" "event_ok e" "pw_tail w = of_nat t" "pw_head w = of_nat h"
    and mirrored: "rb_mirrored_mapping rb"
  shows "pw_write rb w e \<noteq> None"
proof -
  have n: "0 < length e" "length e \<le> 2 ^ 64 - 8"
    using assms(4) event_ok_length[OF assms(4)] by (auto simp: event_ok_def)
  have ix: "unat (of_nat h AND rb_mask rb) = h mod 2 ^ k" "h mod 2 ^ k < 2 ^ k"
    using rb_wfD[OF assms(1)] by (simp_all add: pos_index)
  have fits: "h mod 2 ^ k + length e \<le> 2 * 2 ^ k" if "stride (length e) < 2 ^ k - (h - t)"
    using that ix(2) stride_ge[of "length e"] by linarith
  show ?thesis
    using pw_reserve_cases[OF assms(1-3) n assms(5,6)] ix(1) fits mirrored rb_wfD(3)[OF assms(1)]
    by (auto simp: pw_write_def rb_store_def split: if_splits)
qed

section \<open>Every step keeps the invariant\<close>

lemma perf_write_inv:
  assumes inv: "perf_inv_at k s t r i w h q u" and e: "event_ok e"
    and res: "pw_write (ps_rb s) (ps_writer s) e = Some (rb, wr', ok)"
  shows "perf_inv k (s\<lparr>ps_rb := rb, ps_writer := wr', ps_produced := ps_produced s @ (if ok then [e] else [])\<rparr>)"
proof -
  let ?h = "h + stride (length e)" and ?data = "rb_data (ps_rb s)"
  from inv have wf: "rb_wf k (ps_rb s)" and le: "t \<le> r" "r \<le> i" "i \<le> w" "w \<le> h" "t \<le> h" "h - t < 2 ^ k"
    and pos: "pw_tail (ps_writer s) = of_nat t" "pw_head (ps_writer s) = of_nat h"
    by (auto simp: perf_inv_at_def perf_at_def)
  from pw_write_cases[OF wf le(5,6) e pos res] show ?thesis
  proof (elim disjE conjE)
    assume ok: "ok" "?h - t < 2 ^ k" "rb = (ps_rb s)\<lparr>rb_data := wr ?data h e\<rparr>"
      "wr' = (ps_writer s)\<lparr>pw_head := of_nat ?h\<rparr>"
    have len: "length ?data = 2 ^ k" by (rule rb_wfD(3)[OF wf])
    have fits: "h + length e \<le> i + length ?data" using ok(2) le stride_ge[of "length e"] len by linarith
    have "events_at (wr ?data h e) i q w"
      by (rule events_at_wr[of i]) (use inv le fits in \<open>auto simp: perf_inv_at_def\<close>)
    moreover have "events_at (wr ?data h e) w u h"
      by (rule events_at_wr[of i]) (use inv le fits in \<open>auto simp: perf_inv_at_def\<close>)
    moreover have "rd (wr ?data h e) h (length e) = e"
      by (rule rd_wr_same) (use fits ok(2) le len stride_ge[of "length e"] in linarith)
    ultimately have "events_at (wr ?data h e) i q w" "events_at (wr ?data h e) w (u @ [e]) ?h"
      using e by (auto simp: events_at_append intro!: exI[of _ h])
    then have "perf_inv_at k (s\<lparr>ps_rb := rb, ps_writer := wr', ps_produced := ps_produced s @ [e]\<rparr>) t r i w ?h q (u @ [e])"
      using inv ok by (auto simp: perf_inv_at_def perf_at_def)
    then show ?thesis using ok(1) perf_invI by simp
  next
    assume "\<not> ok" "rb = ps_rb s" "wr' = ps_writer s"
    then have "perf_inv_at k (s\<lparr>ps_rb := rb, ps_writer := wr', ps_produced := ps_produced s\<rparr>) t r i w h q u"
      using inv by (simp add: perf_inv_at_def)
    then show ?thesis using \<open>\<not> ok\<close> perf_invI by simp
  qed
qed

lemma perf_commit_inv:
  assumes inv: "perf_inv_at k s t r i w h q u" and res: "pw_commit (ps_rb s) (ps_writer s) = (rb, wr', notify)"
  shows "perf_inv k (s\<lparr>ps_rb := rb, ps_writer := wr'\<rparr>)"
proof -
  have "events_at (rb_data (ps_rb s)) i (q @ u) h" using inv by (auto simp: perf_inv_at_def events_at_append)
  then have "perf_inv_at k (s\<lparr>ps_rb := rb, ps_writer := wr'\<rparr>) r r i h h (q @ u) []"
    using inv res
    by (auto simp: perf_inv_at_def perf_at_def pw_commit_def Let_def pw_update_available_def)
  then show ?thesis by (rule perf_invI)
qed

lemma perf_read_inv:
  assumes inv: "perf_inv_at k s t r i w h q u" and res: "perf_rb_read_event alloc (ps_rb s) = Some (rb, ev)"
  shows "perf_inv k (s\<lparr>ps_rb := rb, ps_consumed := ps_consumed s @ (case ev of None \<Rightarrow> [] | Some e \<Rightarrow> [e])\<rparr>)"
    (is "perf_inv k ?s'")
proof (cases q)
  case Nil
  then have "perf_rb_read_event alloc (ps_rb s) = Some (ps_rb s, None)"
    using inv by (simp add: perf_inv_at_def perf_at_def perf_rb_read_event_def)
  then have "perf_inv_at k ?s' t r i w h q u" using inv res by (simp add: perf_inv_at_def)
  then show ?thesis by (rule perf_invI)
next
  case (Cons e es)
  have at: "perf_at k (ps_rb s) r i w" and ev: "events_at (rb_data (ps_rb s)) i (e # es) w"
    using inv Cons by (auto simp: perf_inv_at_def)
  have le: "i + stride (length e) \<le> w" using ev events_at_le by auto
  from perf_rb_read_event_cases[OF at ev, of alloc] show ?thesis
  proof (elim disjE exE conjE)
    fix c n assume "perf_rb_read_event alloc (ps_rb s) = Some ((ps_rb s)\<lparr>rb_intermediate_reader_pos := of_nat (i + stride (length e)),
             rb_wrap_copy := c, rb_wrap_copy_capacity := n\<rparr>, Some e)" and "\<forall>b. c = Some b \<longrightarrow> length b = unat n"
    then have "perf_inv_at k ?s' t r (i + stride (length e)) w h es u"
      using inv Cons res le by (auto simp: perf_inv_at_def perf_at_def rb_wf_wrap_copy split: option.split)
    then show ?thesis by (rule perf_invI)
  next
    assume "perf_rb_read_event alloc (ps_rb s) = Some ((ps_rb s)\<lparr>rb_wrap_copy := None, rb_wrap_copy_capacity := 0\<rparr>, None)"
    then have "perf_inv_at k ?s' t r i w h q u"
      using inv Cons res by (auto simp: perf_inv_at_def perf_at_def rb_wf_wrap_copy)
    then show ?thesis by (rule perf_invI)
  qed
qed

lemma perf_step_inv: "perf_step s s' \<Longrightarrow> perf_inv k s \<Longrightarrow> perf_inv k s'"
proof (induction rule: perf_step.induct)
  case (do_write e s rb w ok)
  then show ?case unfolding perf_inv_def[of k s] by (blast intro: perf_write_inv)
next
  case (do_commit s rb w notify)
  then show ?case unfolding perf_inv_def[of k s] by (blast intro: perf_commit_inv)
next
  case (do_refresh s)
  then obtain t r i w h q u where "perf_inv_at k s t r i w h q u" by (auto simp: perf_inv_def)
  then have "perf_inv_at k (s\<lparr>ps_writer := pw_update_available (ps_rb s) (ps_writer s)\<rparr>) r r i w h q u"
    by (auto simp: perf_inv_at_def perf_at_def pw_update_available_def)
  then show ?case by (rule perf_invI)
next
  case (do_read alloc s rb ev)
  then show ?case unfolding perf_inv_def[of k s] by (blast intro: perf_read_inv)
next
  case (do_advance s)
  then obtain t r i w h q u where "perf_inv_at k s t r i w h q u" by (auto simp: perf_inv_def)
  then have "perf_inv_at k (s\<lparr>ps_rb := perf_rb_advance (ps_rb s)\<rparr>) t i i w h q u"
    by (auto simp: perf_inv_at_def perf_at_def perf_rb_advance_def)
  then show ?case by (rule perf_invI)
qed

lemma perf_reachable_inv: "perf_reachable s0 s \<Longrightarrow> perf_inv k s0 \<Longrightarrow> perf_inv k s"
  by (induction rule: perf_reachable.induct) (auto intro: perf_step_inv)

section \<open>Properties\<close>

text \<open>A ring just set up by \<^verbatim>\<open>rb_init\<close> on fresh pages, with a writer attached.\<close>

definition perf_start :: "nat \<Rightarrow> nat \<Rightarrow> RingBuffer \<Rightarrow> meta_page \<Rightarrow> u8 list \<Rightarrow> bool \<Rightarrow> perf_sys" where
  "perf_start p shift rb0 meta data mirrored = (
     let rb = rb_init (2 ^ p) rb0 meta data (perf_mmap_size (2 ^ p) shift) kPerfRingBuffer mirrored
     in \<lparr>ps_rb = rb, ps_writer = pw_init rb, ps_produced = [], ps_consumed = []\<rparr>)"

definition perf_start_ok :: "nat \<Rightarrow> nat \<Rightarrow> meta_page \<Rightarrow> u8 list \<Rightarrow> bool" where
  "perf_start_ok p shift meta data \<longleftrightarrow> 3 \<le> p \<and> shift \<le> 31 \<and> p + shift \<le> 62 \<and>
     length data = 2 ^ (p + shift) \<and> mp_reader_pos meta = mp_writer_pos meta"

lemma perf_start_inv:
  assumes "perf_start_ok p shift meta data"
  shows "perf_inv (p + shift) (perf_start p shift rb0 meta data mirrored)"
proof -
  let ?rb = "rb_init (2 ^ p) rb0 meta data (perf_mmap_size (2 ^ p) shift) kPerfRingBuffer mirrored"
  have wf: "rb_wf (p + shift) ?rb" using assms by (intro rb_init_wf) (auto simp: perf_start_ok_def)
  let ?i = "unat (mp_writer_pos meta)"
  have "perf_inv_at (p + shift) (perf_start p shift rb0 meta data mirrored) ?i ?i ?i ?i ?i [] []"
    using wf assms
    by (auto simp: perf_inv_at_def perf_at_def perf_start_def perf_start_ok_def pw_init_def rb_init_def Let_def)
  then show ?thesis by (rule perf_invI)
qed

lemma events_at_self: "events_at data p es p \<Longrightarrow> es = []"
proof (cases es)
  case (Cons e es')
  assume "events_at data p es p"
  with Cons have "event_ok e" "p + stride (length e) \<le> p" by (auto dest: events_at_le)
  then show ?thesis using stride_ge[of "length e"] by (simp add: event_ok_def)
qed simp

lemma perf_inv_safe:
  assumes "perf_inv k s"
  shows "perf_rb_read_event alloc (ps_rb s) \<noteq> None"
    and "rb_mirrored_mapping (ps_rb s) \<Longrightarrow> event_ok e \<Longrightarrow> pw_write (ps_rb s) (ps_writer s) e \<noteq> None"
proof -
  from assms obtain t r i w h q u where inv: "perf_inv_at k s t r i w h q u" by (auto simp: perf_inv_def)
  then have at: "perf_at k (ps_rb s) r i w" and q: "events_at (rb_data (ps_rb s)) i q w" by (auto simp: perf_inv_at_def)
  show "perf_rb_read_event alloc (ps_rb s) \<noteq> None"
  proof (cases q)
    case Nil
    then show ?thesis using at q by (simp add: perf_at_def perf_rb_read_event_def)
  next
    case (Cons e es)
    with q perf_rb_read_event_cases[OF at, of e es alloc] show ?thesis by auto
  qed
  assume "rb_mirrored_mapping (ps_rb s)" "event_ok e"
  then show "pw_write (ps_rb s) (ps_writer s) e \<noteq> None"
    using inv by (intro pw_write_mirrored[of k _ t h]) (auto simp: perf_inv_at_def perf_at_def)
qed

text \<open>An example: 32 bytes of data, positions that start 8 bytes below \<open>2 ^ 64\<close>, and a 16-byte event
  across the end of the area.\<close>

definition perf_ex_rb0 :: RingBuffer where
  "perf_ex_rb0 = \<lparr>rb_type = kPerfRingBuffer, rb_mask = 0, rb_meta_size = 0, rb_data_size = 0, rb_data = [],
     rb_mirrored_mapping = False, rb_writer_pos = 0, rb_reader_pos = 0, rb_intermediate_reader_pos = 0,
     rb_time_zero = 0, rb_time_mult = 0, rb_time_shift = 0, rb_perf_clock_source = 0, rb_tsc_available = False,
     rb_wrap_copy = None, rb_wrap_copy_capacity = 0\<rparr>"

definition perf_ex_meta :: meta_page where
  "perf_ex_meta = \<lparr>mp_reader_pos = - 8, mp_writer_pos = - 8, mp_perf_clock_source = 0, mp_time_mult = 0,
     mp_time_shift = 0, mp_time_zero = 0, mp_tsc_available = False\<rparr>"

definition perf_ex_event :: "u8 list" where
  "perf_ex_event = [9, 0, 0, 0, 0, 0, 16, 0, 1, 2, 3, 4, 5, 6, 7, 8]"

definition perf_ex_start :: perf_sys where
  "perf_ex_start = perf_start 3 2 perf_ex_rb0 perf_ex_meta (replicate 32 0) True"

lemmas perf_ex_defs = perf_ex_rb0_def perf_ex_meta_def perf_ex_event_def perf_ex_start_def perf_start_def rb_init_def perf_mmap_size_def
  get_mask_from_size_def pw_init_def pw_write_def pw_reserve_def pw_available_size_def align_up_def
  kRingBufferAlignment_def rb_store_def Let_def

lemma perf_ex_write: "\<exists>rb w. pw_write (ps_rb perf_ex_start) (ps_writer perf_ex_start) perf_ex_event = Some (rb, w, True)"
  by (simp add: perf_ex_defs)

lemma perf_ex_event_ok: "event_ok perf_ex_event"
  by (simp add: event_ok_def perf_ex_event_def hdr_size_def le_nat_def)

lemma perf_ex_reach: "\<exists>s. perf_reachable perf_ex_start s \<and> ps_produced s = [perf_ex_event] \<and> ps_consumed s = [] \<and>
   pw_head (ps_writer s) = rb_writer_pos (ps_rb s)"
proof -
  obtain rb w where w: "pw_write (ps_rb perf_ex_start) (ps_writer perf_ex_start) perf_ex_event = Some (rb, w, True)"
    using perf_ex_write by blast
  let ?s1 = "perf_ex_start\<lparr>ps_rb := rb, ps_writer := w, ps_produced := ps_produced perf_ex_start @ [perf_ex_event]\<rparr>"
  obtain rb2 w2 n where c: "pw_commit rb w = (rb2, w2, n)" by (metis prod_cases3)
  have "perf_reachable perf_ex_start ?s1"
    using perf_step.do_write[OF perf_ex_event_ok w] by (auto intro: perf_reachable.intros)
  moreover have "perf_step ?s1 (?s1\<lparr>ps_rb := rb2, ps_writer := w2\<rparr>)"
    by (rule perf_step.do_commit) (use c in simp)
  ultimately have "perf_reachable perf_ex_start (?s1\<lparr>ps_rb := rb2, ps_writer := w2\<rparr>)" by (rule perf_reachable.step)
  moreover have "pw_head w2 = rb_writer_pos rb2" using c by (auto simp: pw_commit_def Let_def pw_update_available_def)
  ultimately show ?thesis by (intro exI conjI) (auto simp: perf_ex_start_def perf_start_def Let_def)
qed

lemma perf_ex_start_ok: "perf_start_ok 3 2 perf_ex_meta (replicate 32 0)"
  by (simp add: perf_start_ok_def perf_ex_meta_def)

text \<open>C4. Single-writer ring: for every interleaving of writes, commits, reads and advances on a ring
  set up by \<^verbatim>\<open>rb_init\<close>, the events returned to the reader are a prefix of the events whose write
  succeeded: nothing is lost, duplicated, reordered or overwritten, also when the positions pass
  \<open>2 ^ 64\<close>; reading never leaves the mapped area, and on a mirrored mapping neither does writing.\<close>

theorem perf_ring_fifo:
  assumes "perf_start_ok p shift meta data"
    and "perf_reachable (perf_start p shift rb0 meta data mirrored) s"
  shows "(\<exists>rest. ps_produced s = ps_consumed s @ rest) \<and>
    (\<forall>alloc. perf_rb_read_event alloc (ps_rb s) \<noteq> None) \<and>
    (\<forall>e. rb_mirrored_mapping (ps_rb s) \<longrightarrow> event_ok e \<longrightarrow> pw_write (ps_rb s) (ps_writer s) e \<noteq> None)"
proof -
  have inv: "perf_inv (p + shift) s"
    by (rule perf_reachable_inv[OF assms(2) perf_start_inv[OF assms(1)]])
  then have "\<exists>rest. ps_produced s = ps_consumed s @ rest" by (auto simp: perf_inv_def perf_inv_at_def)
  then show ?thesis using perf_inv_safe[OF inv] by blast
qed

theorem perf_ring_fifo_witness:
  "\<exists>s. perf_reachable perf_ex_start s \<and> ps_produced s = [perf_ex_event] \<and>
     (\<forall>alloc. perf_rb_read_event alloc (ps_rb s) \<noteq> None) \<and> (\<exists>rest. ps_produced s = ps_consumed s @ rest)"
proof -
  obtain s where s: "perf_reachable perf_ex_start s" "ps_produced s = [perf_ex_event]"
    using perf_ex_reach by blast
  then show ?thesis
    using perf_ring_fifo[OF perf_ex_start_ok s(1)[unfolded perf_ex_start_def]] by blast
qed

lemma read_all_bytes:
  assumes "perf_at k rb r i w" and "pr_head rd' = of_nat w"
  shows "\<exists>rb'. pr_read_all_available alloc rb rd' = Some rb' \<and>
    (snd rb' = Some (rd (rb_data rb) i (w - i)) \<and> perf_at k (fst rb') r w w \<and> rb_data (fst rb') = rb_data rb \<or>
     snd rb' = None \<and> \<not> alloc \<and> \<not> rb_mirrored_mapping rb \<and> perf_at k (fst rb') r i w)"
proof -
  from assms(1) have wf: "rb_wf k rb" and le: "i \<le> w" "w - i < 2 ^ k"
    and pos: "rb_intermediate_reader_pos rb = of_nat i" by (auto simp: perf_at_def)
  note wd = rb_wfD[OF wf]
  define n where "n = w - i"
  have n: "of_nat w - of_nat i = (of_nat n :: u64)" "n \<le> 2 ^ k" "n < 2 ^ 64" using le wd by (auto simp: n_def)
  have ix: "unat (of_nat i AND rb_mask rb) = i mod 2 ^ k" using wd by (simp add: pos_index)
  have fit: "(of_nat i AND rb_mask rb) + of_nat n \<le> rb_data_size rb \<longleftrightarrow> i mod 2 ^ k + n \<le> 2 ^ k"
    using pos_end_less[OF wf n(2), of i] by (simp add: linorder_not_less[symmetric])
  note unf = pr_read_all_available_def[of alloc rb rd', unfolded Let_def assms(2) pos n(1) fit ix unat_of_nat_u64[OF n(3)]]
  show ?thesis
  proof (cases "rb_mirrored_mapping rb \<or> i mod 2 ^ k + n \<le> 2 ^ k")
    case True
    then show ?thesis
      using unf rb_load_pos[OF wf, of i n] n(2) assms(1) by (auto simp: perf_at_def n_def)
  next
    case False
    moreover have "i mod 2 ^ k < 2 ^ k" by simp
    ultimately have "0 < n" by linarith
    have sp: "split_load rb (of_nat i AND rb_mask rb) (of_nat n) = Some (rd (rb_data rb) i n)"
      using split_load_pos[OF wf, of i n] n False by simp
    from ensure_wrap_copy_buffer_cases[OF wf \<open>0 < n\<close> n(2), of alloc] show ?thesis
    proof (elim disjE exE conjE)
      fix b assume "ensure_wrap_copy_buffer alloc rb (of_nat n) =
            (rb\<lparr>rb_wrap_copy := Some b, rb_wrap_copy_capacity := of_nat (length b)\<rparr>, True)"
        and b: "n \<le> length b" "length b < 2 ^ 64"
      then show ?thesis
        using unf False sp wrap_copy_write_ok[of "rd (rb_data rb) i n" b rb] assms(1) unat_of_nat_u64[OF b(2)]
        by (auto simp: perf_at_def n_def split_load_wrap_copy rb_wf_wrap_copy)
    next
      assume "\<not> alloc" "ensure_wrap_copy_buffer alloc rb (of_nat n) =
        (rb\<lparr>rb_wrap_copy := None, rb_wrap_copy_capacity := 0\<rparr>, False)"
      then show ?thesis using unf False assms(1) by (auto simp: perf_at_def rb_wf_wrap_copy)
    qed
  qed
qed

text \<open>C32. \<^verbatim>\<open>read_all_available\<close> returns exactly the bytes between the read cursor and the head, in stream
  order, for every kind of mapping, and moves the read cursor to the head; without memory for the
  copy it returns nothing and leaves the cursors alone.\<close>

theorem read_all_available_bytes:
  assumes "perf_at k rb r i w" and "pr_head rd' = of_nat w"
  shows "\<exists>rb'. pr_read_all_available alloc rb rd' = Some rb' \<and>
    (snd rb' = Some (rd (rb_data rb) i (w - i)) \<and> perf_at k (fst rb') r w w \<and> rb_data (fst rb') = rb_data rb \<or>
     snd rb' = None \<and> \<not> alloc \<and> \<not> rb_mirrored_mapping rb \<and> perf_at k (fst rb') r i w)"
  using assms by (rule read_all_bytes)

definition read_all_ex :: RingBuffer where
  "read_all_ex = perf_ex_rb0\<lparr>rb_mask := 31, rb_data_size := 32, rb_data := map of_nat [0..<32],
     rb_reader_pos := 24, rb_intermediate_reader_pos := 24, rb_writer_pos := 40\<rparr>"

theorem read_all_available_bytes_witness:
  "\<exists>rb. pr_read_all_available True read_all_ex (pr_init read_all_ex) =
     Some (rb, Some [24, 25, 26, 27, 28, 29, 30, 31, 0, 1, 2, 3, 4, 5, 6, 7])"
proof -
  have "perf_at 5 read_all_ex 24 24 40"
    by (simp add: perf_at_def rb_wf_def read_all_ex_def perf_ex_rb0_def)
  moreover have "pr_head (pr_init read_all_ex) = of_nat 40" by (simp add: pr_init_def read_all_ex_def)
  moreover have "rd (rb_data read_all_ex) 24 (40 - 24) = [24, 25, 26, 27, 28, 29, 30, 31, 0, 1, 2, 3, 4, 5, 6, 7]"
    by (simp add: rd_def read_all_ex_def upt_rec)
  ultimately show ?thesis
    using read_all_available_bytes[of 5 read_all_ex 24 24 40 "pr_init read_all_ex" True] by auto
qed

section \<open>The perf ring as a source of events\<close>

lemma perf_queueI: "perf_at k rb r i w \<Longrightarrow> events_at (rb_data rb) i q w \<Longrightarrow> perf_queue k rb q"
  unfolding perf_queue_def by blast

lemma perf_queue_next:
  assumes "perf_queue k rb (e # q)"
  shows "\<exists>rb'. perf_rb_read_event True rb = Some (rb', Some e) \<and> perf_queue k rb' q"
proof -
  from assms obtain r i w where at: "perf_at k rb r i w" and ev: "events_at (rb_data rb) i (e # q) w"
    by (auto simp: perf_queue_def)
  then have le: "i + stride (length e) \<le> w" using events_at_le by auto
  from perf_rb_read_event_cases[OF at ev, of True] obtain c n where
    read: "perf_rb_read_event True rb = Some (rb\<lparr>rb_intermediate_reader_pos := of_nat (i + stride (length e)),
       rb_wrap_copy := c, rb_wrap_copy_capacity := n\<rparr>, Some e)"
      (is "_ = Some (?rb, _)") and c: "\<forall>b. c = Some b \<longrightarrow> length b = unat n" by auto
  have "perf_at k ?rb r (i + stride (length e)) w" "events_at (rb_data ?rb) (i + stride (length e)) q w"
    using at ev c le by (auto simp: perf_at_def rb_wf_wrap_copy)
  with read show ?thesis using perf_queueI by blast
qed

interpretation perf_source: event_source "perf_queue k" "perf_rb_read_event True" for k
proof unfold_locales
  show "\<exists>rb'. perf_rb_read_event True rb = Some (rb', None) \<and> perf_queue k rb' []" if "perf_queue k rb []" for rb
  proof -
    have "perf_rb_read_event True rb = Some (rb, None)"
      using that by (auto simp: perf_queue_def perf_at_def perf_rb_read_event_def)
    then show ?thesis using that by blast
  qed
qed (rule perf_queue_next)



end
