(* ===== verification/Mpsc_Ring.thy ===== *)
theory Mpsc_Ring
  imports Ring_Buffer Interfaces
begin

text \<open>
  The multi-producer ring of \<^verbatim>\<open>src/include/ringbuffer_utils.hpp\<close>: a producer reserves an entry (a
  header followed by its bytes) under the spin lock, fills it without the lock and commits or
  discards it through two bits of the header; the single consumer reads entries in the order
  of reservation and stops at a busy one. This theory holds the operations and the layout of
  the entries in memory; \<open>Mpsc_System\<close> holds the interleavings.
\<close>

section \<open>Headers\<close>

definition k_discard_bit :: u64 where "k_discard_bit = 2 ^ 62"

definition k_busy_bit :: u64 where "k_busy_bit = 2 ^ 63"

definition is_busy :: "u64 \<Rightarrow> bool" where
  "is_busy size' \<longleftrightarrow> size' AND k_busy_bit \<noteq> 0"

definition is_discarded :: "u64 \<Rightarrow> bool" where
  "is_discarded size' \<longleftrightarrow> size' AND k_discard_bit \<noteq> 0"

definition get_size :: "u64 \<Rightarrow> u64" where
  "get_size size' = size' AND NOT k_discard_bit"

definition set_discarded :: "u64 \<Rightarrow> u64" where
  "set_discarded size' = size' OR k_discard_bit"

text \<open>A header in memory.\<close>

definition load_hdr :: "RingBuffer \<Rightarrow> u64 \<Rightarrow> u64 option" where
  "load_hdr rb off = map_option (\<lambda>bs. of_nat (le_nat bs)) (rb_load rb (unat off) 8)"

definition store_hdr :: "RingBuffer \<Rightarrow> u64 \<Rightarrow> u64 \<Rightarrow> RingBuffer option" where
  "store_hdr rb off size' = rb_store rb (unat off) (le_bytes 8 (unat size'))"

section \<open>Producer\<close>

record MPSCRingBufferWriter =
  mw_tail :: u64
  mw_high_priority_area_size :: u64

definition mw_init :: "RingBuffer \<Rightarrow> u64 \<Rightarrow> MPSCRingBufferWriter" where
  "mw_init rb high_priority_area_size =
     \<lparr>mw_tail = rb_reader_pos rb, mw_high_priority_area_size = high_priority_area_size\<rparr>"

definition mw_update_tail :: "RingBuffer \<Rightarrow> MPSCRingBufferWriter \<Rightarrow> MPSCRingBufferWriter" where
  "mw_update_tail rb w = w\<lparr>mw_tail := rb_reader_pos rb\<rparr>"

text \<open>
  The result of \<^verbatim>\<open>reserve\<close>: the ring, the buffer (offset and size) and the time-out flag. \<open>lock\<close> says
  whether the lock was taken before the time-out. \<^term>\<open>None\<close> is a store outside the mapping.
\<close>

definition mw_reserve ::
    "bool \<Rightarrow> RingBuffer \<Rightarrow> MPSCRingBufferWriter \<Rightarrow> u64 \<Rightarrow> bool \<Rightarrow> (RingBuffer \<times> (u64 \<times> u64) option \<times> bool) option" where
  "mw_reserve lock rb w n high_priority = (
     let n2 = align_up (n + 8) kRingBufferAlignment in
     if n2 = 0 then Some (rb, None, False)
     else if \<not> lock then Some (rb, None, True)
     else
       let writer_pos = rb_writer_pos rb;
           new_writer_pos = writer_pos + n2;
           adjusted_writer_pos = (if high_priority then new_writer_pos
                                  else new_writer_pos + mw_high_priority_area_size w) in
       if rb_mask rb < adjusted_writer_pos - mw_tail w then Some (rb, None, False)
       else
         let head_linear = writer_pos AND rb_mask rb in
         map_option (\<lambda>rb. (rb\<lparr>rb_writer_pos := new_writer_pos\<rparr>, Some (head_linear + 8, n), False))
           (store_hdr rb head_linear (n OR k_busy_bit)))"

definition mw_commit_internal ::
    "RingBuffer \<Rightarrow> MPSCRingBufferWriter \<Rightarrow> u64 \<times> u64 \<Rightarrow> bool \<Rightarrow> (RingBuffer \<times> MPSCRingBufferWriter \<times> bool) option" where
  "mw_commit_internal rb w buf discard = (
     let hdr = fst buf - 8 in
     case load_hdr rb hdr of
       None \<Rightarrow> None
     | Some sz \<Rightarrow>
         let new_size = sz XOR k_busy_bit;
             new_size = (if discard then new_size OR k_discard_bit else new_size) in
         map_option (\<lambda>rb. let w = mw_update_tail rb w; tail_linear = mw_tail w AND rb_mask rb
                          in (rb, w, tail_linear = hdr))
           (store_hdr rb hdr new_size))"

definition mw_commit where "mw_commit rb w buf = mw_commit_internal rb w buf False"

definition mw_discard where "mw_discard rb w buf = mw_commit_internal rb w buf True"

section \<open>Consumer\<close>

text \<open>
  The loops stop only if they reach the head, a busy entry, or an entry that is not discarded:
  \<^term>\<open>None\<close> is a loop that does not end or an access outside the mapping.
\<close>

partial_function (option) mpsc_rb_read_sample_to ::
    "u64 \<Rightarrow> RingBuffer \<Rightarrow> (RingBuffer \<times> (u64 \<times> u64) option) option" where
  "mpsc_rb_read_sample_to head rb = (
     let tail = rb_intermediate_reader_pos rb in
     if head = tail then Some (rb, None)
     else
       let tail_linear = tail AND rb_mask rb in
       case load_hdr rb tail_linear of
         None \<Rightarrow> None
       | Some sz \<Rightarrow>
           if is_busy sz then Some (rb, None)
           else
             let rb = rb\<lparr>rb_intermediate_reader_pos := rb_intermediate_reader_pos rb +
                         align_up ((sz AND NOT k_discard_bit) + 8) kRingBufferAlignment\<rparr> in
             if is_discarded sz then mpsc_rb_read_sample_to head rb
             else Some (rb, Some (tail_linear + 8, sz)))"

definition mpsc_rb_read_sample :: "RingBuffer \<Rightarrow> (RingBuffer \<times> (u64 \<times> u64) option) option" where
  "mpsc_rb_read_sample rb = mpsc_rb_read_sample_to (rb_writer_pos rb) rb"

definition mpsc_rb_read_event :: "RingBuffer \<Rightarrow> (RingBuffer \<times> u64 option) option" where
  "mpsc_rb_read_event rb = map_option (apsnd (map_option fst)) (mpsc_rb_read_sample rb)"

partial_function (option) mpsc_advance_tail :: "RingBuffer \<Rightarrow> u64 \<Rightarrow> u64 \<Rightarrow> u64 option" where
  "mpsc_advance_tail rb head new_tail = (
     if new_tail < head then
       case load_hdr rb (new_tail AND rb_mask rb) of
         None \<Rightarrow> None
       | Some sz \<Rightarrow>
           if is_discarded sz
           then mpsc_advance_tail rb head (new_tail + align_up (get_size sz + 8) kRingBufferAlignment)
           else Some new_tail
     else Some new_tail)"

definition mpsc_rb_advance_if_possible :: "RingBuffer \<Rightarrow> u64 \<Rightarrow> RingBuffer option" where
  "mpsc_rb_advance_if_possible rb event = (
     case load_hdr rb (event - 8) of
       None \<Rightarrow> None
     | Some sz \<Rightarrow>
         case store_hdr rb (event - 8) (set_discarded sz) of
           None \<Rightarrow> None
         | Some rb \<Rightarrow>
             map_option (\<lambda>new_tail. rb\<lparr>rb_reader_pos := new_tail\<rparr>)
               (mpsc_advance_tail rb (rb_writer_pos rb) (rb_reader_pos rb)))"

text \<open>\<^verbatim>\<open>MPSCRingBufferReader\<close>: its own copy of the head, and the cursor made visible at once.\<close>

record MPSCRingBufferReader =
  mr_head :: u64

definition mr_init :: "RingBuffer \<Rightarrow> MPSCRingBufferReader" where
  "mr_init rb = \<lparr>mr_head = rb_writer_pos rb\<rparr>"

definition mr_available_size :: "RingBuffer \<Rightarrow> MPSCRingBufferReader \<Rightarrow> u64" where
  "mr_available_size rb r = mr_head r - rb_intermediate_reader_pos rb"

definition mr_read_sample :: "RingBuffer \<Rightarrow> MPSCRingBufferReader \<Rightarrow> (RingBuffer \<times> (u64 \<times> u64) option) option" where
  "mr_read_sample rb r = mpsc_rb_read_sample_to (mr_head r) rb"

definition mr_advance :: "RingBuffer \<Rightarrow> RingBuffer" where
  "mr_advance rb = rb\<lparr>rb_reader_pos := rb_intermediate_reader_pos rb\<rparr>"

definition mr_destroy :: "RingBuffer \<Rightarrow> RingBuffer" where
  "mr_destroy rb = (if rb_reader_pos rb < rb_intermediate_reader_pos rb then mr_advance rb else rb)"

section \<open>Header words\<close>

datatype mstate = Busy | Committed | Discarded

definition hdr_word :: "mstate \<Rightarrow> nat \<Rightarrow> u64" where
  "hdr_word st n = of_nat n OR (case st of Busy \<Rightarrow> k_busy_bit | Committed \<Rightarrow> 0 | Discarded \<Rightarrow> k_discard_bit)"

lemma bit_k_discard_bit [simp]: "bit k_discard_bit i \<longleftrightarrow> i = 62"
  unfolding k_discard_bit_def bit_exp_iff by auto

lemma bit_k_busy_bit [simp]: "bit k_busy_bit i \<longleftrightarrow> i = 63"
  unfolding k_busy_bit_def bit_exp_iff by auto

lemma is_busy_bit: "is_busy x \<longleftrightarrow> bit x 63"
  unfolding is_busy_def bit_eq_iff by (auto simp: bit_and_iff dest: bit_imp_le_length)

lemma is_discarded_bit: "is_discarded x \<longleftrightarrow> bit x 62"
  unfolding is_discarded_def bit_eq_iff by (auto simp: bit_and_iff dest: bit_imp_le_length)

lemma size_bits:
  assumes "n < 2 ^ 62"
  shows "bit (of_nat n :: u64) i \<Longrightarrow> i < 62"
proof -
  have t: "take_bit 62 n = n" using assms by (rule take_bit_nat_eq_self)
  have "bit n i \<Longrightarrow> i < 62" using bit_take_bit_iff[of 62 n i] unfolding t by blast
  then show "bit (of_nat n :: u64) i \<Longrightarrow> i < 62" by (simp add: bit_of_nat_iff)
qed

lemma hdr_word_flags:
  assumes "n < 2 ^ 62"
  shows "is_busy (hdr_word st n) \<longleftrightarrow> st = Busy"
    and "is_discarded (hdr_word st n) \<longleftrightarrow> st = Discarded"
    and "st \<noteq> Busy \<Longrightarrow> hdr_word st n AND NOT k_discard_bit = of_nat n"
    and "hdr_word Busy n XOR k_busy_bit = hdr_word Committed n"
    and "hdr_word Committed n OR k_discard_bit = hdr_word Discarded n"
    and "hdr_word Discarded n OR k_discard_bit = hdr_word Discarded n"
proof -
  note b = size_bits[OF assms]
  have hi: "\<not> bit (of_nat n :: u64) 63" "\<not> bit (of_nat n :: u64) 62" using b[of 63] b[of 62] by auto
  show "is_busy (hdr_word st n) \<longleftrightarrow> st = Busy"
    using hi unfolding is_busy_bit hdr_word_def bit_or_iff by (cases st) simp_all
  show "is_discarded (hdr_word st n) \<longleftrightarrow> st = Discarded"
    using hi unfolding is_discarded_bit hdr_word_def bit_or_iff by (cases st) simp_all
  show "hdr_word st n AND NOT k_discard_bit = of_nat n" if "st \<noteq> Busy"
  proof (rule bit_eqI)
    fix i
    show "bit (hdr_word st n AND NOT k_discard_bit) i = bit (of_nat n :: u64) i"
      using that b[of i] by (cases st) (auto simp: hdr_word_def bit_or_iff bit_and_iff bit_not_iff)
  qed
  show "hdr_word Busy n XOR k_busy_bit = hdr_word Committed n"
  proof (rule bit_eqI)
    fix i
    show "bit (hdr_word Busy n XOR k_busy_bit) i = bit (hdr_word Committed n) i"
      using b[of i] by (auto simp: hdr_word_def bit_or_iff bit_xor_iff)
  qed
  show "hdr_word Committed n OR k_discard_bit = hdr_word Discarded n"
    "hdr_word Discarded n OR k_discard_bit = hdr_word Discarded n"
    unfolding hdr_word_def mstate.case or.right_neutral or.assoc or.idem by (rule refl)+
qed

section \<open>Entries in memory\<close>

text \<open>An entry: its state and its bytes. It takes its header and the bytes, rounded up.\<close>

type_synonym entry = "mstate \<times> u8 list"

definition espace :: "entry \<Rightarrow> nat" where
  "espace e = stride (length (snd e) + 8)"

definition entry_at :: "u8 list \<Rightarrow> nat \<Rightarrow> entry \<Rightarrow> bool" where
  "entry_at data p e \<longleftrightarrow> length (snd e) < 2 ^ 62 \<and>
     load_u64 data p = hdr_word (fst e) (length (snd e)) \<and> rd data (p + 8) (length (snd e)) = snd e"

fun entries_at :: "u8 list \<Rightarrow> nat \<Rightarrow> entry list \<Rightarrow> nat \<Rightarrow> bool" where
  "entries_at data p [] q \<longleftrightarrow> p = q"
| "entries_at data p (e # es) q \<longleftrightarrow> entry_at data p e \<and> entries_at data (p + espace e) es q"

lemma espace_bounds: "length (snd e) + 8 \<le> espace e" "espace e \<le> length (snd e) + 15"
  using stride_ge[of "length (snd e) + 8"] stride_le[of "length (snd e) + 8"] by (auto simp: espace_def)

lemma entries_at_le: "entries_at data p es q \<Longrightarrow> p \<le> q"
  by (induction es arbitrary: p) (fastforce dest: add_leD1)+

lemma entries_at_end: "entries_at data p es q \<Longrightarrow> q = p + sum_list (map espace es)"
proof (induction es arbitrary: p)
  case (Cons e es)
  then have "q = p + espace e + sum_list (map espace es)" by simp
  then show ?case by simp
qed simp

lemma entries_at_append:
  "entries_at data p (a @ b) q \<longleftrightarrow> (\<exists>m. entries_at data p a m \<and> entries_at data m b q)"
  by (induction a arbitrary: p) auto

lemma entries_at_aligned: "entries_at data p es q \<Longrightarrow> 8 dvd p \<Longrightarrow> 8 dvd q"
  by (induction es arbitrary: p) (auto simp: espace_def dvd_stride)

text \<open>A write elsewhere in the same lap keeps an entry, and a run of entries.\<close>

lemma entry_at_wr:
  assumes "entry_at data p e" "s \<le> p" "p + espace e \<le> s + length data" "s \<le> h" "h + length bs \<le> s + length data"
    and "p + espace e \<le> h \<or> h + length bs \<le> p"
  shows "entry_at (wr data h bs) p e"
  using assms espace_bounds(1)[of e] load_wr_disjoint[of s p data h bs]
    rd_wr_disjoint[of s "p + 8" "length (snd e)" data h bs]
  by (auto simp: entry_at_def)

lemma entries_at_wr:
  assumes "entries_at data p es q" "s \<le> p" "q \<le> s + length data" "s \<le> h" "h + length bs \<le> s + length data"
    and "q \<le> h \<or> h + length bs \<le> p"
  shows "entries_at (wr data h bs) p es q"
  using assms(1,2,6)
proof (induction es arbitrary: p)
  case (Cons e es)
  from Cons.prems(1) have e: "entry_at data p e" and es: "entries_at data (p + espace e) es q" by auto
  have "p + espace e \<le> q" using entries_at_le[OF es] .
  then have "entry_at (wr data h bs) p e"
    using Cons.prems assms by (intro entry_at_wr[OF e, of s]) auto
  moreover have "entries_at (wr data h bs) (p + espace e) es q"
    by (rule Cons.IH[OF es]) (use Cons.prems in auto)
  ultimately show ?case by simp
qed simp

section \<open>Headers at a position of the stream\<close>

text \<open>Headers are aligned, so they never cross the end of the area.\<close>

lemma aligned_mod:
  assumes "3 \<le> k" "8 dvd (p :: nat)"
  shows "p mod 2 ^ k + 8 \<le> 2 ^ k"
proof -
  have "(8::nat) dvd 2 ^ k" using le_imp_power_dvd[OF assms(1), of "2::nat"] by simp
  then obtain c where c: "(2::nat) ^ k = 8 * c" by (elim dvdE)
  obtain d where d: "p = 8 * d" using assms(2) by (elim dvdE)
  have "c \<noteq> 0" using c by (metis mult_0_right power_not_zero zero_neq_numeral)
  then have "d mod c < c" by simp
  then show ?thesis unfolding c d mult_mod_right[symmetric] by linarith
qed

lemma load_hdr_pos:
  assumes wf: "rb_wf k rb" and al: "8 dvd p"
  shows "load_hdr rb (of_nat p AND rb_mask rb) = Some (load_u64 (rb_data rb) p)"
proof -
  note w = rb_wfD[OF wf]
  have "rb_load rb (p mod 2 ^ k) 8 = Some (rd (rb_data rb) p 8)"
    using aligned_mod[OF w(1) al] w(9) by (intro rb_load_pos[OF wf]) auto
  then show ?thesis using w by (simp add: load_hdr_def pos_index load_u64_def)
qed

lemma store_hdr_pos:
  assumes wf: "rb_wf k rb" and al: "8 dvd p"
  shows "store_hdr rb (of_nat p AND rb_mask rb) x = Some (rb\<lparr>rb_data := store_u64 (rb_data rb) p x\<rparr>)"
proof -
  note w = rb_wfD[OF wf]
  have "wr (rb_data rb) (p mod 2 ^ k) (le_bytes 8 (unat x)) = store_u64 (rb_data rb) p x"
    using wr_mod[of "rb_data rb" p] w(3) by (simp add: store_u64_def)
  moreover have "p mod 2 ^ k + 8 \<le> (if rb_mirrored_mapping rb then 2 else 1) * 2 ^ k"
    using aligned_mod[OF w(1) al] by simp
  ultimately show ?thesis using w by (simp add: store_hdr_def pos_index rb_store_def)
qed

lemma of_nat_add_less: "a + b < 2 ^ 64 \<Longrightarrow> unat (of_nat a + of_nat b :: u64) = a + b"
  using unat_of_nat_u64[of "a + b"] by simp

text \<open>The space of an entry as the code computes it from its header.\<close>

lemma align_up_entry:
  assumes "n < 2 ^ 62"
  shows "align_up (of_nat n + 8) kRingBufferAlignment = of_nat (stride (n + 8))"
  using align_up_stride[of "n + 8"] assms by simp

section \<open>Producer operations on the layout\<close>

lemma mw_reserve_cases:
  assumes wf: "rb_wf k rb" and al: "8 dvd w" and pos: "rb_writer_pos rb = of_nat w" "mw_tail mw = of_nat t"
    and le: "t \<le> w" and nowrap: "w + n + 16 + unat (mw_high_priority_area_size mw) < 2 ^ 64"
    and res: "mw_reserve lock rb mw (of_nat n) hp = Some (rb', buf, timeout)"
  shows "buf = None \<and> rb' = rb \<or>
    (w + stride (n + 8) - t < 2 ^ k \<and> n < 2 ^ k \<and> buf = Some ((of_nat w AND rb_mask rb) + 8, of_nat n) \<and>
     rb' = rb\<lparr>rb_data := store_u64 (rb_data rb) w (of_nat n OR k_busy_bit),
              rb_writer_pos := of_nat (w + stride (n + 8))\<rparr>)"
proof -
  define s where "s = stride (n + 8)"
  define h where "h = (if hp then 0 else unat (mw_high_priority_area_size mw))"
  note wd = rb_wfD[OF wf]
  have s: "n + 8 \<le> s" "s \<le> n + 15" using stride_ge[of "n + 8"] stride_le[of "n + 8"] by (auto simp: s_def)
  have al2: "align_up (of_nat n + 8) kRingBufferAlignment = of_nat s"
    using align_up_stride[of "n + 8"] nowrap by (simp add: s_def)
  have "unat (of_nat s :: u64) = s" using s nowrap by (intro unat_of_nat_u64) simp
  then have nz: "(of_nat s :: u64) \<noteq> 0" using s by auto
  have adj: "(if hp then of_nat w + of_nat s else of_nat w + of_nat s + mw_high_priority_area_size mw)
      = (of_nat (w + s + h) :: u64)" by (simp add: h_def)
  have "unat (of_nat (w + s + h) - of_nat t :: u64) = w + s + h - t"
    by (rule pos_diff) (use le nowrap s in \<open>auto simp: h_def\<close>)
  then have cmp: "rb_mask rb < of_nat (w + s + h) - of_nat t \<longleftrightarrow> \<not> w + s + h - t < 2 ^ k"
    unfolding word_less_nat_alt wd(7) using wd(9) by linarith
  show ?thesis
    using res nz cmp store_hdr_pos[OF wf al, of "of_nat n OR k_busy_bit"] le s
    unfolding mw_reserve_def Let_def al2 pos adj s_def[symmetric]
    by (auto simp: add.assoc split: if_splits)
qed

lemma mw_reserve_safe:
  assumes "rb_wf k rb" "8 dvd w" "rb_writer_pos rb = of_nat w"
  shows "mw_reserve lock rb mw n hp \<noteq> None"
  using store_hdr_pos[OF assms(1,2)] by (simp add: mw_reserve_def Let_def assms(3) del: not_None_eq)

lemma mw_commit_internal_pos:
  assumes wf: "rb_wf k rb" and al: "8 dvd p" and e: "entry_at (rb_data rb) p (Busy, bs)"
  shows "\<exists>w' notify. mw_commit_internal rb mw ((of_nat p AND rb_mask rb) + 8, n) d =
    Some (rb\<lparr>rb_data := store_u64 (rb_data rb) p (hdr_word (if d then Discarded else Committed) (length bs))\<rparr>,
          w', notify) \<and> mw_tail w' = rb_reader_pos rb \<and>
          mw_high_priority_area_size w' = mw_high_priority_area_size mw"
  using load_hdr_pos[OF wf al] store_hdr_pos[OF wf al] e hdr_word_flags(4,5)[of "length bs"]
  by (auto simp: mw_commit_internal_def Let_def entry_at_def mw_update_tail_def)

section \<open>Consumer operations on the layout\<close>

lemma mpsc_rb_read_sample_to_step:
  assumes wf: "rb_wf k rb" and al: "8 dvd i" and e: "entry_at (rb_data rb) i (st, bs)"
    and pos: "rb_intermediate_reader_pos rb = of_nat i" and ne: "head \<noteq> of_nat i"
  shows "mpsc_rb_read_sample_to head rb = (
    let rb' = rb\<lparr>rb_intermediate_reader_pos := of_nat (i + espace (st, bs))\<rparr> in
    case st of Busy \<Rightarrow> Some (rb, None)
    | Committed \<Rightarrow> Some (rb', Some ((of_nat i AND rb_mask rb) + 8, of_nat (length bs)))
    | Discarded \<Rightarrow> mpsc_rb_read_sample_to head rb')"
proof -
  let ?n = "length bs"
  have n: "?n < 2 ^ 62" and h: "load_u64 (rb_data rb) i = hdr_word st ?n" using e by (auto simp: entry_at_def)
  have sz: "(hdr_word st ?n AND NOT k_discard_bit) = of_nat ?n" if "st \<noteq> Busy"
    using hdr_word_flags(3)[OF n that] .
  show ?thesis
    unfolding mpsc_rb_read_sample_to.simps[of head rb] Let_def pos load_hdr_pos[OF wf al] option.case h
      hdr_word_flags(1,2)[OF n]
    using ne sz align_up_entry[OF n] hdr_word_flags(3)[OF n, of Committed]
    by (cases st) (simp_all add: espace_def hdr_word_def)
qed

text \<open>
  The consumer skips discarded entries and returns the first one that is not, unless that is
  busy; the loop ends.
\<close>

definition read_result :: "RingBuffer \<Rightarrow> nat \<Rightarrow> entry list \<Rightarrow> RingBuffer \<times> (u64 \<times> u64) option" where
  "read_result rb p rest = (case rest of
      (Committed, bs) # _ \<Rightarrow> (rb\<lparr>rb_intermediate_reader_pos := of_nat (p + espace (Committed, bs))\<rparr>,
                             Some ((of_nat p AND rb_mask rb) + 8, of_nat (length bs)))
    | _ \<Rightarrow> (rb\<lparr>rb_intermediate_reader_pos := of_nat p\<rparr>, None))"

lemma read_result_cursor: "read_result (rb\<lparr>rb_intermediate_reader_pos := x\<rparr>) p rest = read_result rb p rest"
  by (simp add: read_result_def split: list.split mstate.split)

lemma mpsc_rb_read_sample_to_spec:
  assumes "rb_wf k rb" "8 dvd i" "entries_at (rb_data rb) i ys w" "w < 2 ^ 64" "rb_intermediate_reader_pos rb = of_nat i"
  shows "\<exists>ds rest p. ys = ds @ rest \<and> (\<forall>d\<in>set ds. fst d = Discarded) \<and> (rest \<noteq> [] \<longrightarrow> fst (hd rest) \<noteq> Discarded) \<and>
    entries_at (rb_data rb) i ds p \<and> mpsc_rb_read_sample_to (of_nat w) rb = Some (read_result rb p rest)"
  using assms
proof (induction ys arbitrary: i rb)
  case Nil
  then show ?case by (simp add: mpsc_rb_read_sample_to.simps read_result_def)
next
  case (Cons y ys)
  obtain st bs where y: "y = (st, bs)" by (cases y)
  from Cons.prems y have e: "entry_at (rb_data rb) i (st, bs)" and ys: "entries_at (rb_data rb) (i + espace y) ys w" by auto
  have "i < w" using entries_at_le[OF ys] espace_bounds(1)[of y] by simp
  then have "(of_nat w :: u64) \<noteq> of_nat i" using pos_neq[of i w] Cons.prems(4) by (metis less_imp_diff_less)
  note step = mpsc_rb_read_sample_to_step[OF Cons.prems(1,2) e Cons.prems(5) this]
  let ?rb = "rb\<lparr>rb_intermediate_reader_pos := of_nat (i + espace y)\<rparr>"
  show ?case
  proof (cases st)
    case Discarded
    have "8 dvd i + espace y" using Cons.prems(2) by (simp add: espace_def dvd_stride)
    from Cons.IH[of ?rb, OF _ this] Cons.prems ys
    obtain ds rest p where ih: "ys = ds @ rest" "\<forall>d\<in>set ds. fst d = Discarded" "rest \<noteq> [] \<longrightarrow> fst (hd rest) \<noteq> Discarded"
      "entries_at (rb_data rb) (i + espace y) ds p" "mpsc_rb_read_sample_to (of_nat w) ?rb = Some (read_result ?rb p rest)"
      by auto
    show ?thesis
      by (rule exI[of _ "y # ds"], rule exI[of _ rest], rule exI[of _ p])
        (use ih step Discarded y e in \<open>simp add: read_result_cursor\<close>)
  next
    case Busy
    then show ?thesis
      using step y Cons.prems(5) by (intro exI[of _ "[]"] exI[of _ "y # ys"] exI[of _ i]) (simp add: read_result_def)
  next
    case Committed
    then show ?thesis
      using step y by (intro exI[of _ "[]"] exI[of _ "y # ys"] exI[of _ i]) (simp add: read_result_def)
  qed
qed

text \<open>Releasing: the tail moves over discarded entries up to the first that is not, and the loop ends.\<close>

lemma mpsc_advance_tail_spec:
  assumes "rb_wf k rb" "8 dvd r" "entries_at (rb_data rb) r es w" "w < 2 ^ 64"
  shows "\<exists>ds rest p. es = ds @ rest \<and> (\<forall>d\<in>set ds. fst d = Discarded) \<and> (rest \<noteq> [] \<longrightarrow> fst (hd rest) \<noteq> Discarded) \<and>
    entries_at (rb_data rb) r ds p \<and> entries_at (rb_data rb) p rest w \<and>
    mpsc_advance_tail rb (of_nat w) (of_nat r) = Some (of_nat p)"
  using assms(2,3)
proof (induction es arbitrary: r)
  case Nil
  then show ?case by (simp add: mpsc_advance_tail.simps)
next
  case (Cons y ys)
  obtain st bs where y: "y = (st, bs)" by (cases y)
  let ?n = "length bs"
  from Cons.prems y have e: "entry_at (rb_data rb) r (st, bs)" and ys: "entries_at (rb_data rb) (r + espace y) ys w" by auto
  have lt: "r < w" using entries_at_le[OF ys] espace_bounds(1)[of y] by simp
  then have less: "(of_nat r :: u64) < of_nat w"
    using assms(4) by (simp add: word_less_nat_alt unat_of_nat_u64)
  have n: "?n < 2 ^ 62" and h: "load_u64 (rb_data rb) r = hdr_word st ?n" using e by (auto simp: entry_at_def)
  have step: "mpsc_advance_tail rb (of_nat w) (of_nat r) =
     (if st = Discarded then mpsc_advance_tail rb (of_nat w) (of_nat (r + espace y)) else Some (of_nat r))"
    unfolding mpsc_advance_tail.simps[of rb _ "of_nat r"] load_hdr_pos[OF assms(1) Cons.prems(1)] option.case h
      hdr_word_flags(2)[OF n] get_size_def
    using less hdr_word_flags(3)[OF n, of Discarded] align_up_entry[OF n] y by (simp add: espace_def)
  show ?case
  proof (cases "st = Discarded")
    case True
    have "8 dvd r + espace y" using Cons.prems(1) by (simp add: espace_def dvd_stride)
    from Cons.IH[OF this ys] obtain ds rest p where "ys = ds @ rest" "\<forall>d\<in>set ds. fst d = Discarded"
      "rest \<noteq> [] \<longrightarrow> fst (hd rest) \<noteq> Discarded" "entries_at (rb_data rb) (r + espace y) ds p"
      "entries_at (rb_data rb) p rest w" "mpsc_advance_tail rb (of_nat w) (of_nat (r + espace y)) = Some (of_nat p)"
      by blast
    then show ?thesis
      using step True y e by (intro exI[of _ "y # ds"] exI[of _ rest] exI[of _ p]) simp
  next
    case False
    then show ?thesis
      using step y Cons.prems by (intro exI[of _ "[]"] exI[of _ "y # ys"] exI[of _ r]) simp
  qed
qed

end
