(* ===== verification/Mpsc_System.thy ===== *)
theory Mpsc_System
  imports Mpsc_Ring
begin

text \<open>
  The multi-producer ring as a concurrent system: any number of producer threads, each with its
  own writer object (and its stale copy of the tail), and one consumer. A step is one operation
  of one thread; filling a reserved buffer is a step of its own, without the lock. The consumer
  uses the ring in one of the two ways of the main loop: ordered
  (\<^verbatim>\<open>mpsc_rb_read_event\<close> and \<^verbatim>\<open>mpsc_rb_advance_if_possible\<close>, several events in flight) or not
  (\<^verbatim>\<open>MPSCRingBufferReader\<close>).
\<close>

section \<open>The system\<close>

record mpsc_thread =
  th_writer :: MPSCRingBufferWriter
  th_buf :: "(u64 \<times> u64) option"
  th_ticket :: nat

text \<open>
  \<open>ms_log\<close> is a history variable: every reservation in order, with its state and its bytes;
  \<open>th_ticket\<close> is the index of the thread's reservation in it. \<open>ms_inflight\<close> holds the buffers given
  to the consumer and not released yet, \<open>ms_consumed\<close> the bytes they had when read.
\<close>

record mpsc_sys =
  ms_rb :: RingBuffer
  ms_thr :: "nat \<Rightarrow> mpsc_thread"
  ms_reader :: MPSCRingBufferReader
  ms_inflight :: "(u64 \<times> u64) list"
  ms_log :: "entry list"
  ms_consumed :: "u8 list list"

definition splice :: "u8 list \<Rightarrow> nat \<Rightarrow> u8 list \<Rightarrow> u8 list" where
  "splice old j bs = take j old @ bs @ drop (j + length bs) old"

inductive mpsc_step :: "bool \<Rightarrow> mpsc_sys \<Rightarrow> mpsc_sys \<Rightarrow> bool" for ordered :: bool where
  attach: "th_buf (ms_thr s t) = None \<Longrightarrow>
    mpsc_step ordered s (s\<lparr>ms_thr := (ms_thr s)(t := (ms_thr s t)\<lparr>th_writer := mw_init (ms_rb s) area\<rparr>)\<rparr>)"
| reserve: "th_buf (ms_thr s t) = None \<Longrightarrow>
    unat (rb_writer_pos (ms_rb s)) + n + 16 + unat (mw_high_priority_area_size (th_writer (ms_thr s t))) < 2 ^ 64 \<Longrightarrow>
    mw_reserve lock (ms_rb s) (th_writer (ms_thr s t)) (of_nat n) high_priority = Some (rb, buf, timeout) \<Longrightarrow>
    mpsc_step ordered s (s\<lparr>ms_rb := rb,
      ms_thr := (ms_thr s)(t := (ms_thr s t)\<lparr>th_buf := buf, th_ticket := length (ms_log s)\<rparr>),
      ms_log := ms_log s @ (case buf of None \<Rightarrow> []
         | Some _ \<Rightarrow> [(Busy, rd (rb_data rb) (unat (rb_writer_pos (ms_rb s)) + 8) n)])\<rparr>)"
| fill: "th_buf (ms_thr s t) = Some (off, sz) \<Longrightarrow> j + length bs \<le> unat sz \<Longrightarrow>
    rb_store (ms_rb s) (unat off + j) bs = Some rb \<Longrightarrow> T = th_ticket (ms_thr s t) \<Longrightarrow>
    mpsc_step ordered s (s\<lparr>ms_rb := rb,
      ms_log := (ms_log s)[T := (Busy, splice (snd (ms_log s ! T)) j bs)]\<rparr>)"
| commit: "th_buf (ms_thr s t) = Some buf \<Longrightarrow> (discard \<Longrightarrow> \<not> ordered) \<Longrightarrow>
    mw_commit_internal (ms_rb s) (th_writer (ms_thr s t)) buf discard = Some (rb, w, notify) \<Longrightarrow>
    T = th_ticket (ms_thr s t) \<Longrightarrow>
    mpsc_step ordered s (s\<lparr>ms_rb := rb,
      ms_thr := (ms_thr s)(t := (ms_thr s t)\<lparr>th_writer := w, th_buf := None\<rparr>),
      ms_log := (ms_log s)[T := (if discard then Discarded else Committed, snd (ms_log s ! T))]\<rparr>)"
| refresh_tail: "mpsc_step ordered s (s\<lparr>ms_thr := (ms_thr s)(t := (ms_thr s t)\<lparr>th_writer :=
      mw_update_tail (ms_rb s) (th_writer (ms_thr s t))\<rparr>)\<rparr>)"
| read_none: "(if ordered then mpsc_rb_read_sample (ms_rb s) else mr_read_sample (ms_rb s) (ms_reader s)) = Some (rb, None) \<Longrightarrow>
    mpsc_step ordered s (s\<lparr>ms_rb := rb\<rparr>)"
| read_some: "(if ordered then mpsc_rb_read_sample (ms_rb s) else mr_read_sample (ms_rb s) (ms_reader s)) = Some (rb, Some (off, sz)) \<Longrightarrow>
    rb_load rb (unat off) (unat sz) = Some bs \<Longrightarrow>
    mpsc_step ordered s (s\<lparr>ms_rb := rb, ms_inflight := ms_inflight s @ [(off, sz)], ms_consumed := ms_consumed s @ [bs]\<rparr>)"
| release: "ordered \<Longrightarrow> ms_inflight s = xs @ (event, sz) # ys \<Longrightarrow>
    mpsc_rb_advance_if_possible (ms_rb s) event = Some rb \<Longrightarrow>
    mpsc_step ordered s (s\<lparr>ms_rb := rb, ms_inflight := xs @ ys\<rparr>)"
| reader_update: "\<not> ordered \<Longrightarrow> mpsc_step ordered s (s\<lparr>ms_reader := mr_init (ms_rb s)\<rparr>)"
| reader_advance: "\<not> ordered \<Longrightarrow> mpsc_step ordered s (s\<lparr>ms_rb := mr_advance (ms_rb s), ms_inflight := []\<rparr>)"

inductive mpsc_reachable :: "bool \<Rightarrow> mpsc_sys \<Rightarrow> mpsc_sys \<Rightarrow> bool" for ordered s0 where
  start: "mpsc_reachable ordered s0 s0"
| step: "mpsc_reachable ordered s0 s \<Longrightarrow> mpsc_step ordered s s' \<Longrightarrow> mpsc_reachable ordered s0 s'"

section \<open>Positions of reservations\<close>

text \<open>The position of ticket \<open>T\<close> of a log that starts at position \<open>b\<close>.\<close>

definition lpos :: "nat \<Rightarrow> entry list \<Rightarrow> nat \<Rightarrow> nat" where
  "lpos b log T = b + sum_list (map espace (take T log))"

lemma lpos_0 [simp]: "lpos b log 0 = b"
  by (simp add: lpos_def)

lemma lpos_Suc: "T < length log \<Longrightarrow> lpos b log (Suc T) = lpos b log T + espace (log ! T)"
  by (simp add: lpos_def take_Suc_conv_app_nth)

lemma lpos_mono: "T \<le> T' \<Longrightarrow> lpos b log T \<le> lpos b log T'"
  by (auto simp: lpos_def le_iff_add take_add)

lemma lpos_append [simp]: "T \<le> length log \<Longrightarrow> lpos b (log @ xs) T = lpos b log T"
  by (simp add: lpos_def)

lemma lpos_update:
  assumes "length (snd e) = length (snd (log ! T))"
  shows "lpos b (log[T := e]) j = lpos b log j"
proof -
  have "map espace (log[T := e]) = map espace log"
    using assms by (cases "T < length log") (auto simp: list_eq_iff_nth_eq nth_list_update espace_def list_update_beyond)
  then show ?thesis by (simp add: lpos_def flip: take_map)
qed

lemma lpos_aligned: "8 dvd b \<Longrightarrow> 8 dvd lpos b log T"
proof -
  have "8 dvd sum_list (map espace xs)" for xs
    by (induction xs) (auto simp: espace_def dvd_stride)
  then show "8 dvd b \<Longrightarrow> 8 dvd lpos b log T" by (simp add: lpos_def)
qed

text \<open>
  What memory shows for a ticket: the tickets of \<open>D\<close> were read and released by the consumer, which
  marks them discarded.
\<close>

definition phys :: "nat set \<Rightarrow> entry list \<Rightarrow> nat \<Rightarrow> entry" where
  "phys D log j = (if j \<in> D then (Discarded, snd (log ! j)) else log ! j)"

lemma snd_phys [simp]: "snd (phys D log j) = snd (log ! j)"
  by (simp add: phys_def)

lemma phys_append [simp]: "j < length log \<Longrightarrow> phys D (log @ xs) j = phys D log j"
  by (simp add: phys_def nth_append)

lemma espace_phys [simp]: "espace (phys D log j) = espace (log ! j)"
  by (simp add: espace_def)

definition log_mem :: "u8 list \<Rightarrow> nat \<Rightarrow> entry list \<Rightarrow> nat \<Rightarrow> nat set \<Rightarrow> bool" where
  "log_mem data b log a D \<longleftrightarrow> (\<forall>j. a \<le> j \<and> j < length log \<longrightarrow> entry_at data (lpos b log j) (phys D log j))"

lemma log_mem_entries:
  assumes "log_mem data b log a D" "a \<le> x" "x \<le> y" "y \<le> length log"
  shows "entries_at data (lpos b log x) (map (phys D log) [x..<y]) (lpos b log y)"
  using assms(2,3)
proof (induction "y - x" arbitrary: x)
  case 0
  then show ?case by simp
next
  case (Suc m)
  then have "[x..<y] = x # [Suc x..<y]" by (simp add: upt_conv_Cons)
  moreover have "entries_at data (lpos b log (Suc x)) (map (phys D log) [Suc x..<y]) (lpos b log y)"
    by (rule Suc.hyps(1)) (use Suc in auto)
  ultimately show ?case
    using Suc assms(1,4) by (auto simp: log_mem_def lpos_Suc)
qed

text \<open>A prefix of the entries between two tickets ends at a ticket.\<close>

lemma entries_at_prefix_end:
  assumes "map (phys D log) [x..<y] = ds @ rest" "entries_at data (lpos b log x) ds p" "y \<le> length log" "x \<le> y"
  shows "p = lpos b log (x + length ds) \<and> x + length ds \<le> y \<and> ds = map (phys D log) [x..<x + length ds] \<and>
     rest = map (phys D log) [x + length ds..<y]"
proof -
  define m where "m = length ds"
  have "m + length rest = y - x" using arg_cong[OF assms(1), of length] by (simp add: m_def)
  then have le: "x + m \<le> y" using assms(4) by linarith
  have "[x..<y] = [x..<x + m] @ [x + m..<y]"
    using upt_add_eq_append[of x "x + m" "y - (x + m)"] le by simp
  then have "ds @ rest = map (phys D log) [x..<x + m] @ map (phys D log) [x + m..<y]" using assms(1) by simp
  then have ds: "ds = map (phys D log) [x..<x + m]" "rest = map (phys D log) [x + m..<y]"
    by (simp_all add: append_eq_append_conv m_def)
  from entries_at_end[OF assms(2)] have "p = lpos b log x + sum_list (map espace ds)" .
  also have "map espace ds = map espace (take m (drop x log))"
    using le assms(3) ds(1) by (intro nth_equalityI) auto
  finally show ?thesis using ds le unfolding m_def[symmetric] by (simp add: lpos_def take_add)
qed

section \<open>The invariant\<close>

text \<open>
  The tickets below \<open>a\<close> are freed, those below \<open>c\<close> are read, \<open>D\<close> are read and marked for release. No
  ticket is read while busy.
\<close>

definition ring_inv :: "nat \<Rightarrow> RingBuffer \<Rightarrow> nat \<Rightarrow> entry list \<Rightarrow> nat \<Rightarrow> nat \<Rightarrow> nat set \<Rightarrow> bool" where
  "ring_inv k rb b log a c D \<longleftrightarrow> rb_wf k rb \<and> rb_mirrored_mapping rb \<and> 8 dvd b \<and> a \<le> c \<and> c \<le> length log \<and>
     lpos b log (length log) - lpos b log a < 2 ^ k \<and> lpos b log (length log) < 2 ^ 64 \<and>
     rb_reader_pos rb = of_nat (lpos b log a) \<and> rb_intermediate_reader_pos rb = of_nat (lpos b log c) \<and>
     rb_writer_pos rb = of_nat (lpos b log (length log)) \<and>
     log_mem (rb_data rb) b log a D \<and> D \<subseteq> {a..<c} \<and> (\<forall>j<c. fst (log ! j) \<noteq> Busy)"

definition lbuf :: "u64 \<Rightarrow> nat \<Rightarrow> entry list \<Rightarrow> nat \<Rightarrow> u64 \<times> u64" where
  "lbuf m b log T = ((of_nat (lpos b log T) AND m) + 8, of_nat (length (snd (log ! T))))"

definition thr_inv :: "u64 \<Rightarrow> nat \<Rightarrow> entry list \<Rightarrow> nat \<Rightarrow> mpsc_thread \<Rightarrow> bool" where
  "thr_inv m b log a th \<longleftrightarrow> (\<exists>t\<le>lpos b log a. mw_tail (th_writer th) = of_nat t) \<and>
     (\<forall>buf. th_buf th = Some buf \<longrightarrow> th_ticket th < length log \<and> fst (log ! th_ticket th) = Busy \<and>
        buf = lbuf m b log (th_ticket th))"

definition committed :: "entry list \<Rightarrow> u8 list list" where
  "committed log = map snd (filter (\<lambda>e. fst e = Committed) log)"

text \<open>Each thread is in such a state, and no two threads hold the same ticket.\<close>

definition threads_inv :: "u64 \<Rightarrow> nat \<Rightarrow> entry list \<Rightarrow> nat \<Rightarrow> (nat \<Rightarrow> mpsc_thread) \<Rightarrow> bool" where
  "threads_inv m b log a thr \<longleftrightarrow> (\<forall>t. thr_inv m b log a (thr t)) \<and>
     (\<forall>t t'. th_buf (thr t) \<noteq> None \<and> th_buf (thr t') \<noteq> None \<and> th_ticket (thr t) = th_ticket (thr t') \<longrightarrow> t = t')"

text \<open>
  The consumer: the buffers in flight are tickets read and not released, and what was read are the
  bytes of the committed tickets below \<open>c\<close>, in order.
\<close>

definition consumer_inv ::
    "bool \<Rightarrow> u64 \<Rightarrow> nat \<Rightarrow> entry list \<Rightarrow> nat \<Rightarrow> nat \<Rightarrow> nat set \<Rightarrow> nat list \<Rightarrow>
     (u64 \<times> u64) list \<Rightarrow> u8 list list \<Rightarrow> MPSCRingBufferReader \<Rightarrow> bool" where
  "consumer_inv ordered m b log a c D Ts inflight consumed reader \<longleftrightarrow>
     inflight = map (lbuf m b log) Ts \<and> distinct Ts \<and> set Ts \<subseteq> {a..<c} - D \<and>
     (\<forall>T\<in>set Ts. fst (log ! T) = Committed) \<and> consumed = committed (take c log) \<and>
     (ordered \<longrightarrow> (\<forall>e\<in>set log. fst e \<noteq> Discarded)) \<and>
     (\<not> ordered \<longrightarrow> (\<exists>h. c \<le> h \<and> h \<le> length log \<and> mr_head reader = of_nat (lpos b log h)))"

definition mpsc_inv_at ::
    "nat \<Rightarrow> bool \<Rightarrow> mpsc_sys \<Rightarrow> nat \<Rightarrow> nat \<Rightarrow> nat \<Rightarrow> nat set \<Rightarrow> nat list \<Rightarrow> bool" where
  "mpsc_inv_at k ordered s b a c D Ts \<longleftrightarrow> ring_inv k (ms_rb s) b (ms_log s) a c D \<and>
     threads_inv (rb_mask (ms_rb s)) b (ms_log s) a (ms_thr s) \<and>
     consumer_inv ordered (rb_mask (ms_rb s)) b (ms_log s) a c D Ts (ms_inflight s) (ms_consumed s) (ms_reader s)"

definition mpsc_inv :: "nat \<Rightarrow> bool \<Rightarrow> mpsc_sys \<Rightarrow> bool" where
  "mpsc_inv k ordered s \<longleftrightarrow> (\<exists>b a c D Ts. mpsc_inv_at k ordered s b a c D Ts)"

lemma mpsc_invI: "mpsc_inv_at k ordered s b a c D Ts \<Longrightarrow> mpsc_inv k ordered s"
  unfolding mpsc_inv_def by blast

lemma mpsc_invE:
  assumes "mpsc_inv k ordered s"
  obtains b a c D Ts where "mpsc_inv_at k ordered s b a c D Ts"
  using assms unfolding mpsc_inv_def by blast

section \<open>Memory updates at one ticket\<close>

lemma log_mem_update:
  assumes lm: "log_mem data b log a D" and T: "a \<le> T" "T < length log" "T \<notin> D"
    and win: "lpos b log (length log) \<le> lpos b log a + length data"
    and h: "lpos b log T \<le> h" "h + length bs \<le> lpos b log (Suc T)"
    and e: "length (snd e) = length (snd (log ! T))" "entry_at (wr data h bs) (lpos b log T) e"
  shows "log_mem (wr data h bs) b (log[T := e]) a D"
  unfolding log_mem_def
proof (intro allI impI)
  fix j assume j: "a \<le> j \<and> j < length (log[T := e])"
  show "entry_at (wr data h bs) (lpos b (log[T := e]) j) (phys D (log[T := e]) j)"
  proof (cases "j = T")
    case True
    then show ?thesis using e T by (simp add: lpos_update phys_def)
  next
    case False
    have old: "entry_at data (lpos b log j) (phys D log j)" using lm j by (simp add: log_mem_def)
    have end_j: "lpos b log j + espace (log ! j) = lpos b log (Suc j)" using j by (simp add: lpos_Suc)
    have "lpos b log (Suc j) \<le> lpos b log T \<or> lpos b log (Suc T) \<le> lpos b log j"
      using False lpos_mono[of "Suc j" T b log] lpos_mono[of "Suc T" j b log] by linarith
    moreover have "lpos b log a \<le> lpos b log j" "lpos b log (Suc j) \<le> lpos b log (length log)"
      "lpos b log a \<le> lpos b log T" "lpos b log (Suc T) \<le> lpos b log (length log)"
      using j T by (auto intro: lpos_mono)
    ultimately have "entry_at (wr data h bs) (lpos b log j) (phys D log j)"
      using win h end_j by (intro entry_at_wr[OF old, of "lpos b log a"]) auto
    then show ?thesis using e(1) False by (simp add: lpos_update phys_def split: if_splits)
  qed
qed

lemma lbuf_update:
  "length (snd e) = length (snd (log ! T)) \<Longrightarrow> lbuf m b (log[T := e]) j = lbuf m b log j"
  by (cases "T < length log") (auto simp: lbuf_def lpos_update nth_list_update list_update_beyond)

lemma lbuf_append [simp]: "T < length log \<Longrightarrow> lbuf m b (log @ xs) T = lbuf m b log T"
  by (simp add: lbuf_def nth_append)

text \<open>The buffer of a ticket as an offset.\<close>

lemma lbuf_offset:
  assumes "rb_wf k rb"
  shows "unat (fst (lbuf (rb_mask rb) b log T)) = lpos b log T mod 2 ^ k + 8"
    "fst (lbuf (rb_mask rb) b log T) - 8 = of_nat (lpos b log T) AND rb_mask rb"
proof -
  note w = rb_wfD[OF assms]
  have lt: "lpos b log T mod 2 ^ k < 2 ^ k" by simp
  have le: "2 ^ k \<le> (4611686018427387904 :: nat)" using w(8) by simp
  have "lpos b log T mod 2 ^ k + 8 < 18446744073709551616" using lt le by linarith
  then show "unat (fst (lbuf (rb_mask rb) b log T)) = lpos b log T mod 2 ^ k + 8"
    using w by (simp add: lbuf_def unat_add_u64 pos_index)
qed (simp add: lbuf_def)

lemma ring_inv_entry:
  assumes "ring_inv k rb b log a c D" "a \<le> T" "T < length log" "T \<notin> D"
  shows "entry_at (rb_data rb) (lpos b log T) (log ! T)"
proof -
  have "log_mem (rb_data rb) b log a D" using assms(1) by (simp add: ring_inv_def)
  then have "entry_at (rb_data rb) (lpos b log T) (phys D log T)" using assms(2,3) unfolding log_mem_def by blast
  then show ?thesis using assms(4) by (simp add: phys_def)
qed

lemma ring_inv_room:
  assumes "ring_inv k rb b log a c D" "a \<le> T" "T < length log"
  shows "length (snd (log ! T)) + 8 \<le> 2 ^ k" "lpos b log T + 8 + length (snd (log ! T)) \<le> lpos b log (Suc T)"
proof -
  have sp: "lpos b log T + espace (log ! T) = lpos b log (Suc T)" using assms(3) by (simp add: lpos_Suc)
  then show "lpos b log T + 8 + length (snd (log ! T)) \<le> lpos b log (Suc T)"
    using espace_bounds(1)[of "log ! T"] by linarith
  have "lpos b log (Suc T) \<le> lpos b log (length log)" using assms(3) by (intro lpos_mono) simp
  moreover have "lpos b log a \<le> lpos b log T" by (rule lpos_mono[OF assms(2)])
  moreover have "lpos b log (length log) - lpos b log a < 2 ^ k" using assms(1) by (simp add: ring_inv_def)
  ultimately show "length (snd (log ! T)) + 8 \<le> 2 ^ k" using sp espace_bounds(1)[of "log ! T"] by linarith
qed

lemma lbuf_load:
  assumes inv: "ring_inv k rb b log a c D" and T: "a \<le> T" "T < length log" "T \<notin> D"
  shows "rb_load rb (unat (fst (lbuf (rb_mask rb) b log T))) (unat (snd (lbuf (rb_mask rb) b log T))) = Some (snd (log ! T))"
proof -
  let ?p = "lpos b log T" and ?n = "length (snd (log ! T))"
  have wf: "rb_wf k rb" and m: "rb_mirrored_mapping rb" using inv by (auto simp: ring_inv_def)
  have n: "?n < 2 ^ 62" "rd (rb_data rb) (?p + 8) ?n = snd (log ! T)"
    using ring_inv_entry[OF inv T] by (auto simp: entry_at_def)
  have fits: "?n + 8 \<le> 2 ^ k" by (rule ring_inv_room(1)[OF inv T(1,2)])
  have "?p mod 2 ^ k < 2 ^ k" by simp
  then have "?p mod 2 ^ k + 8 + ?n \<le> 2 * 2 ^ k" using fits by linarith
  moreover have "rd (rb_data rb) (?p mod 2 ^ k + 8) ?n = rd (rb_data rb) (?p + 8) ?n"
    by (rule rd_cong) (simp add: rb_wfD(3)[OF wf] mod_add_left_eq)
  ultimately show ?thesis
    using n m rb_wfD(3)[OF wf] lbuf_offset(1)[OF wf, of b log T] unat_of_nat_u64[of ?n]
    by (simp add: rb_load_def lbuf_def)
qed

section \<open>Producer steps keep the invariant\<close>

lemma reserve_ring_inv:
  assumes inv: "ring_inv k rb b log a c D" and t: "t \<le> lpos b log a"
    and pos: "mw_tail mw = of_nat t"
    and nowrap: "unat (rb_writer_pos rb) + n + 16 + unat (mw_high_priority_area_size mw) < 2 ^ 64"
    and res: "mw_reserve lock rb mw (of_nat n) hp = Some (rb', Some buf, timeout)"
  defines "log' \<equiv> log @ [(Busy, rd (rb_data rb') (unat (rb_writer_pos rb) + 8) n)]"
  shows "ring_inv k rb' b log' a c D \<and> buf = lbuf (rb_mask rb') b log' (length log) \<and> rb_mask rb' = rb_mask rb"
proof -
  let ?w = "lpos b log (length log)"
  from inv have wf: "rb_wf k rb" and al: "8 dvd ?w" and wp: "rb_writer_pos rb = of_nat ?w" and w64: "?w < 2 ^ 64"
    and a: "a \<le> length log" by (auto simp: ring_inv_def lpos_aligned)
  have uw: "unat (rb_writer_pos rb) = ?w" using wp unat_of_nat_u64[OF w64] by simp
  have t_le: "t \<le> ?w" using t lpos_mono[OF a, of b log] by linarith
  from mw_reserve_cases[OF wf al wp pos t_le _ res] nowrap uw
  have fit: "?w + stride (n + 8) - t < 2 ^ k" "n < 2 ^ k" and buf: "buf = ((of_nat ?w AND rb_mask rb) + 8, of_nat n)"
    and rb': "rb' = rb\<lparr>rb_data := store_u64 (rb_data rb) ?w (of_nat n OR k_busy_bit), rb_writer_pos := of_nat (?w + stride (n + 8))\<rparr>"
    by auto
  have n62: "n < 2 ^ 62" using fit(2) rb_wfD(8)[OF wf] by linarith
  have len: "length (rb_data rb) = 2 ^ k" by (rule rb_wfD(3)[OF wf])
  have new: "entry_at (rb_data rb') ?w (Busy, rd (rb_data rb') (?w + 8) n)"
    using n62 load_store_same[of "rb_data rb" ?w] rb_wfD(9)[OF wf] len by (simp add: entry_at_def rb' hdr_word_def)
  have "entry_at (rb_data rb') (lpos b log j) (phys D log j)" if j: "a \<le> j" "j < length log" for j
  proof -
    have old: "entry_at (rb_data rb) (lpos b log j) (phys D log j)" using inv j by (simp add: ring_inv_def log_mem_def)
    have "lpos b log j + espace (log ! j) \<le> ?w"
      using j lpos_mono[of "Suc j" "length log" b log] by (simp add: lpos_Suc)
    then show ?thesis
      unfolding rb' store_u64_def
      using lpos_mono[OF j(1), of b log] fit(1) t stride_ge[of "n + 8"] len
      by (auto intro!: entry_at_wr[OF old, of "lpos b log a"])
  qed
  moreover have "length log \<notin> D" using inv by (auto simp: ring_inv_def)
  then have "phys D log' (length log) = (Busy, rd (rb_data rb') (?w + 8) n)" using uw by (simp add: phys_def log'_def)
  ultimately have mem: "log_mem (rb_data rb') b log' a D"
    using new by (auto simp: log_mem_def less_Suc_eq log'_def)
  have end': "lpos b log' (length log') = ?w + stride (n + 8)"
    using lpos_Suc[of "length log" log' b] by (simp add: log'_def espace_def)
  have "?w + stride (n + 8) < 2 ^ 64" using nowrap uw stride_le[of "n + 8"] by simp
  moreover have "?w + stride (n + 8) - lpos b log a < 2 ^ k" using fit(1) t by linarith
  moreover have "rb_wf k rb'" using wf by (simp add: rb')
  moreover have "lpos b log' a = lpos b log a" "lpos b log' c = lpos b log c"
    using inv by (auto simp: log'_def ring_inv_def)
  moreover have "\<forall>j<c. fst (log' ! j) \<noteq> Busy" "c \<le> length log'" using inv by (auto simp: ring_inv_def log'_def nth_append)
  ultimately have "ring_inv k rb' b log' a c D"
    using inv mem end' by (simp add: ring_inv_def rb')
  then show ?thesis using buf by (simp add: lbuf_def log'_def rb')
qed

lemma write_ring_inv:
  assumes inv: "ring_inv k rb b log a c D" and T: "c \<le> T" "T < length log"
    and h: "lpos b log T \<le> h" "h + length bs \<le> lpos b log (Suc T)"
    and e: "length (snd e) = length (snd (log ! T))" "entry_at (wr (rb_data rb) h bs) (lpos b log T) e"
  shows "ring_inv k (rb\<lparr>rb_data := wr (rb_data rb) h bs\<rparr>) b (log[T := e]) a c D"
proof -
  have len: "length (rb_data rb) = 2 ^ k" using inv rb_wfD(3) by (auto simp: ring_inv_def)
  have "lpos b log (length log) - lpos b log a < 2 ^ k" using inv by (simp add: ring_inv_def)
  then have "lpos b log (length log) \<le> lpos b log a + length (rb_data rb)" using len by linarith
  moreover have "a \<le> T" "T \<notin> D" using inv T by (auto simp: ring_inv_def)
  ultimately have "log_mem (wr (rb_data rb) h bs) b (log[T := e]) a D"
    using inv T h e by (intro log_mem_update) (auto simp: ring_inv_def)
  then show ?thesis
    using inv e(1) T by (auto simp: ring_inv_def lpos_update nth_list_update)
qed

text \<open>The ticket of a thread that holds a buffer is not read yet.\<close>

lemma busy_unread:
  "ring_inv k rb b log a c D \<Longrightarrow> fst (log ! T) = Busy \<Longrightarrow> c \<le> T"
  by (meson leI ring_inv_def)

lemma thr_inv_append:
  assumes "thr_inv m b log a th" "a \<le> length log"
  shows "thr_inv m b (log @ xs) a th"
proof -
  have tail: "\<exists>t\<le>lpos b log a. mw_tail (th_writer th) = of_nat t" using assms(1) unfolding thr_inv_def by (rule conjunct1)
  have "th_ticket th < length (log @ xs) \<and> fst ((log @ xs) ! th_ticket th) = Busy \<and> buf = lbuf m b (log @ xs) (th_ticket th)"
    if "th_buf th = Some buf" for buf
  proof -
    have "th_ticket th < length log" "fst (log ! th_ticket th) = Busy" "buf = lbuf m b log (th_ticket th)"
      using assms(1) that unfolding thr_inv_def by blast+
    then show ?thesis by (simp add: nth_append)
  qed
  then show ?thesis using tail assms(2) unfolding thr_inv_def by simp
qed

lemma thr_inv_update:
  assumes "thr_inv m b log a th" "length (snd e) = length (snd (log ! T))"
    and "th_buf th \<noteq> None \<Longrightarrow> th_ticket th = T \<Longrightarrow> fst e = Busy"
  shows "thr_inv m b (log[T := e]) a th"
  using assms unfolding thr_inv_def lpos_update[OF assms(2)] lbuf_update[OF assms(2)]
  by (cases "th_ticket th = T") (auto simp: nth_list_update)

lemma thr_inv_advance:
  assumes "thr_inv m b log a th" "a \<le> a'"
  shows "thr_inv m b log a' th"
  using assms lpos_mono[OF assms(2), of b log] unfolding thr_inv_def by (meson order_trans)

lemma threads_inv_set:
  assumes "threads_inv m b log a thr" "\<And>t'. t' \<noteq> t \<Longrightarrow> thr_inv m b log' a (thr t')" "thr_inv m b log' a th"
    and "\<And>t'. t' \<noteq> t \<Longrightarrow> th_buf (thr t') \<noteq> None \<Longrightarrow> th_buf th \<noteq> None \<Longrightarrow> th_ticket (thr t') \<noteq> th_ticket th"
  shows "threads_inv m b log' a (thr(t := th))"
  unfolding threads_inv_def
proof (intro conjI allI impI)
  show "thr_inv m b log' a ((thr(t := th)) t')" for t'
    using assms(2,3) by (cases "t' = t") simp_all
  fix u v
  assume uv: "th_buf ((thr(t := th)) u) \<noteq> None \<and> th_buf ((thr(t := th)) v) \<noteq> None \<and>
    th_ticket ((thr(t := th)) u) = th_ticket ((thr(t := th)) v)"
  show "u = v"
  proof (cases "u = t \<or> v = t")
    case True
    then show ?thesis using uv assms(4)[of u] assms(4)[of v] by (metis fun_upd_apply)
  next
    case False
    then show ?thesis using uv assms(1) unfolding threads_inv_def by (metis fun_upd_apply)
  qed
qed

lemma consumer_inv_append:
  assumes "consumer_inv ordered m b log a c D Ts inflight consumed reader" "c \<le> length log" "\<forall>e\<in>set xs. fst e = Busy"
  shows "consumer_inv ordered m b (log @ xs) a c D Ts inflight consumed reader"
proof -
  have lt: "T < length log" if "T \<in> set Ts" for T using assms that by (auto simp: consumer_inv_def)
  then have "map (lbuf m b (log @ xs)) Ts = map (lbuf m b log) Ts" by simp
  moreover have "\<forall>T\<in>set Ts. fst ((log @ xs) ! T) = Committed" using assms(1) lt by (simp add: consumer_inv_def nth_append)
  moreover have "\<exists>h. c \<le> h \<and> h \<le> length (log @ xs) \<and> mr_head reader = of_nat (lpos b (log @ xs) h)" if "\<not> ordered"
  proof -
    from assms(1) that obtain h where "c \<le> h" "h \<le> length log" "mr_head reader = of_nat (lpos b log h)"
      by (auto simp: consumer_inv_def)
    then show ?thesis by (intro exI[of _ h]) auto
  qed
  ultimately show ?thesis using assms by (auto simp: consumer_inv_def)
qed

lemma consumer_inv_update:
  assumes "consumer_inv ordered m b log a c D Ts inflight consumed reader" "c \<le> T"
    and e: "length (snd e) = length (snd (log ! T))" "fst e = Discarded \<Longrightarrow> \<not> ordered"
  shows "consumer_inv ordered m b (log[T := e]) a c D Ts inflight consumed reader"
proof -
  have "T \<notin> set Ts" using assms by (auto simp: consumer_inv_def)
  then have "log[T := e] ! T' = log ! T'" if "T' \<in> set Ts" for T' using that by (metis nth_list_update_neq)
  then have "\<forall>T'\<in>set Ts. fst (log[T := e] ! T') = Committed" using assms(1) by (simp add: consumer_inv_def)
  moreover have "set (log[T := e]) \<subseteq> insert e (set log)" by (rule set_update_subset_insert)
  ultimately show ?thesis
    using assms by (auto simp: consumer_inv_def lbuf_update[OF e(1)] lpos_update[OF e(1)])
qed

lemma reserve_inv:
  assumes inv: "mpsc_inv_at k ordered s b a c D Ts" and none: "th_buf (ms_thr s t) = None"
    and nowrap: "unat (rb_writer_pos (ms_rb s)) + n + 16 + unat (mw_high_priority_area_size (th_writer (ms_thr s t))) < 2 ^ 64"
    and res: "mw_reserve lock (ms_rb s) (th_writer (ms_thr s t)) (of_nat n) hp = Some (rb, buf, timeout)"
  shows "mpsc_inv k ordered (s\<lparr>ms_rb := rb,
      ms_thr := (ms_thr s)(t := (ms_thr s t)\<lparr>th_buf := buf, th_ticket := length (ms_log s)\<rparr>),
      ms_log := ms_log s @ (case buf of None \<Rightarrow> []
         | Some _ \<Rightarrow> [(Busy, rd (rb_data rb) (unat (rb_writer_pos (ms_rb s)) + 8) n)])\<rparr>)"
proof -
  let ?th = "(ms_thr s t)\<lparr>th_buf := buf, th_ticket := length (ms_log s)\<rparr>"
  from inv have ring: "ring_inv k (ms_rb s) b (ms_log s) a c D"
    and thr: "threads_inv (rb_mask (ms_rb s)) b (ms_log s) a (ms_thr s)" by (auto simp: mpsc_inv_at_def)
  then have th: "thr_inv (rb_mask (ms_rb s)) b (ms_log s) a (ms_thr s t')" for t' by (simp add: threads_inv_def)
  from th[of t] obtain t0 where t0: "t0 \<le> lpos b (ms_log s) a" "mw_tail (th_writer (ms_thr s t)) = of_nat t0"
    unfolding thr_inv_def by blast
  show ?thesis
  proof (cases buf)
    case None
    have "rb = ms_rb s"
      using res None unfolding mw_reserve_def Let_def by (auto split: if_splits)
    moreover have "threads_inv (rb_mask (ms_rb s)) b (ms_log s) a ((ms_thr s)(t := ?th))"
      using th None th[of t] by (intro threads_inv_set[OF thr]) (auto simp: thr_inv_def)
    ultimately have "mpsc_inv_at k ordered (s\<lparr>ms_rb := rb, ms_thr := (ms_thr s)(t := ?th), ms_log := ms_log s\<rparr>) b a c D Ts"
      using inv by (simp add: mpsc_inv_at_def)
    then show ?thesis using None mpsc_invI by simp
  next
    case (Some bf)
    let ?log = "ms_log s @ [(Busy, rd (rb_data rb) (unat (rb_writer_pos (ms_rb s)) + 8) n)]"
    have r: "ring_inv k rb b ?log a c D" "bf = lbuf (rb_mask rb) b ?log (length (ms_log s))" "rb_mask rb = rb_mask (ms_rb s)"
      using reserve_ring_inv[OF ring t0 nowrap res[unfolded Some]] by blast+
    have a: "a \<le> length (ms_log s)" "c \<le> length (ms_log s)" using ring by (auto simp: ring_inv_def)
    have "thr_inv (rb_mask rb) b ?log a ?th"
      using r(2) Some t0 a(1) by (auto simp: thr_inv_def)
    moreover have "th_ticket (ms_thr s t') < length (ms_log s)" if "th_buf (ms_thr s t') \<noteq> None" for t'
      using th[of t'] that unfolding thr_inv_def by blast
    ultimately have "threads_inv (rb_mask rb) b ?log a ((ms_thr s)(t := ?th))"
      using thr_inv_append[OF th a(1)] r(3) thr by (intro threads_inv_set[of _ _ "ms_log s"]) (simp_all, fastforce)
    moreover have "consumer_inv ordered (rb_mask rb) b ?log a c D Ts (ms_inflight s) (ms_consumed s) (ms_reader s)"
      using inv r(3) a(2) by (intro consumer_inv_append) (auto simp: mpsc_inv_at_def)
    ultimately have "mpsc_inv_at k ordered (s\<lparr>ms_rb := rb, ms_thr := (ms_thr s)(t := ?th), ms_log := ?log\<rparr>) b a c D Ts"
      using r(1) by (simp add: mpsc_inv_at_def)
    then show ?thesis using Some mpsc_invI by simp
  qed
qed

text \<open>What holds of a thread with a buffer.\<close>

lemma owner_facts:
  assumes inv: "mpsc_inv_at k ordered s b a c D Ts" and buf: "th_buf (ms_thr s t) = Some bf"
  shows "bf = lbuf (rb_mask (ms_rb s)) b (ms_log s) (th_ticket (ms_thr s t))"
    "th_ticket (ms_thr s t) < length (ms_log s)" "c \<le> th_ticket (ms_thr s t)"
    "fst (ms_log s ! th_ticket (ms_thr s t)) = Busy"
    "entry_at (rb_data (ms_rb s)) (lpos b (ms_log s) (th_ticket (ms_thr s t))) (ms_log s ! th_ticket (ms_thr s t))"
    "a \<le> th_ticket (ms_thr s t)"
proof -
  let ?T = "th_ticket (ms_thr s t)"
  have ring: "ring_inv k (ms_rb s) b (ms_log s) a c D"
    and "thr_inv (rb_mask (ms_rb s)) b (ms_log s) a (ms_thr s t)"
    using inv by (auto simp: mpsc_inv_at_def threads_inv_def)
  with buf show "bf = lbuf (rb_mask (ms_rb s)) b (ms_log s) ?T" and lt: "?T < length (ms_log s)"
    and busy: "fst (ms_log s ! ?T) = Busy" unfolding thr_inv_def by blast+
  from busy_unread[OF ring busy] show c: "c \<le> ?T" .
  show "a \<le> ?T" using ring c by (auto simp: ring_inv_def)
  moreover have "?T \<notin> D" using ring c by (auto simp: ring_inv_def)
  ultimately show "entry_at (rb_data (ms_rb s)) (lpos b (ms_log s) ?T) (ms_log s ! ?T)"
    using ring lt by (intro ring_inv_entry)
qed

lemma fill_inv:
  assumes inv: "mpsc_inv_at k ordered s b a c D Ts" and buf: "th_buf (ms_thr s t) = Some (off, sz)"
    and j: "j + length bs \<le> unat sz" and st: "rb_store (ms_rb s) (unat off + j) bs = Some rb"
    and T: "T = th_ticket (ms_thr s t)"
  shows "mpsc_inv k ordered (s\<lparr>ms_rb := rb, ms_log := (ms_log s)[T := (Busy, splice (snd (ms_log s ! T)) j bs)]\<rparr>)"
proof -
  let ?rb = "ms_rb s" and ?log = "ms_log s" and ?p = "lpos b (ms_log s) T" and ?n = "length (snd (ms_log s ! T))"
  let ?e = "(Busy, splice (snd (ms_log s ! T)) j bs)"
  note o = owner_facts[OF inv buf, folded T]
  have ring: "ring_inv k ?rb b ?log a c D" using inv by (simp add: mpsc_inv_at_def)
  then have wf: "rb_wf k ?rb" by (simp add: ring_inv_def)
  have len: "length (rb_data ?rb) = 2 ^ k" by (rule rb_wfD(3)[OF wf])
  have n62: "?n < 2 ^ 62" using o(5) by (simp add: entry_at_def)
  have off: "unat off = ?p mod 2 ^ k + 8" using lbuf_offset(1)[OF wf, of b ?log T] by (simp add: o(1)[symmetric])
  have "unat sz = ?n" using o(1) n62 unat_of_nat_u64[of ?n] by (simp add: lbuf_def)
  with j have j: "j + length bs \<le> ?n" by simp
  have "wr (rb_data ?rb) (unat off + j) bs = wr (rb_data ?rb) (?p + 8 + j) bs"
    by (rule wr_cong) (simp add: len off add.assoc mod_add_left_eq)
  then have rb: "rb = ?rb\<lparr>rb_data := wr (rb_data ?rb) (?p + 8 + j) bs\<rparr>"
    using st by (auto simp: rb_store_def split: if_splits)
  have room: "?n + 8 \<le> 2 ^ k" "?p + 8 + j + length bs \<le> lpos b ?log (Suc T)"
    using ring_inv_room[OF ring o(6,2)] j by linarith+
  have "rd (rb_data rb) (?p + 8) ?n = splice (snd (?log ! T)) j bs"
    using rd_wr_within[OF j, of "rb_data ?rb" "?p + 8"] room(1) len o(5) by (simp add: rb splice_def entry_at_def)
  moreover have "load_u64 (rb_data rb) ?p = load_u64 (rb_data ?rb) ?p"
    unfolding rb by simp (rule load_wr_disjoint[of ?p], use room(1) len j in auto)
  moreover have slen: "length (splice (snd (?log ! T)) j bs) = ?n" using j by (simp add: splice_def)
  ultimately have "entry_at (wr (rb_data ?rb) (?p + 8 + j) bs) ?p ?e"
    using o(4,5) by (simp add: entry_at_def rb)
  then have "ring_inv k rb b (?log[T := ?e]) a c D"
    unfolding rb using o(2,3) room(2) slen by (intro write_ring_inv[OF ring]) auto
  moreover have "threads_inv (rb_mask rb) b (?log[T := ?e]) a (ms_thr s)"
    using inv slen thr_inv_update[of "rb_mask ?rb" b ?log a _ ?e T] by (simp add: mpsc_inv_at_def threads_inv_def rb)
  moreover have "consumer_inv ordered (rb_mask rb) b (?log[T := ?e]) a c D Ts (ms_inflight s) (ms_consumed s) (ms_reader s)"
    using inv o(3) slen by (intro consumer_inv_update) (auto simp: mpsc_inv_at_def rb)
  ultimately show ?thesis by (intro mpsc_invI) (simp add: mpsc_inv_at_def)
qed

lemma commit_inv:
  assumes inv: "mpsc_inv_at k ordered s b a c D Ts" and buf: "th_buf (ms_thr s t) = Some bf"
    and d: "discard \<Longrightarrow> \<not> ordered"
    and res: "mw_commit_internal (ms_rb s) (th_writer (ms_thr s t)) bf discard = Some (rb, w, notify)"
    and T: "T = th_ticket (ms_thr s t)"
  shows "mpsc_inv k ordered (s\<lparr>ms_rb := rb,
      ms_thr := (ms_thr s)(t := (ms_thr s t)\<lparr>th_writer := w, th_buf := None\<rparr>),
      ms_log := (ms_log s)[T := (if discard then Discarded else Committed, snd (ms_log s ! T))]\<rparr>)"
proof -
  let ?rb = "ms_rb s" and ?log = "ms_log s" and ?p = "lpos b (ms_log s) T" and ?n = "length (snd (ms_log s ! T))"
  let ?st = "if discard then Discarded else Committed"
  let ?e = "(?st, snd (ms_log s ! T))" and ?th = "(ms_thr s t)\<lparr>th_writer := w, th_buf := None\<rparr>"
  note o = owner_facts[OF inv buf, folded T]
  have ring: "ring_inv k ?rb b ?log a c D" and thr: "threads_inv (rb_mask ?rb) b ?log a (ms_thr s)"
    using inv by (auto simp: mpsc_inv_at_def)
  then have wf: "rb_wf k ?rb" and al: "8 dvd ?p" by (auto simp: ring_inv_def lpos_aligned)
  have ent: "entry_at (rb_data ?rb) ?p (Busy, snd (?log ! T))" using o(4,5) by (metis prod.collapse)
  from mw_commit_internal_pos[OF wf al ent, of "th_writer (ms_thr s t)" "of_nat ?n" discard] res o(1)
  have rb: "rb = ?rb\<lparr>rb_data := store_u64 (rb_data ?rb) ?p (hdr_word ?st ?n)\<rparr>" and w: "mw_tail w = rb_reader_pos ?rb"
    by (auto simp: lbuf_def)
  have len: "length (rb_data ?rb) = 2 ^ k" "8 \<le> length (rb_data ?rb)" using rb_wfD(3,9)[OF wf] by auto
  note room = ring_inv_room[OF ring o(6,2)]
  have "rd (store_u64 (rb_data ?rb) ?p (hdr_word ?st ?n)) (?p + 8) ?n = rd (rb_data ?rb) (?p + 8) ?n"
    by (rule rd_store_disjoint[of ?p]) (use room len in auto)
  then have ent': "entry_at (store_u64 (rb_data ?rb) ?p (hdr_word ?st ?n)) ?p ?e"
    using load_store_same[OF len(2)] ent by (simp add: entry_at_def)
  have "ring_inv k rb b (?log[T := ?e]) a c D"
    unfolding rb store_u64_def
    using o(2,3) room(2) ent'[unfolded store_u64_def]
    by (intro write_ring_inv[OF ring]) auto
  moreover have "threads_inv (rb_mask rb) b (?log[T := ?e]) a ((ms_thr s)(t := ?th))"
  proof -
    have "thr_inv (rb_mask ?rb) b (?log[T := ?e]) a (ms_thr s t')" if "t' \<noteq> t" for t'
    proof -
      have "th_ticket (ms_thr s t') \<noteq> T" if "th_buf (ms_thr s t') \<noteq> None"
        using thr that \<open>t' \<noteq> t\<close> buf T unfolding threads_inv_def by (metis option.distinct(1))
      then show ?thesis using thr by (intro thr_inv_update) (auto simp: threads_inv_def)
    qed
    moreover have "thr_inv (rb_mask ?rb) b (?log[T := ?e]) a ?th"
      using w ring by (auto simp: thr_inv_def ring_inv_def lpos_update)
    ultimately show ?thesis unfolding rb by (intro threads_inv_set[OF _ _ _]) (use thr in simp_all)
  qed
  moreover have "consumer_inv ordered (rb_mask rb) b (?log[T := ?e]) a c D Ts (ms_inflight s) (ms_consumed s) (ms_reader s)"
    using inv o(3) d by (intro consumer_inv_update) (auto simp: mpsc_inv_at_def rb split: if_splits)
  ultimately show ?thesis by (intro mpsc_invI) (simp add: mpsc_inv_at_def)
qed

section \<open>Consumer steps keep the invariant\<close>

lemma read_sample_log:
  assumes inv: "ring_inv k rb b log a c D" and h: "c \<le> h" "h \<le> length log"
  shows "\<exists>m. c + m \<le> h \<and> (\<forall>j. c \<le> j \<and> j < c + m \<longrightarrow> fst (log ! j) = Discarded) \<and>
    (c + m < h \<and> fst (log ! (c + m)) = Committed \<and>
       mpsc_rb_read_sample_to (of_nat (lpos b log h)) rb =
         Some (rb\<lparr>rb_intermediate_reader_pos := of_nat (lpos b log (Suc (c + m)))\<rparr>, Some (lbuf (rb_mask rb) b log (c + m))) \<or>
     (c + m = h \<or> fst (log ! (c + m)) = Busy) \<and>
       mpsc_rb_read_sample_to (of_nat (lpos b log h)) rb =
         Some (rb\<lparr>rb_intermediate_reader_pos := of_nat (lpos b log (c + m))\<rparr>, None))"
proof -
  let ?ys = "map (phys D log) [c..<h]"
  have log: "phys D log j = log ! j" if "c \<le> j" for j using inv that by (auto simp: ring_inv_def phys_def)
  have mem: "entries_at (rb_data rb) (lpos b log c) ?ys (lpos b log h)"
    using inv h by (intro log_mem_entries) (auto simp: ring_inv_def)
  have lt: "lpos b log h < 2 ^ 64" using inv lpos_mono[OF h(2), of b log] by (auto simp: ring_inv_def)
  have "rb_wf k rb" "8 dvd lpos b log c" "rb_intermediate_reader_pos rb = of_nat (lpos b log c)"
    using inv by (auto simp: ring_inv_def lpos_aligned)
  from mpsc_rb_read_sample_to_spec[OF this(1,2) mem lt this(3)]
  obtain ds rest p where r: "?ys = ds @ rest" "\<forall>d\<in>set ds. fst d = Discarded" "rest \<noteq> [] \<longrightarrow> fst (hd rest) \<noteq> Discarded"
    "entries_at (rb_data rb) (lpos b log c) ds p"
    "mpsc_rb_read_sample_to (of_nat (lpos b log h)) rb = Some (read_result rb p rest)" by blast
  define m where "m = length ds"
  from entries_at_prefix_end[OF r(1,4) h(2,1)]
  have p: "p = lpos b log (c + m)" and m: "c + m \<le> h" and ds: "ds = map (phys D log) [c..<c + m]"
    and rest: "rest = map (phys D log) [c + m..<h]" unfolding m_def by blast+
  have disc: "fst (log ! j) = Discarded" if "c \<le> j \<and> j < c + m" for j
  proof -
    have "phys D log j \<in> set ds" using that unfolding ds by auto
    then show ?thesis using r(2) log that by auto
  qed
  show ?thesis
  proof (cases "c + m < h")
    case True
    then have "rest = log ! (c + m) # map (phys D log) [Suc (c + m)..<h]"
      using log[of "c + m"] by (simp add: rest upt_conv_Cons)
    moreover obtain st bs where e: "log ! (c + m) = (st, bs)" by (cases "log ! (c + m)")
    ultimately have rest: "rest = (st, bs) # map (phys D log) [Suc (c + m)..<h]" and "st \<noteq> Discarded" using r(3) by auto
    moreover have "lpos b log (Suc (c + m)) = lpos b log (c + m) + espace (st, bs)"
      using True h(2) e by (simp add: lpos_Suc)
    ultimately have "st = Committed \<and> read_result rb p rest = (rb\<lparr>rb_intermediate_reader_pos := of_nat (lpos b log (Suc (c + m)))\<rparr>,
          Some (lbuf (rb_mask rb) b log (c + m))) \<or>
        st = Busy \<and> read_result rb p rest = (rb\<lparr>rb_intermediate_reader_pos := of_nat (lpos b log (c + m))\<rparr>, None)"
      by (cases st) (simp_all add: read_result_def lbuf_def e p)
    then show ?thesis
      using True disc r(5) m e by (intro exI[of _ m]) (metis fst_conv)
  next
    case False
    then have "rest = []" "c + m = h" using m by (auto simp: rest)
    then show ?thesis using r(5) p disc by (auto simp: read_result_def intro!: exI[of _ m])
  qed
qed

lemma ring_inv_read:
  assumes "ring_inv k rb b log a c D" "c \<le> c'" "c' \<le> length log" "\<And>j. c \<le> j \<Longrightarrow> j < c' \<Longrightarrow> fst (log ! j) \<noteq> Busy"
  shows "ring_inv k (rb\<lparr>rb_intermediate_reader_pos := of_nat (lpos b log c')\<rparr>) b log a c' D"
proof -
  have "fst (log ! j) \<noteq> Busy" if "j < c'" for j
    using assms(1,4) that by (cases "j < c") (auto simp: ring_inv_def)
  then show ?thesis using assms(1-3) by (auto simp: ring_inv_def)
qed

lemma committed_skip:
  assumes "\<And>j. c \<le> j \<Longrightarrow> j < c + m \<Longrightarrow> fst (log ! j) \<noteq> Committed" "c + m \<le> length log"
  shows "committed (take (c + m) log) = committed (take c log)"
proof -
  have "fst e \<noteq> Committed" if "e \<in> set (take m (drop c log))" for e
  proof -
    from that obtain i where "i < m" "e = log ! (c + i)" using assms(2) by (auto simp: in_set_conv_nth)
    then show ?thesis using assms(1)[of "c + i"] by simp
  qed
  then have "filter (\<lambda>e. fst e = Committed) (take m (drop c log)) = []" by (simp add: filter_empty_conv)
  then show ?thesis by (simp add: committed_def take_add)
qed

lemma reader_head:
  assumes "mpsc_inv_at k ordered s b a c D Ts"
  obtains h where "c \<le> h" "h \<le> length (ms_log s)"
    "(if ordered then mpsc_rb_read_sample (ms_rb s) else mr_read_sample (ms_rb s) (ms_reader s)) =
     mpsc_rb_read_sample_to (of_nat (lpos b (ms_log s) h)) (ms_rb s)"
    "ordered \<Longrightarrow> h = length (ms_log s)" "\<not> ordered \<Longrightarrow> mr_head (ms_reader s) = of_nat (lpos b (ms_log s) h)"
proof (cases ordered)
  case True
  then show ?thesis
    using assms that[of "length (ms_log s)"] by (auto simp: mpsc_inv_at_def ring_inv_def mpsc_rb_read_sample_def)
next
  case False
  then obtain h where "c \<le> h" "h \<le> length (ms_log s)" "mr_head (ms_reader s) = of_nat (lpos b (ms_log s) h)"
    using assms by (auto simp: mpsc_inv_at_def consumer_inv_def)
  then show ?thesis using that[of h] False by (simp add: mr_read_sample_def)
qed

lemma consumer_inv_skip:
  assumes inv: "consumer_inv ordered m b log a c D Ts inflight consumed reader"
    and "c + n \<le> h" "h \<le> length log" "\<And>j. c \<le> j \<Longrightarrow> j < c + n \<Longrightarrow> fst (log ! j) = Discarded"
    and "\<not> ordered \<Longrightarrow> mr_head reader = of_nat (lpos b log h)"
  shows "consumer_inv ordered m b log a (c + n) D Ts inflight consumed reader"
proof -
  have "committed (take (c + n) log) = committed (take c log)"
    by (rule committed_skip) (use assms in auto)
  moreover have "set Ts \<subseteq> {a..<c + n} - D" using inv by (auto simp: consumer_inv_def)
  ultimately show ?thesis using assms by (auto simp: consumer_inv_def)
qed

lemma read_none_inv:
  assumes inv: "mpsc_inv_at k ordered s b a c D Ts"
    and res: "(if ordered then mpsc_rb_read_sample (ms_rb s) else mr_read_sample (ms_rb s) (ms_reader s)) = Some (rb, None)"
  shows "mpsc_inv k ordered (s\<lparr>ms_rb := rb\<rparr>)"
proof -
  from inv have ring: "ring_inv k (ms_rb s) b (ms_log s) a c D"
    and thr: "threads_inv (rb_mask (ms_rb s)) b (ms_log s) a (ms_thr s)"
    and con: "consumer_inv ordered (rb_mask (ms_rb s)) b (ms_log s) a c D Ts (ms_inflight s) (ms_consumed s) (ms_reader s)"
    by (auto simp: mpsc_inv_at_def)
  from reader_head[OF inv] obtain h where h: "c \<le> h" "h \<le> length (ms_log s)" "\<not> ordered \<Longrightarrow> mr_head (ms_reader s) = of_nat (lpos b (ms_log s) h)"
    "mpsc_rb_read_sample_to (of_nat (lpos b (ms_log s) h)) (ms_rb s) = Some (rb, None)"
    using res by metis
  from read_sample_log[OF ring h(1,2)] h(4) obtain n where n: "c + n \<le> h"
    "\<And>j. c \<le> j \<Longrightarrow> j < c + n \<Longrightarrow> fst (ms_log s ! j) = Discarded"
    "rb = (ms_rb s)\<lparr>rb_intermediate_reader_pos := of_nat (lpos b (ms_log s) (c + n))\<rparr>" by auto
  have "ring_inv k rb b (ms_log s) a (c + n) D"
    unfolding n(3) using n(1,2) h(2) by (intro ring_inv_read[OF ring]) auto
  moreover have "consumer_inv ordered (rb_mask (ms_rb s)) b (ms_log s) a (c + n) D Ts (ms_inflight s) (ms_consumed s) (ms_reader s)"
    using n(2) h(3) by (intro consumer_inv_skip[OF con n(1) h(2)]) auto
  ultimately have "mpsc_inv_at k ordered (s\<lparr>ms_rb := rb\<rparr>) b a (c + n) D Ts"
    using thr by (simp add: mpsc_inv_at_def n(3))
  then show ?thesis by (rule mpsc_invI)
qed

lemma read_some_inv:
  assumes inv: "mpsc_inv_at k ordered s b a c D Ts"
    and res: "(if ordered then mpsc_rb_read_sample (ms_rb s) else mr_read_sample (ms_rb s) (ms_reader s)) = Some (rb, Some (off, sz))"
    and bs: "rb_load rb (unat off) (unat sz) = Some bs"
  shows "mpsc_inv k ordered (s\<lparr>ms_rb := rb, ms_inflight := ms_inflight s @ [(off, sz)], ms_consumed := ms_consumed s @ [bs]\<rparr>)"
proof -
  let ?log = "ms_log s" and ?m = "rb_mask (ms_rb s)"
  from inv have ring: "ring_inv k (ms_rb s) b ?log a c D" and thr: "threads_inv ?m b ?log a (ms_thr s)"
    and con: "consumer_inv ordered ?m b ?log a c D Ts (ms_inflight s) (ms_consumed s) (ms_reader s)"
    by (auto simp: mpsc_inv_at_def)
  from reader_head[OF inv] obtain h where h: "c \<le> h" "h \<le> length ?log" "\<not> ordered \<Longrightarrow> mr_head (ms_reader s) = of_nat (lpos b ?log h)"
    "mpsc_rb_read_sample_to (of_nat (lpos b ?log h)) (ms_rb s) = Some (rb, Some (off, sz))"
    using res by metis
  from read_sample_log[OF ring h(1,2)] h(4) obtain n where n: "c + n < h" "fst (?log ! (c + n)) = Committed"
    "\<And>j. c \<le> j \<Longrightarrow> j < c + n \<Longrightarrow> fst (?log ! j) = Discarded"
    "rb = (ms_rb s)\<lparr>rb_intermediate_reader_pos := of_nat (lpos b ?log (Suc (c + n)))\<rparr>"
    "(off, sz) = lbuf ?m b ?log (c + n)" by auto
  have nb: "fst (?log ! j) \<noteq> Busy" if "c \<le> j" "j < Suc (c + n)" for j
    using n(2) n(3)[of j] that by (cases "j = c + n") auto
  have ring': "ring_inv k rb b ?log a (Suc (c + n)) D"
    unfolding n(4) using n(1) h(2) nb by (intro ring_inv_read[OF ring]) auto
  have cn: "a \<le> c + n" "c + n < length ?log" "c + n \<notin> D" using ring n(1) h(2) by (auto simp: ring_inv_def)
  have mask: "rb_mask rb = ?m" by (simp add: n(4))
  have bs': "bs = snd (?log ! (c + n))"
    using lbuf_load[OF ring' cn] bs unfolding mask n(5)[symmetric] by simp
  have con': "consumer_inv ordered ?m b ?log a (c + n) D Ts (ms_inflight s) (ms_consumed s) (ms_reader s)"
    using n(1,3) h(3) by (intro consumer_inv_skip[OF con _ h(2)]) auto
  have "committed (take (Suc (c + n)) ?log) = committed (take (c + n) ?log) @ [bs]"
    using cn(2) n(2) bs' by (simp add: committed_def take_Suc_conv_app_nth)
  moreover have "\<exists>h. Suc (c + n) \<le> h \<and> h \<le> length ?log \<and> mr_head (ms_reader s) = of_nat (lpos b ?log h)" if "\<not> ordered"
    using n(1) h(2,3) that by (intro exI[of _ h]) simp
  moreover have "set (Ts @ [c + n]) \<subseteq> {a..<Suc (c + n)} - D" "distinct (Ts @ [c + n])"
    using con' cn by (auto simp: consumer_inv_def)
  ultimately have "consumer_inv ordered ?m b ?log a (Suc (c + n)) D (Ts @ [c + n]) (ms_inflight s @ [(off, sz)]) (ms_consumed s @ [bs]) (ms_reader s)"
    using con' n(2,5) by (simp add: consumer_inv_def)
  then have "mpsc_inv_at k ordered (s\<lparr>ms_rb := rb, ms_inflight := ms_inflight s @ [(off, sz)], ms_consumed := ms_consumed s @ [bs]\<rparr>)
      b a (Suc (c + n)) D (Ts @ [c + n])"
    using ring' thr by (simp add: mpsc_inv_at_def mask)
  then show ?thesis by (rule mpsc_invI)
qed

text \<open>Marking a ticket that was read as discarded.\<close>

lemma ring_inv_mark:
  assumes inv: "ring_inv k rb b log a c D" and T: "a \<le> T" "T < c" "T \<notin> D"
  shows "ring_inv k (rb\<lparr>rb_data := store_u64 (rb_data rb) (lpos b log T) (hdr_word Discarded (length (snd (log ! T))))\<rparr>)
    b log a c (insert T D)"
proof -
  let ?p = "lpos b log T" and ?n = "length (snd (log ! T))" and ?e = "(Discarded, snd (log ! T))"
  let ?data = "store_u64 (rb_data rb) (lpos b log T) (hdr_word Discarded (length (snd (log ! T))))"
  have wf: "rb_wf k rb" and lt: "T < length log" using inv T by (auto simp: ring_inv_def)
  have len: "length (rb_data rb) = 2 ^ k" "8 \<le> length (rb_data rb)" using rb_wfD(3,9)[OF wf] by auto
  note room = ring_inv_room[OF inv T(1) lt]
  have "rd ?data (?p + 8) ?n = rd (rb_data rb) (?p + 8) ?n"
    by (rule rd_store_disjoint[of ?p]) (use room len in auto)
  then have e: "entry_at ?data ?p ?e"
    using load_store_same[OF len(2)] ring_inv_entry[OF inv T(1) lt T(3)] by (simp add: entry_at_def)
  have "lpos b log (length log) - lpos b log a < 2 ^ k" using inv by (simp add: ring_inv_def)
  then have win: "lpos b log (length log) \<le> lpos b log a + length (rb_data rb)" using len(1) by linarith
  have "log_mem (wr (rb_data rb) ?p (le_bytes 8 (unat (hdr_word Discarded ?n)))) b (log[T := ?e]) a D"
    using inv T lt win room(2) e[unfolded store_u64_def] by (intro log_mem_update) (auto simp: ring_inv_def)
  then have "log_mem ?data b (log[T := ?e]) a D" by (simp add: store_u64_def)
  moreover have "phys (insert T D) log j = phys D (log[T := ?e]) j" if "j < length log" for j
    using T(3) that by (cases "j = T") (auto simp: phys_def)
  ultimately have "log_mem ?data b log a (insert T D)"
    unfolding log_mem_def by (simp add: lpos_update)
  then show ?thesis using inv T by (auto simp: ring_inv_def)
qed

lemma ring_inv_free:
  assumes inv: "ring_inv k rb b log a c D" and a': "a \<le> a'" "a' \<le> c"
  shows "ring_inv k (rb\<lparr>rb_reader_pos := of_nat (lpos b log a')\<rparr>) b log a' c (D \<inter> {a'..})"
proof -
  have "phys (D \<inter> {a'..}) log j = phys D log j" if "a' \<le> j" for j using that by (simp add: phys_def)
  then have "log_mem (rb_data rb) b log a' (D \<inter> {a'..})"
    using inv a'(1) unfolding ring_inv_def log_mem_def by simp
  moreover have "lpos b log (length log) - lpos b log a < 2 ^ k" using inv by (simp add: ring_inv_def)
  then have "lpos b log (length log) - lpos b log a' < 2 ^ k" using lpos_mono[OF a'(1), of b log] by linarith
  moreover have "D \<inter> {a'..} \<subseteq> {a'..<c}" using inv by (auto simp: ring_inv_def)
  ultimately show ?thesis using inv a' by (simp add: ring_inv_def)
qed

text \<open>In the ordered use the tail passes only tickets that were read and released.\<close>

lemma advance_tail_log:
  assumes inv: "ring_inv k rb b log a c D" and nd: "\<forall>e\<in>set log. fst e \<noteq> Discarded"
  shows "\<exists>a'. a \<le> a' \<and> a' \<le> c \<and> {a..<a'} \<subseteq> D \<and>
    mpsc_advance_tail rb (rb_writer_pos rb) (rb_reader_pos rb) = Some (of_nat (lpos b log a'))"
proof -
  let ?n = "length log"
  have le: "a \<le> ?n" using inv by (auto simp: ring_inv_def)
  have mem: "entries_at (rb_data rb) (lpos b log a) (map (phys D log) [a..<?n]) (lpos b log ?n)"
    using inv le by (intro log_mem_entries) (auto simp: ring_inv_def)
  have "rb_wf k rb" "8 dvd lpos b log a" "lpos b log ?n < 2 ^ 64" using inv by (auto simp: ring_inv_def lpos_aligned)
  from mpsc_advance_tail_spec[OF this(1,2) mem this(3)] obtain ds rest p where
    r: "map (phys D log) [a..<?n] = ds @ rest" "\<forall>d\<in>set ds. fst d = Discarded"
      "entries_at (rb_data rb) (lpos b log a) ds p"
      "mpsc_advance_tail rb (of_nat (lpos b log ?n)) (of_nat (lpos b log a)) = Some (of_nat p)" by blast
  define m where "m = length ds"
  from entries_at_prefix_end[OF r(1,3) order_refl le]
  have p: "p = lpos b log (a + m)" and m: "a + m \<le> ?n" and ds: "ds = map (phys D log) [a..<a + m]"
    unfolding m_def by blast+
  have "j \<in> D" if j: "j \<in> {a..<a + m}" for j
  proof (rule ccontr)
    assume "j \<notin> D"
    then have "log ! j \<in> set ds" using j unfolding ds by (force simp: phys_def)
    moreover have "log ! j \<in> set log" using j m by simp
    ultimately show False using r(2) nd by blast
  qed
  then have sub: "{a..<a + m} \<subseteq> D" by blast
  moreover have "a + m \<le> c"
  proof (cases m)
    case (Suc i)
    then have "a + i \<in> D" using sub by (intro subsetD[OF sub]) simp
    then show ?thesis using inv Suc by (auto simp: ring_inv_def)
  qed (use inv in \<open>simp add: ring_inv_def\<close>)
  moreover have "rb_writer_pos rb = of_nat (lpos b log ?n)" "rb_reader_pos rb = of_nat (lpos b log a)"
    using inv by (auto simp: ring_inv_def)
  ultimately show ?thesis using r(4) p by (intro exI[of _ "a + m"]) simp
qed

lemma release_log:
  assumes ring: "ring_inv k rb b log a c D" and nd: "\<forall>e\<in>set log. fst e \<noteq> Discarded" and T: "a \<le> T" "T < c" "T \<notin> D" "fst (log ! T) = Committed"
  shows "\<exists>rb' a' D'. mpsc_rb_advance_if_possible rb (fst (lbuf (rb_mask rb) b log T)) = Some rb' \<and> ring_inv k rb' b log a' c D' \<and>
    rb_mask rb' = rb_mask rb \<and> a \<le> a' \<and> {a..<c} - insert T D \<subseteq> {a'..<c} - D'"
proof -
  let ?n = "length (snd (log ! T))" and ?ev = "fst (lbuf (rb_mask rb) b log T)"
  have wf: "rb_wf k rb" and al: "8 dvd lpos b log T" and lt: "T < length log" using ring T by (auto simp: ring_inv_def lpos_aligned)
  have hdr: "?ev - 8 = of_nat (lpos b log T) AND rb_mask rb" using lbuf_offset(2)[OF wf, of b log T] .
  have e: "load_u64 (rb_data rb) (lpos b log T) = hdr_word Committed ?n" "?n < 2 ^ 62"
    using ring_inv_entry[OF ring T(1) lt T(3)] T(4) by (auto simp: entry_at_def)
  define rb1 where "rb1 = rb\<lparr>rb_data := store_u64 (rb_data rb) (lpos b log T) (hdr_word Discarded ?n)\<rparr>"
  have ring1: "ring_inv k rb1 b log a c (insert T D)" unfolding rb1_def by (rule ring_inv_mark[OF ring T(1-3)])
  from advance_tail_log[OF ring1 nd] obtain a' where a': "a \<le> a'" "a' \<le> c" "{a..<a'} \<subseteq> insert T D"
    "mpsc_advance_tail rb1 (rb_writer_pos rb1) (rb_reader_pos rb1) = Some (of_nat (lpos b log a'))" by blast
  let ?rb2 = "rb1\<lparr>rb_reader_pos := of_nat (lpos b log a')\<rparr>" and ?D = "insert T D \<inter> {a'..}"
  have adv: "mpsc_rb_advance_if_possible rb ?ev = Some ?rb2"
    using a'(4) by (simp add: mpsc_rb_advance_if_possible_def hdr load_hdr_pos[OF wf al] store_hdr_pos[OF wf al] e(1)
        set_discarded_def hdr_word_flags(5)[OF e(2)] rb1_def)
  have "ring_inv k ?rb2 b log a' c ?D" by (rule ring_inv_free[OF ring1 a'(1,2)])
  moreover have "T' \<in> {a'..<c} - ?D" if "T' \<in> {a..<c} - insert T D" for T'
    using that a'(3) by (metis DiffD1 DiffD2 DiffI IntD1 atLeastLessThan_iff not_le subsetD)
  moreover have "rb_mask ?rb2 = rb_mask rb" by (simp add: rb1_def)
  ultimately show ?thesis using adv a'(1) by blast
qed

lemma release_inv:
  assumes inv: "mpsc_inv_at k True s b a c D Ts" and fl: "ms_inflight s = xs @ (event, sz) # ys"
  shows "\<exists>rb. mpsc_rb_advance_if_possible (ms_rb s) event = Some rb \<and>
    mpsc_inv k True (s\<lparr>ms_rb := rb, ms_inflight := xs @ ys\<rparr>)"
proof -
  let ?log = "ms_log s" and ?rb = "ms_rb s" and ?m = "rb_mask (ms_rb s)"
  from inv have ring: "ring_inv k ?rb b ?log a c D" and thr: "threads_inv ?m b ?log a (ms_thr s)"
    and con: "consumer_inv True ?m b ?log a c D Ts (ms_inflight s) (ms_consumed s) (ms_reader s)"
    by (auto simp: mpsc_inv_at_def)
  from con have "map (lbuf ?m b ?log) Ts = xs @ (event, sz) # ys" using fl by (simp add: consumer_inv_def)
  then obtain Xs T Ys where Ts: "Ts = Xs @ T # Ys" "xs = map (lbuf ?m b ?log) Xs" "ys = map (lbuf ?m b ?log) Ys"
      and ev: "(event, sz) = lbuf ?m b ?log T"
    by (auto simp: map_eq_append_conv map_eq_Cons_conv)
  have T: "a \<le> T" "T < c" "T \<notin> D" "fst (?log ! T) = Committed" using con Ts(1) by (auto simp: consumer_inv_def)
  have nd: "\<forall>e\<in>set ?log. fst e \<noteq> Discarded" using con by (simp add: consumer_inv_def)
  from release_log[OF ring nd T] obtain rb2 a' D' where adv: "mpsc_rb_advance_if_possible ?rb event = Some rb2"
    and ring2: "ring_inv k rb2 b ?log a' c D'" "rb_mask rb2 = ?m" "a \<le> a'" "{a..<c} - insert T D \<subseteq> {a'..<c} - D'"
    by (auto simp: ev[symmetric])
  have "set (Xs @ Ys) \<subseteq> {a..<c} - insert T D" using con Ts(1) by (auto simp: consumer_inv_def)
  then have "set (Xs @ Ys) \<subseteq> {a'..<c} - D'" using ring2(4) by blast
  then have "consumer_inv True ?m b ?log a' c D' (Xs @ Ys) (xs @ ys) (ms_consumed s) (ms_reader s)"
    using con Ts by (auto simp: consumer_inv_def)
  moreover have "threads_inv ?m b ?log a' (ms_thr s)"
    using thr thr_inv_advance[OF _ ring2(3)] by (simp add: threads_inv_def)
  ultimately have "mpsc_inv_at k True (s\<lparr>ms_rb := rb2, ms_inflight := xs @ ys\<rparr>) b a' c D' (Xs @ Ys)"
    using ring2 by (simp add: mpsc_inv_at_def)
  then show ?thesis using adv mpsc_invI by blast
qed

lemma thread_writer_inv:
  assumes inv: "mpsc_inv_at k ordered s b a c D Ts" and w: "mw_tail w = rb_reader_pos (ms_rb s)"
  shows "mpsc_inv k ordered (s\<lparr>ms_thr := (ms_thr s)(t := (ms_thr s t)\<lparr>th_writer := w\<rparr>)\<rparr>)"
proof -
  have ring: "ring_inv k (ms_rb s) b (ms_log s) a c D"
    and thr: "threads_inv (rb_mask (ms_rb s)) b (ms_log s) a (ms_thr s)" using inv by (auto simp: mpsc_inv_at_def)
  then have th: "thr_inv (rb_mask (ms_rb s)) b (ms_log s) a (ms_thr s t')" for t' by (simp add: threads_inv_def)
  have "thr_inv (rb_mask (ms_rb s)) b (ms_log s) a ((ms_thr s t)\<lparr>th_writer := w\<rparr>)"
    using th[of t] ring w unfolding thr_inv_def by (auto simp: ring_inv_def)
  moreover have "th_ticket (ms_thr s t') \<noteq> th_ticket (ms_thr s t)"
    if "t' \<noteq> t" "th_buf (ms_thr s t') \<noteq> None" "th_buf (ms_thr s t) \<noteq> None" for t'
    using thr that unfolding threads_inv_def by blast
  ultimately have "threads_inv (rb_mask (ms_rb s)) b (ms_log s) a ((ms_thr s)(t := (ms_thr s t)\<lparr>th_writer := w\<rparr>))"
    using th by (intro threads_inv_set[OF thr]) simp_all
  then have "mpsc_inv_at k ordered (s\<lparr>ms_thr := (ms_thr s)(t := (ms_thr s t)\<lparr>th_writer := w\<rparr>)\<rparr>) b a c D Ts"
    using inv by (simp add: mpsc_inv_at_def)
  then show ?thesis by (rule mpsc_invI)
qed

lemma reader_advance_inv:
  assumes inv: "mpsc_inv_at k ordered s b a c D Ts" and u: "\<not> ordered"
  shows "mpsc_inv k ordered (s\<lparr>ms_rb := mr_advance (ms_rb s), ms_inflight := []\<rparr>)"
proof -
  have ring: "ring_inv k (ms_rb s) b (ms_log s) a c D" using inv by (simp add: mpsc_inv_at_def)
  have ac: "a \<le> c" and i: "rb_intermediate_reader_pos (ms_rb s) = of_nat (lpos b (ms_log s) c)"
    using ring by (auto simp: ring_inv_def)
  have "ring_inv k (mr_advance (ms_rb s)) b (ms_log s) c c (D \<inter> {c..})"
    using ring_inv_free[OF ring ac order_refl] by (simp add: mr_advance_def i)
  moreover have "threads_inv (rb_mask (ms_rb s)) b (ms_log s) c (ms_thr s)"
    using inv thr_inv_advance[OF _ ac] by (simp add: mpsc_inv_at_def threads_inv_def)
  moreover have "consumer_inv ordered (rb_mask (ms_rb s)) b (ms_log s) c c (D \<inter> {c..}) [] [] (ms_consumed s) (ms_reader s)"
    using inv by (auto simp: mpsc_inv_at_def consumer_inv_def)
  ultimately have "mpsc_inv_at k ordered (s\<lparr>ms_rb := mr_advance (ms_rb s), ms_inflight := []\<rparr>) b c c (D \<inter> {c..}) []"
    by (simp add: mpsc_inv_at_def mr_advance_def)
  then show ?thesis by (rule mpsc_invI)
qed

lemma reader_update_inv:
  assumes inv: "mpsc_inv_at k ordered s b a c D Ts"
  shows "mpsc_inv k ordered (s\<lparr>ms_reader := mr_init (ms_rb s)\<rparr>)"
proof -
  have "c \<le> length (ms_log s)" "mr_head (mr_init (ms_rb s)) = of_nat (lpos b (ms_log s) (length (ms_log s)))"
    using inv by (auto simp: mpsc_inv_at_def ring_inv_def mr_init_def)
  then have "mpsc_inv_at k ordered (s\<lparr>ms_reader := mr_init (ms_rb s)\<rparr>) b a c D Ts"
    using inv unfolding mpsc_inv_at_def consumer_inv_def by auto
  then show ?thesis by (rule mpsc_invI)
qed

lemma mpsc_step_inv:
  assumes "mpsc_step ordered s s'" "mpsc_inv k ordered s"
  shows "mpsc_inv k ordered s'"
proof -
  obtain b a c D Ts where inv: "mpsc_inv_at k ordered s b a c D Ts" using assms(2) by (rule mpsc_invE)
  from assms(1) show ?thesis
  proof (cases rule: mpsc_step.cases)
    case (attach t area)
    show ?thesis unfolding attach(1) by (rule thread_writer_inv[OF inv]) (simp add: mw_init_def)
  next
    case (refresh_tail t)
    show ?thesis unfolding refresh_tail by (rule thread_writer_inv[OF inv]) (simp add: mw_update_tail_def)
  next
    case (release xs event sz ys rb)
    with release_inv[of k s b a c D Ts xs event sz ys] inv show ?thesis by auto
  next
    case reserve
    show ?thesis unfolding reserve(1) by (rule reserve_inv[OF inv reserve(2,3,4)])
  next
    case fill
    show ?thesis unfolding fill(1) by (rule fill_inv[OF inv fill(2-5)])
  next
    case commit
    show ?thesis unfolding commit(1) by (rule commit_inv[OF inv commit(2-5)])
  next
    case read_none
    show ?thesis unfolding read_none(1) by (rule read_none_inv[OF inv read_none(2)])
  next
    case read_some
    show ?thesis unfolding read_some(1) by (rule read_some_inv[OF inv read_some(2,3)])
  next
    case reader_update
    show ?thesis unfolding reader_update(1) by (rule reader_update_inv[OF inv])
  next
    case reader_advance
    show ?thesis unfolding reader_advance(1) by (rule reader_advance_inv[OF inv reader_advance(2)])
  qed
qed

lemma mpsc_reachable_inv: "mpsc_reachable ordered s0 s \<Longrightarrow> mpsc_inv k ordered s0 \<Longrightarrow> mpsc_inv k ordered s"
  by (induction rule: mpsc_reachable.induct) (auto intro: mpsc_step_inv)

section \<open>Properties\<close>

text \<open>A ring just set up on pages whose cursors agree, with threads that hold no buffer.\<close>

definition mpsc_start :: "nat \<Rightarrow> nat \<Rightarrow> RingBuffer \<Rightarrow> meta_page \<Rightarrow> u8 list \<Rightarrow> u64 \<Rightarrow> mpsc_sys" where
  "mpsc_start p shift rb0 meta data area = (
     let rb = rb_init (2 ^ p) rb0 meta data (perf_mmap_size (2 ^ p) shift) kMPSCRingBuffer True
     in \<lparr>ms_rb = rb, ms_thr = (\<lambda>_. \<lparr>th_writer = mw_init rb area, th_buf = None, th_ticket = 0\<rparr>),
         ms_reader = mr_init rb, ms_inflight = [], ms_log = [], ms_consumed = []\<rparr>)"

definition mpsc_start_ok :: "nat \<Rightarrow> nat \<Rightarrow> meta_page \<Rightarrow> u8 list \<Rightarrow> bool" where
  "mpsc_start_ok p shift meta data \<longleftrightarrow> 3 \<le> p \<and> shift \<le> 31 \<and> p + shift \<le> 62 \<and> length data = 2 ^ (p + shift) \<and>
     mp_reader_pos meta = mp_writer_pos meta \<and> 8 dvd unat (mp_writer_pos meta)"

lemma mpsc_start_inv:
  assumes "mpsc_start_ok p shift meta data"
  shows "mpsc_inv (p + shift) ordered (mpsc_start p shift rb0 meta data area)"
proof -
  let ?s = "mpsc_start p shift rb0 meta data area" and ?b = "unat (mp_writer_pos meta)"
  have "rb_wf (p + shift) (ms_rb ?s)"
    using assms rb_init_wf[of p shift data] by (simp add: mpsc_start_ok_def mpsc_start_def Let_def)
  then have "ring_inv (p + shift) (ms_rb ?s) ?b [] 0 0 {}"
    using assms u64_less[of "mp_writer_pos meta"]
    by (simp add: ring_inv_def mpsc_start_ok_def mpsc_start_def Let_def rb_init_def log_mem_def)
  moreover have "threads_inv (rb_mask (ms_rb ?s)) ?b [] 0 (ms_thr ?s)"
    using assms by (auto simp: threads_inv_def thr_inv_def mpsc_start_def Let_def mw_init_def rb_init_def mpsc_start_ok_def)
  moreover have "consumer_inv ordered (rb_mask (ms_rb ?s)) ?b [] 0 0 {} [] [] [] (ms_reader ?s)"
    using assms by (auto simp: consumer_inv_def committed_def mpsc_start_def Let_def mr_init_def rb_init_def)
  ultimately have "mpsc_inv_at (p + shift) ordered ?s ?b 0 0 {} []"
    by (simp add: mpsc_inv_at_def mpsc_start_def Let_def)
  then show ?thesis by (rule mpsc_invI)
qed

end
