(* ===== verification/Mpsc_Props.thy ===== *)
theory Mpsc_Props
  imports Mpsc_System
begin

text \<open>
  What the multi-producer ring promises to its users: order and completeness of what is read,
  isolation of buffers, operations that return, and the ring as a source of events. The last
  section shows what happens when a producer discards an entry under the ordered consumer.
\<close>

section \<open>Operations return\<close>

lemma inv_read_returns:
  assumes "mpsc_inv k ordered s"
  shows "(if ordered then mpsc_rb_read_sample (ms_rb s) else mr_read_sample (ms_rb s) (ms_reader s)) \<noteq> None"
proof -
  obtain b a c D Ts where inv: "mpsc_inv_at k ordered s b a c D Ts" using assms by (rule mpsc_invE)
  from inv have ring: "ring_inv k (ms_rb s) b (ms_log s) a c D" by (simp add: mpsc_inv_at_def)
  from reader_head[OF inv] obtain h where h: "c \<le> h" "h \<le> length (ms_log s)"
    "(if ordered then mpsc_rb_read_sample (ms_rb s) else mr_read_sample (ms_rb s) (ms_reader s)) =
     mpsc_rb_read_sample_to (of_nat (lpos b (ms_log s) h)) (ms_rb s)" by metis
  show ?thesis unfolding h(3) using read_sample_log[OF ring h(1,2)] by auto
qed

lemma inv_commit_returns:
  assumes "mpsc_inv k ordered s" "th_buf (ms_thr s t) = Some buf"
  shows "mw_commit_internal (ms_rb s) w buf d \<noteq> None"
proof -
  obtain b a c D Ts where inv: "mpsc_inv_at k ordered s b a c D Ts" using assms(1) by (rule mpsc_invE)
  let ?T = "th_ticket (ms_thr s t)"
  note o = owner_facts[OF inv assms(2)]
  have wf: "rb_wf k (ms_rb s)" and al: "8 dvd lpos b (ms_log s) ?T"
    using inv by (auto simp: mpsc_inv_at_def ring_inv_def lpos_aligned)
  have "entry_at (rb_data (ms_rb s)) (lpos b (ms_log s) ?T) (Busy, snd (ms_log s ! ?T))"
    using o(4,5) by (metis prod.collapse)
  from mw_commit_internal_pos[OF wf al this, of w "snd buf" d] o(1) show ?thesis by (auto simp: lbuf_def)
qed

text \<open>C28. Multi-producer ring, operations return: in every state reachable by any interleaving of producers
  and the consumer, looking for the next sample ends (the loop over discarded entries stops) and
  stays inside the mapped area, and so do reserving, committing or discarding a held buffer, and
  releasing an event in flight.\<close>

theorem mpsc_operations_return:
  assumes "mpsc_start_ok p shift meta data"
    and "mpsc_reachable ordered (mpsc_start p shift rb0 meta data area) s"
  shows "(if ordered then mpsc_rb_read_sample (ms_rb s) else mr_read_sample (ms_rb s) (ms_reader s)) \<noteq> None \<and>
    (\<forall>lock w n hp. mw_reserve lock (ms_rb s) w n hp \<noteq> None) \<and>
    (\<forall>t buf w d. th_buf (ms_thr s t) = Some buf \<longrightarrow> mw_commit_internal (ms_rb s) w buf d \<noteq> None) \<and>
    (\<forall>event sz. ordered \<longrightarrow> (event, sz) \<in> set (ms_inflight s) \<longrightarrow> mpsc_rb_advance_if_possible (ms_rb s) event \<noteq> None)"
proof -
  have inv: "mpsc_inv (p + shift) ordered s"
    by (rule mpsc_reachable_inv[OF assms(2) mpsc_start_inv[OF assms(1)]])
  then obtain b a c D Ts where at: "mpsc_inv_at (p + shift) ordered s b a c D Ts" by (rule mpsc_invE)
  have "\<forall>lock w n hp. mw_reserve lock (ms_rb s) w n hp \<noteq> None"
    using at mw_reserve_safe[of "p + shift" "ms_rb s" "lpos b (ms_log s) (length (ms_log s))"]
    by (auto simp: mpsc_inv_at_def ring_inv_def lpos_aligned)
  moreover have "mpsc_rb_advance_if_possible (ms_rb s) event \<noteq> None" if ord: "ordered" and mem: "(event, sz) \<in> set (ms_inflight s)" for event sz
  proof -
    obtain xs ys where "ms_inflight s = xs @ (event, sz) # ys" using split_list[OF mem] by blast
    then show ?thesis using release_inv[of "p + shift" s b a c D Ts xs event sz ys] at ord by auto
  qed
  ultimately show ?thesis using inv_read_returns[OF inv] inv_commit_returns[OF inv] by blast
qed

section \<open>Order, completeness, isolation\<close>

text \<open>C1. Multi-producer ring, order: in every reachable state the samples read so far are exactly the bytes
  of the committed entries among the first \<open>c\<close> reservations, in the order of reservation, for
  some \<open>c\<close> below which no entry is still busy: a sample is read once, only after its commit, never
  if discarded, and never before an earlier reservation.\<close>

theorem mpsc_ring_fifo:
  assumes "mpsc_start_ok p shift meta data"
    and "mpsc_reachable ordered (mpsc_start p shift rb0 meta data area) s"
  shows "\<exists>c\<le>length (ms_log s). ms_consumed s = committed (take c (ms_log s)) \<and>
    (\<forall>e\<in>set (take c (ms_log s)). fst e \<noteq> Busy)"
proof -
  have "mpsc_inv (p + shift) ordered s"
    by (rule mpsc_reachable_inv[OF assms(2) mpsc_start_inv[OF assms(1)]])
  then obtain b a c D Ts where inv: "mpsc_inv_at (p + shift) ordered s b a c D Ts" by (rule mpsc_invE)
  then have "c \<le> length (ms_log s)" "\<forall>j<c. fst (ms_log s ! j) \<noteq> Busy" "ms_consumed s = committed (take c (ms_log s))"
    by (auto simp: mpsc_inv_at_def ring_inv_def consumer_inv_def)
  moreover from this have "\<forall>e\<in>set (take c (ms_log s)). fst e \<noteq> Busy" by (simp add: all_set_conv_all_nth)
  ultimately show ?thesis by blast
qed

text \<open>C2. Multi-producer ring, isolation: in every reachable state the bytes of a reserved buffer are those
  its own thread put there, whatever other producers and the consumer did meanwhile, distinct
  threads hold distinct reservations, and every sample handed to the consumer and not yet
  released still has the bytes of its committed entry.\<close>

theorem mpsc_ring_isolation:
  assumes "mpsc_start_ok p shift meta data"
    and "mpsc_reachable ordered (mpsc_start p shift rb0 meta data area) s"
  shows "(\<forall>t off sz. th_buf (ms_thr s t) = Some (off, sz) \<longrightarrow>
      th_ticket (ms_thr s t) < length (ms_log s) \<and> fst (ms_log s ! th_ticket (ms_thr s t)) = Busy \<and>
      rb_load (ms_rb s) (unat off) (unat sz) = Some (snd (ms_log s ! th_ticket (ms_thr s t)))) \<and>
    (\<forall>t t'. th_buf (ms_thr s t) \<noteq> None \<longrightarrow> th_buf (ms_thr s t') \<noteq> None \<longrightarrow>
      th_ticket (ms_thr s t) = th_ticket (ms_thr s t') \<longrightarrow> t = t') \<and>
    (\<forall>(off, sz)\<in>set (ms_inflight s). \<exists>T<length (ms_log s). fst (ms_log s ! T) = Committed \<and>
      rb_load (ms_rb s) (unat off) (unat sz) = Some (snd (ms_log s ! T)))"
proof -
  have "mpsc_inv (p + shift) ordered s"
    by (rule mpsc_reachable_inv[OF assms(2) mpsc_start_inv[OF assms(1)]])
  then obtain b a c D Ts where inv: "mpsc_inv_at (p + shift) ordered s b a c D Ts" by (rule mpsc_invE)
  then have ring: "ring_inv (p + shift) (ms_rb s) b (ms_log s) a c D" by (simp add: mpsc_inv_at_def)
  have own: "th_ticket (ms_thr s t) < length (ms_log s) \<and> fst (ms_log s ! th_ticket (ms_thr s t)) = Busy \<and>
      rb_load (ms_rb s) (unat off) (unat sz) = Some (snd (ms_log s ! th_ticket (ms_thr s t)))"
    if "th_buf (ms_thr s t) = Some (off, sz)" for t off sz
  proof -
    note o = owner_facts[OF inv that]
    have "th_ticket (ms_thr s t) \<notin> D" using ring o(3) by (auto simp: ring_inv_def)
    then show ?thesis using lbuf_load[OF ring o(6,2)] o(2,4) by (simp add: o(1)[symmetric])
  qed
  have fl: "\<exists>T<length (ms_log s). fst (ms_log s ! T) = Committed \<and>
      rb_load (ms_rb s) (unat off) (unat sz) = Some (snd (ms_log s ! T))" if "(off, sz) \<in> set (ms_inflight s)" for off sz
  proof -
    have con: "ms_inflight s = map (lbuf (rb_mask (ms_rb s)) b (ms_log s)) Ts" "set Ts \<subseteq> {a..<c} - D"
      "\<forall>T\<in>set Ts. fst (ms_log s ! T) = Committed"
      using inv by (auto simp: mpsc_inv_at_def consumer_inv_def)
    then have "(off, sz) \<in> lbuf (rb_mask (ms_rb s)) b (ms_log s) ` set Ts" using that by simp
    then obtain T where "(off, sz) = lbuf (rb_mask (ms_rb s)) b (ms_log s) T" "T \<in> set Ts" by (rule imageE)
    then have T: "(off, sz) = lbuf (rb_mask (ms_rb s)) b (ms_log s) T" "a \<le> T" "T < c" "T \<notin> D"
        "fst (ms_log s ! T) = Committed" using con(2,3) by auto
    moreover have "T < length (ms_log s)" using T(3) ring by (simp add: ring_inv_def)
    ultimately show ?thesis using lbuf_load[OF ring T(2) _ T(4)] by (metis fst_conv snd_conv)
  qed
  have "\<forall>t t'. th_buf (ms_thr s t) \<noteq> None \<longrightarrow> th_buf (ms_thr s t') \<noteq> None \<longrightarrow>
      th_ticket (ms_thr s t) = th_ticket (ms_thr s t') \<longrightarrow> t = t'"
    using inv unfolding mpsc_inv_at_def threads_inv_def by blast
  then show ?thesis using own fl by blast
qed

section \<open>The ring as a source of events\<close>

text \<open>The next sample with its bytes, as the main loop sees it.\<close>

definition mpsc_next :: "RingBuffer \<Rightarrow> (RingBuffer \<times> u8 list option) option" where
  "mpsc_next rb = (case mpsc_rb_read_sample rb of
      None \<Rightarrow> None
    | Some (rb, None) \<Rightarrow> Some (rb, None)
    | Some (rb, Some (off, sz)) \<Rightarrow> map_option (\<lambda>bs. (rb, Some bs)) (rb_load rb (unat off) (unat sz)))"

definition mpsc_queue :: "nat \<Rightarrow> RingBuffer \<Rightarrow> u8 list list \<Rightarrow> bool" where
  "mpsc_queue k rb q \<longleftrightarrow> (\<exists>b log a c D. ring_inv k rb b log a c D \<and> (\<forall>e\<in>set log. fst e \<noteq> Busy) \<and>
     q = committed (drop c log))"

lemma committed_drop_skip:
  assumes "\<And>j. c \<le> j \<Longrightarrow> j < c + m \<Longrightarrow> fst (log ! j) = Discarded" "c + m \<le> length log"
  shows "committed (drop c log) = committed (drop (c + m) log)"
proof -
  have "committed (drop c log) = committed (take m (drop c log)) @ committed (drop m (drop c log))"
    unfolding committed_def map_append[symmetric] filter_append[symmetric] append_take_drop_id ..
  moreover have "fst e = Discarded" if "e \<in> set (take m (drop c log))" for e
    using that assms by (auto simp: in_set_conv_nth)
  then have "committed (take m (drop c log)) = []" by (auto simp: committed_def filter_empty_conv)
  ultimately show ?thesis by (simp add: add.commute)
qed

lemma mpsc_queueI:
  "ring_inv k rb b log a c D \<Longrightarrow> \<forall>e\<in>set log. fst e \<noteq> Busy \<Longrightarrow> mpsc_queue k rb (committed (drop c log))"
  unfolding mpsc_queue_def by blast

lemma mpsc_queue_next:
  assumes "mpsc_queue k rb q"
  shows "\<exists>rb'. mpsc_next rb = Some (rb', case q of [] \<Rightarrow> None | e # _ \<Rightarrow> Some e) \<and> mpsc_queue k rb' (tl q)"
proof -
  from assms obtain b log a c D where ring: "ring_inv k rb b log a c D" and nb: "\<forall>e\<in>set log. fst e \<noteq> Busy"
    and q: "q = committed (drop c log)" by (auto simp: mpsc_queue_def)
  have h: "c \<le> length log" "rb_writer_pos rb = of_nat (lpos b log (length log))" using ring by (auto simp: ring_inv_def)
  from read_sample_log[OF ring h(1) order_refl] obtain m where m: "c + m \<le> length log"
    "\<forall>j. c \<le> j \<and> j < c + m \<longrightarrow> fst (log ! j) = Discarded" and
    r: "c + m < length log \<and> fst (log ! (c + m)) = Committed \<and>
       mpsc_rb_read_sample rb = Some (rb\<lparr>rb_intermediate_reader_pos := of_nat (lpos b log (Suc (c + m)))\<rparr>, Some (lbuf (rb_mask rb) b log (c + m))) \<or>
     (c + m = length log \<or> fst (log ! (c + m)) = Busy) \<and>
       mpsc_rb_read_sample rb = Some (rb\<lparr>rb_intermediate_reader_pos := of_nat (lpos b log (c + m))\<rparr>, None)"
    unfolding mpsc_rb_read_sample_def h(2) by blast
  have skip: "q = committed (drop (c + m) log)" unfolding q using m by (intro committed_drop_skip) auto
  have nbj: "fst (log ! j) \<noteq> Busy" if "j < length log" for j using nb that by simp
  show ?thesis
  proof (cases "c + m < length log")
    case True
    let ?rb = "rb\<lparr>rb_intermediate_reader_pos := of_nat (lpos b log (Suc (c + m)))\<rparr>"
    from True r nbj have com: "fst (log ! (c + m)) = Committed"
      and rd: "mpsc_rb_read_sample rb = Some (?rb, Some (lbuf (rb_mask rb) b log (c + m)))" by auto
    have ring': "ring_inv k ?rb b log a (Suc (c + m)) D" using True nbj by (intro ring_inv_read[OF ring]) auto
    have "a \<le> c + m" "c + m \<notin> D" using ring by (auto simp: ring_inv_def)
    from lbuf_load[OF ring' this(1) True this(2)] have "mpsc_next rb = Some (?rb, Some (snd (log ! (c + m))))"
      using rd by (simp add: mpsc_next_def lbuf_def)
    moreover have "q = snd (log ! (c + m)) # committed (drop (Suc (c + m)) log)"
      unfolding skip using True com by (simp add: committed_def flip: Cons_nth_drop_Suc)
    ultimately show ?thesis using mpsc_queueI[OF ring' nb] by auto
  next
    case False
    let ?rb = "rb\<lparr>rb_intermediate_reader_pos := of_nat (lpos b log (c + m))\<rparr>"
    have end_: "c + m = length log" using False m by simp
    then have "mpsc_next rb = Some (?rb, None)" "q = []" using r skip by (auto simp: mpsc_next_def committed_def)
    moreover have "ring_inv k ?rb b log a (c + m) D" using m nbj by (intro ring_inv_read[OF ring]) auto
    then have "mpsc_queue k ?rb []" using mpsc_queueI[OF _ nb] by (fastforce simp: end_ committed_def)
    ultimately show ?thesis by auto
  qed
qed

interpretation mpsc_source: event_source "mpsc_queue k" mpsc_next for k
proof unfold_locales
  show "\<exists>rb'. mpsc_next rb = Some (rb', None) \<and> mpsc_queue k rb' []" if "mpsc_queue k rb []" for rb
    using mpsc_queue_next[OF that] by simp
  show "\<exists>rb'. mpsc_next rb = Some (rb', Some e) \<and> mpsc_queue k rb' q" if "mpsc_queue k rb (e # q)" for rb e q
    using mpsc_queue_next[OF that] by simp
qed

text \<open>C27. Multi-producer ring, completeness: once every reservation is committed or discarded, emptying the
  ring with the ordered reader ends and gives exactly the committed samples that were not read
  yet, in order of reservation.\<close>

theorem mpsc_ring_drained:
  assumes "mpsc_start_ok p shift meta data"
    and "mpsc_reachable ordered (mpsc_start p shift rb0 meta data area) s"
    and idle: "\<forall>e\<in>set (ms_log s). fst e \<noteq> Busy"
    and fuel: "length (ms_log s) < fuel"
  shows "\<exists>rb es. drain mpsc_next fuel (ms_rb s) = Some (rb, es, True) \<and>
    ms_consumed s @ es = committed (ms_log s)"
proof -
  have "mpsc_inv (p + shift) ordered s"
    by (rule mpsc_reachable_inv[OF assms(2) mpsc_start_inv[OF assms(1)]])
  then obtain b a c D Ts where inv: "mpsc_inv_at (p + shift) ordered s b a c D Ts" by (rule mpsc_invE)
  let ?q = "committed (drop c (ms_log s))"
  have "mpsc_queue (p + shift) (ms_rb s) ?q" using inv idle by (auto simp: mpsc_inv_at_def intro: mpsc_queueI)
  moreover have "length ?q \<le> length (ms_log s)"
    unfolding committed_def length_map using length_filter_le[of _ "drop c (ms_log s)"] by (rule order_trans) simp
  ultimately obtain rb where "drain mpsc_next fuel (ms_rb s) = Some (rb, ?q, True)"
    using mpsc_source.drain_all[of "p + shift" "ms_rb s" ?q fuel] fuel by auto
  moreover have "ms_consumed s @ ?q = committed (ms_log s)"
    using inv by (simp add: mpsc_inv_at_def consumer_inv_def committed_def flip: map_append filter_append)
  ultimately show ?thesis by blast
qed

section \<open>An example run\<close>

text \<open>32 bytes of data from position 16; a thread reserves, fills and commits 8 bytes.\<close>

definition mpsc_ex_rb0 :: RingBuffer where
  "mpsc_ex_rb0 = \<lparr>rb_type = kMPSCRingBuffer, rb_mask = 0, rb_meta_size = 0, rb_data_size = 0, rb_data = [],
     rb_mirrored_mapping = False, rb_writer_pos = 0, rb_reader_pos = 0, rb_intermediate_reader_pos = 0,
     rb_time_zero = 0, rb_time_mult = 0, rb_time_shift = 0, rb_perf_clock_source = 0, rb_tsc_available = False,
     rb_wrap_copy = None, rb_wrap_copy_capacity = 0\<rparr>"

definition mpsc_ex_meta :: meta_page where
  "mpsc_ex_meta = \<lparr>mp_reader_pos = 16, mp_writer_pos = 16, mp_perf_clock_source = 0, mp_time_mult = 0,
     mp_time_shift = 0, mp_time_zero = 0, mp_tsc_available = False\<rparr>"

definition mpsc_ex_start :: mpsc_sys where
  "mpsc_ex_start = mpsc_start 3 2 mpsc_ex_rb0 mpsc_ex_meta (replicate 32 0) 0"

definition mpsc_ex_bytes :: "u8 list" where
  "mpsc_ex_bytes = [1, 2, 3, 4, 5, 6, 7, 8]"

lemmas mpsc_ex_defs = mpsc_ex_rb0_def mpsc_ex_meta_def mpsc_ex_start_def mpsc_start_def rb_init_def perf_mmap_size_def
  get_mask_from_size_def align_up_def kRingBufferAlignment_def rb_store_def rb_load_def Let_def

lemma mpsc_ex_start_ok: "mpsc_start_ok 3 2 mpsc_ex_meta (replicate 32 0)"
  by (simp add: mpsc_start_ok_def mpsc_ex_meta_def)

lemma mpsc_ex_inv: "mpsc_reachable ordered mpsc_ex_start s \<Longrightarrow> mpsc_inv 5 ordered s"
  using mpsc_reachable_inv mpsc_start_inv[OF mpsc_ex_start_ok] unfolding mpsc_ex_start_def by fastforce

lemma mpsc_ex_reserve:
  "\<exists>rb. mw_reserve True (ms_rb mpsc_ex_start) (th_writer (ms_thr mpsc_ex_start 0)) (of_nat 8) False =
    Some (rb, Some (24, 8), False) \<and> rb_mirrored_mapping rb \<and> length (rb_data rb) = 32"
  by (simp add: mw_reserve_def mw_init_def store_hdr_def k_busy_bit_def le_bytes_def upt_rec mpsc_ex_defs)

lemma mpsc_ex_filled:
  "\<exists>s. mpsc_reachable ordered mpsc_ex_start s \<and> th_buf (ms_thr s 0) = Some (24, 8) \<and> th_ticket (ms_thr s 0) = 0 \<and>
     ms_log s = [(Busy, mpsc_ex_bytes)] \<and> ms_consumed s = [] \<and> ms_inflight s = []"
proof -
  let ?s = mpsc_ex_start
  obtain rb where rb: "mw_reserve True (ms_rb ?s) (th_writer (ms_thr ?s 0)) (of_nat 8) False = Some (rb, Some (24, 8), False)"
      "rb_mirrored_mapping rb" "length (rb_data rb) = 32"
    using mpsc_ex_reserve by blast
  let ?e = "(Busy, rd (rb_data rb) (unat (rb_writer_pos (ms_rb ?s)) + 8) 8)"
  let ?s1 = "?s\<lparr>ms_rb := rb, ms_thr := (ms_thr ?s)(0 := (ms_thr ?s 0)\<lparr>th_buf := Some (24, 8), th_ticket := length (ms_log ?s)\<rparr>),
      ms_log := ms_log ?s @ [?e]\<rparr>"
  have log: "ms_log ?s = []" "ms_consumed ?s = []" "ms_inflight ?s = []" by (simp_all add: mpsc_ex_start_def mpsc_start_def Let_def)
  have "mpsc_step ordered ?s ?s1"
    using mpsc_step.reserve[of ?s 0 8 True False rb "Some (24, 8)" False ordered] rb(1)
    by (simp add: mpsc_ex_defs mw_init_def)
  then have r1: "mpsc_reachable ordered ?s ?s1" by (rule mpsc_reachable.step[OF mpsc_reachable.start])
  have "\<exists>rb'. rb_store rb (unat (24 :: u64) + 0) mpsc_ex_bytes = Some rb'" using rb(2,3) by (simp add: rb_store_def mpsc_ex_bytes_def)
  then obtain rb' where st: "rb_store (ms_rb ?s1) (unat (24 :: u64) + 0) mpsc_ex_bytes = Some rb'" by auto
  have "mpsc_step ordered ?s1 (?s1\<lparr>ms_rb := rb', ms_log := (ms_log ?s1)[0 := (Busy, splice (snd (ms_log ?s1 ! 0)) 0 mpsc_ex_bytes)]\<rparr>)"
    by (rule mpsc_step.fill[of _ 0 _ 8, OF _ _ st]) (simp_all add: log mpsc_ex_bytes_def)
  from mpsc_reachable.step[OF r1 this] show ?thesis
    by (intro exI conjI) (assumption, simp_all add: log splice_def mpsc_ex_bytes_def)
qed

lemma mpsc_ex_committed:
  "\<exists>s. mpsc_reachable ordered mpsc_ex_start s \<and> ms_log s = [(Committed, mpsc_ex_bytes)] \<and> ms_consumed s = []"
proof -
  obtain s where s: "mpsc_reachable ordered mpsc_ex_start s" "th_buf (ms_thr s 0) = Some (24, 8)" "th_ticket (ms_thr s 0) = 0"
     "ms_log s = [(Busy, mpsc_ex_bytes)]" "ms_consumed s = []" using mpsc_ex_filled by blast
  obtain rb w n where c: "mw_commit_internal (ms_rb s) (th_writer (ms_thr s 0)) (24, 8) False = Some (rb, w, n)"
    using inv_commit_returns[OF mpsc_ex_inv[OF s(1)] s(2), of "th_writer (ms_thr s 0)" False] by auto
  have "mpsc_step ordered s (s\<lparr>ms_rb := rb, ms_thr := (ms_thr s)(0 := (ms_thr s 0)\<lparr>th_writer := w, th_buf := None\<rparr>),
      ms_log := (ms_log s)[0 := (if False then Discarded else Committed, snd (ms_log s ! 0))]\<rparr>)"
    by (rule mpsc_step.commit[OF s(2) _ c s(3)[symmetric]]) simp
  from mpsc_reachable.step[OF s(1) this] show ?thesis
    by (intro exI conjI) (assumption, simp_all add: s)
qed

lemma mpsc_ex_read:
  "\<exists>s. mpsc_reachable True mpsc_ex_start s \<and> ms_consumed s = [mpsc_ex_bytes] \<and> ms_inflight s \<noteq> []"
proof -
  obtain s where s: "mpsc_reachable True mpsc_ex_start s" "ms_log s = [(Committed, mpsc_ex_bytes)]" "ms_consumed s = []"
    using mpsc_ex_committed by blast
  obtain b a c D Ts where inv: "mpsc_inv_at 5 True s b a c D Ts" using mpsc_ex_inv[OF s(1)] by (rule mpsc_invE)
  then have "c = 0" using s by (cases c) (auto simp: mpsc_inv_at_def consumer_inv_def committed_def)
  then have "mpsc_queue 5 (ms_rb s) [mpsc_ex_bytes]"
    using mpsc_queueI[of 5 "ms_rb s" b "ms_log s" a c D] inv s by (simp add: mpsc_inv_at_def committed_def)
  from mpsc_queue_next[OF this] obtain rb off sz where r: "mpsc_rb_read_sample (ms_rb s) = Some (rb, Some (off, sz))"
      "rb_load rb (unat off) (unat sz) = Some mpsc_ex_bytes"
    by (auto simp: mpsc_next_def split: option.splits)
  have "mpsc_step True s (s\<lparr>ms_rb := rb, ms_inflight := ms_inflight s @ [(off, sz)], ms_consumed := ms_consumed s @ [mpsc_ex_bytes]\<rparr>)"
    by (rule mpsc_step.read_some) (use r in simp_all)
  from mpsc_reachable.step[OF s(1) this] show ?thesis
    by (intro exI conjI) (assumption, simp_all add: s)
qed

section \<open>Witnesses\<close>

theorem mpsc_operations_return_witness:
  "\<exists>s event sz. mpsc_reachable True mpsc_ex_start s \<and> (event, sz) \<in> set (ms_inflight s) \<and>
     mpsc_rb_read_sample (ms_rb s) \<noteq> None \<and> mpsc_rb_advance_if_possible (ms_rb s) event \<noteq> None"
proof -
  obtain s where s: "mpsc_reachable True mpsc_ex_start s" "ms_inflight s \<noteq> []" using mpsc_ex_read by blast
  then obtain event sz where e: "(event, sz) \<in> set (ms_inflight s)" by (cases "ms_inflight s") auto
  from mpsc_operations_return[OF mpsc_ex_start_ok s(1)[unfolded mpsc_ex_start_def]]
  have "mpsc_rb_read_sample (ms_rb s) \<noteq> None" "mpsc_rb_advance_if_possible (ms_rb s) event \<noteq> None"
    using e by (simp_all add: if_True del: not_None_eq) blast
  then show ?thesis using s(1) e by blast
qed

theorem mpsc_ring_fifo_witness:
  "\<exists>s. mpsc_reachable True mpsc_ex_start s \<and> ms_consumed s = [mpsc_ex_bytes] \<and>
     (\<exists>c\<le>length (ms_log s). ms_consumed s = committed (take c (ms_log s)))"
proof -
  obtain s where s: "mpsc_reachable True mpsc_ex_start s" "ms_consumed s = [mpsc_ex_bytes]" using mpsc_ex_read by blast
  then show ?thesis
    using mpsc_ring_fifo[OF mpsc_ex_start_ok s(1)[unfolded mpsc_ex_start_def]] by blast
qed

theorem mpsc_ring_isolation_witness:
  "\<exists>s. mpsc_reachable True mpsc_ex_start s \<and> th_buf (ms_thr s 0) = Some (24, 8) \<and>
     rb_load (ms_rb s) 24 8 = Some mpsc_ex_bytes"
proof -
  obtain s where s: "mpsc_reachable True mpsc_ex_start s" "th_buf (ms_thr s 0) = Some (24, 8)" "th_ticket (ms_thr s 0) = 0"
     "ms_log s = [(Busy, mpsc_ex_bytes)]" using mpsc_ex_filled by blast
  from mpsc_ring_isolation[OF mpsc_ex_start_ok s(1)[unfolded mpsc_ex_start_def]] s(2)
  have "rb_load (ms_rb s) (unat (24 :: u64)) (unat (8 :: u64)) = Some (snd (ms_log s ! th_ticket (ms_thr s 0)))" by blast
  then show ?thesis using s by auto
qed

theorem mpsc_ring_drained_witness:
  "\<exists>s rb. mpsc_reachable True mpsc_ex_start s \<and> drain mpsc_next 2 (ms_rb s) = Some (rb, [mpsc_ex_bytes], True)"
proof -
  obtain s where s: "mpsc_reachable True mpsc_ex_start s" "ms_log s = [(Committed, mpsc_ex_bytes)]" "ms_consumed s = []"
    using mpsc_ex_committed by blast
  from mpsc_ring_drained[OF mpsc_ex_start_ok s(1)[unfolded mpsc_ex_start_def], of 2] s show ?thesis
    by (auto simp: committed_def)
qed

section \<open>Discarding under the ordered consumer\<close>

text \<open>C31. The ordered consumer relies on producers that never discard: if the first unread entry is a discarded
  one, releasing the last event in flight moves the reader position past the read cursor, so
  that the space at the read cursor is handed back to the producers while the consumer will
  still read from it.\<close>

theorem release_passes_unread_discard:
  assumes ring: "ring_inv k rb b log a c D" and T: "a \<le> T" "T < c" "T \<notin> D" "fst (log ! T) = Committed"
    and released: "{a..<c} \<subseteq> insert T D" and unread: "c < length log" "fst (log ! c) = Discarded"
  shows "\<exists>rb'. mpsc_rb_advance_if_possible rb (fst (lbuf (rb_mask rb) b log T)) = Some rb' \<and>
    unat (rb_intermediate_reader_pos rb') < unat (rb_reader_pos rb')"
proof -
  let ?n = "length (snd (log ! T))" and ?N = "length log"
  have wf: "rb_wf k rb" and al: "8 dvd lpos b log T" and lt: "T < length log" using ring T by (auto simp: ring_inv_def lpos_aligned)
  have e: "load_u64 (rb_data rb) (lpos b log T) = hdr_word Committed ?n" "?n < 2 ^ 62"
    using ring_inv_entry[OF ring T(1) lt T(3)] T(4) by (auto simp: entry_at_def)
  define rb1 where "rb1 = rb\<lparr>rb_data := store_u64 (rb_data rb) (lpos b log T) (hdr_word Discarded ?n)\<rparr>"
  have ring1: "ring_inv k rb1 b log a c (insert T D)" unfolding rb1_def by (rule ring_inv_mark[OF ring T(1-3)])
  have le: "a \<le> ?N" using lt T(1) by simp
  have mem: "entries_at (rb_data rb1) (lpos b log a) (map (phys (insert T D) log) [a..<?N]) (lpos b log ?N)"
    using ring1 le by (intro log_mem_entries) (auto simp: ring_inv_def)
  have "rb_wf k rb1" "8 dvd lpos b log a" and N64: "lpos b log ?N < 2 ^ 64" using ring1 by (auto simp: ring_inv_def lpos_aligned)
  from mpsc_advance_tail_spec[OF this(1,2) mem this(3)] obtain ds rest p where
    r: "map (phys (insert T D) log) [a..<?N] = ds @ rest" "rest \<noteq> [] \<longrightarrow> fst (hd rest) \<noteq> Discarded"
      "entries_at (rb_data rb1) (lpos b log a) ds p"
      "mpsc_advance_tail rb1 (of_nat (lpos b log ?N)) (of_nat (lpos b log a)) = Some (of_nat p)" by blast
  define m where "m = length ds"
  from entries_at_prefix_end[OF r(1,3) order_refl le]
  have p: "p = lpos b log (a + m)" "a + m \<le> ?N" "rest = map (phys (insert T D) log) [a + m..<?N]" unfolding m_def by blast+
  have "c < a + m"
  proof (rule ccontr)
    assume "\<not> c < a + m"
    then have "a + m < ?N" "a + m \<le> c" using unread(1) by auto
    then have "fst (phys (insert T D) log (a + m)) \<noteq> Discarded" using r(2) p(3) by (simp add: upt_conv_Cons)
    moreover have "fst (phys (insert T D) log (a + m)) = Discarded"
      using subsetD[OF released, of "a + m"] unread \<open>a + m \<le> c\<close> by (cases "a + m = c") (auto simp: phys_def)
    ultimately show False by contradiction
  qed
  then have "lpos b log (Suc c) \<le> p" unfolding p(1) by (intro lpos_mono) simp
  then have "lpos b log c < p" using lpos_Suc[OF unread(1), of b] espace_bounds(1)[of "log ! c"] by linarith
  moreover have "p < 2 ^ 64" using p(1) lpos_mono[OF p(2), of b log] N64 by linarith
  moreover have cur: "rb_intermediate_reader_pos rb1 = of_nat (lpos b log c)" "rb_reader_pos rb1 = of_nat (lpos b log a)"
    "rb_writer_pos rb1 = of_nat (lpos b log ?N)" using ring1 by (auto simp: ring_inv_def)
  moreover have "mpsc_rb_advance_if_possible rb (fst (lbuf (rb_mask rb) b log T)) = Some (rb1\<lparr>rb_reader_pos := of_nat p\<rparr>)"
    using r(4) cur(2,3) by (simp add: mpsc_rb_advance_if_possible_def lbuf_offset(2)[OF wf] load_hdr_pos[OF wf al]
        store_hdr_pos[OF wf al] e(1) set_discarded_def hdr_word_flags(5)[OF e(2)] rb1_def)
  ultimately show ?thesis by (simp add: unat_of_nat_u64)
qed

definition discard_ex :: RingBuffer where
  "discard_ex = mpsc_ex_rb0\<lparr>rb_mask := 31, rb_data_size := 32, rb_mirrored_mapping := True,
     rb_data := store_u64 (store_u64 (replicate 32 0) 0 (hdr_word Committed 0)) 8 (hdr_word Discarded 0),
     rb_reader_pos := 0, rb_intermediate_reader_pos := 8, rb_writer_pos := 16\<rparr>"

lemma discard_ex_inv: "ring_inv 5 discard_ex 0 [(Committed, []), (Discarded, [])] 0 1 {}"
proof -
  let ?d = "store_u64 (replicate 32 0) 0 (hdr_word Committed 0)"
  have "load_u64 (store_u64 ?d 8 (hdr_word Discarded 0)) 8 = hdr_word Discarded 0" by (rule load_store_same) simp
  moreover have "load_u64 (store_u64 ?d 8 (hdr_word Discarded 0)) 0 = hdr_word Committed 0"
    using load_store_disjoint[of 0 0 ?d 8] load_store_same[of "replicate 32 0" 0] by simp
  ultimately have "log_mem (rb_data discard_ex) 0 [(Committed, []), (Discarded, [])] 0 {}"
    by (auto simp: log_mem_def discard_ex_def less_Suc_eq lpos_def phys_def entry_at_def espace_def stride_def)
  then show ?thesis
    by (simp add: ring_inv_def rb_wf_def discard_ex_def mpsc_ex_rb0_def lpos_def espace_def stride_def)
qed

theorem release_passes_unread_discard_witness:
  "\<exists>rb. mpsc_rb_advance_if_possible discard_ex 8 = Some rb \<and>
     unat (rb_intermediate_reader_pos rb) < unat (rb_reader_pos rb)"
  using release_passes_unread_discard[OF discard_ex_inv, of 0]
  by (simp add: lbuf_def lpos_def)

end
