(* ===== verification/Address_Set.thy ===== *)
theory Address_Set
  imports Interfaces "HOL-Library.Multiset"
begin

text \<open>
  The set of tracked addresses of the allocation profiler
  (\<^verbatim>\<open>src/include/lib/address_bitset.hpp\<close>, \<^verbatim>\<open>src/src/lib/address_bitset.cc\<close>): a table per 128 MB chunk
  of the address space and one for large allocations, each an open-addressing hash table with
  tombstones and a bounded number of probes. An operation is one step: the interleaving of two
  operations on the same slot is not modelled, so the compare-and-exchange succeeds.
\<close>

section \<open>Constants and hashing\<close>

definition max_load_factor_percent :: u64 where "max_load_factor_percent = 80"
definition percent_divisor :: u64 where "percent_divisor = 100"
definition empty_slot :: u64 where "empty_slot = 0"
definition deleted_slot :: u64 where "deleted_slot = 1"
definition k_chunk_shift :: nat where "k_chunk_shift = 27"
definition k_max_chunks :: u64 where "k_max_chunks = 128"
definition k_default_table_size :: u64 where "k_default_table_size = 32768"
definition k_max_probe_distance :: nat where "k_max_probe_distance = 64"
definition k_max_bits_ignored :: nat where "k_max_bits_ignored = 4"
definition k_hash_multiplier_1 :: u64 where "k_hash_multiplier_1 = 0x9E3779B97F4A7C15"
definition k_hash_multiplier_2 :: u64 where "k_hash_multiplier_2 = 0x85EBCA77C2B2AE63"

definition compute_full_hash :: "u64 \<Rightarrow> u64" where
  "compute_full_hash addr = (
     let h = drop_bit k_max_bits_ignored addr;
         h = h * k_hash_multiplier_1;
         h = h XOR drop_bit 32 h;
         h = h * k_hash_multiplier_2
     in h XOR drop_bit 32 h)"

definition hash_to_slot :: "u64 \<Rightarrow> u64 \<Rightarrow> u32" where
  "hash_to_slot hash table_mask = ucast (ucast (ucast hash :: u32) AND table_mask)"

function count_shifts :: "u64 \<Rightarrow> nat \<Rightarrow> nat" where
  "count_shifts num n = (if num = 0 then n else count_shifts (drop_bit 1 num) (n + 1))"
  by pat_completeness auto
termination
proof (relation "measure (\<lambda>(num, _). unat num)", simp)
  fix num :: u64 and n :: nat
  assume "num \<noteq> 0"
  then have "unat num \<noteq> 0" by (simp add: unsigned_eq_0_iff)
  moreover have "unat (drop_bit 1 num) = unat num div 2" by (simp add: drop_bit_eq_div unat_div)
  ultimately show "((drop_bit 1 num, n + 1), num, n) \<in> measure (\<lambda>(num, _). unat num)" by simp
qed

definition round_up_to_power_of_two :: "u64 \<Rightarrow> u64" where
  "round_up_to_power_of_two num = (
     if num = 0 then num
     else if num AND (num - 1) = 0 then num
     else push_bit (count_shifts num 0) 1)"

section \<open>One table\<close>

record AddressTable =
  tbl_size :: u64
  tbl_mask :: u64
  tbl_max_capacity :: u64
  tbl_slots :: "u64 list"
  tbl_count :: u64

definition mk_AddressTable :: "u64 \<Rightarrow> AddressTable" where
  "mk_AddressTable sz = (
     let table_size = round_up_to_power_of_two sz
     in \<lparr>tbl_size = table_size, tbl_mask = table_size - 1,
         tbl_max_capacity = table_size * max_load_factor_percent div percent_divisor,
         tbl_slots = replicate (unat table_size) empty_slot, tbl_count = 0\<rparr>)"

definition next_slot :: "u64 \<Rightarrow> u32 \<Rightarrow> u32" where
  "next_slot m slot = ucast (ucast (slot + 1) AND m)"

text \<open>The probe loops, for the number of probes left.\<close>

fun add_probe :: "nat \<Rightarrow> u64 list \<Rightarrow> u64 \<Rightarrow> u32 \<Rightarrow> u64 \<Rightarrow> u64 list \<times> bool" where
  "add_probe 0 slots m slot addr = (slots, False)"
| "add_probe (Suc n) slots m slot addr = (
     let current = slots ! unat slot in
     if current = empty_slot \<or> current = deleted_slot then (slots[unat slot := addr], True)
     else if current = addr then (slots, False)
     else add_probe n slots m (next_slot m slot) addr)"

fun remove_probe :: "nat \<Rightarrow> u64 list \<Rightarrow> u64 \<Rightarrow> u32 \<Rightarrow> u64 \<Rightarrow> u64 list \<times> bool" where
  "remove_probe 0 slots m slot addr = (slots, False)"
| "remove_probe (Suc n) slots m slot addr = (
     let current = slots ! unat slot in
     if current = empty_slot then (slots, False)
     else if current = deleted_slot then remove_probe n slots m (next_slot m slot) addr
     else if current = addr then (slots[unat slot := deleted_slot], True)
     else remove_probe n slots m (next_slot m slot) addr)"

definition table_add :: "AddressTable \<Rightarrow> u64 \<Rightarrow> AddressTable \<times> bool" where
  "table_add table addr = (
     if tbl_max_capacity table \<le> tbl_count table then (table, False)
     else
       let slot = hash_to_slot (compute_full_hash addr) (tbl_mask table) in
       case add_probe k_max_probe_distance (tbl_slots table) (tbl_mask table) slot addr of
         (slots', True) \<Rightarrow> (table\<lparr>tbl_slots := slots', tbl_count := tbl_count table + 1\<rparr>, True)
       | (_, False) \<Rightarrow> (table, False))"

definition table_remove :: "AddressTable \<Rightarrow> u64 \<Rightarrow> AddressTable \<times> bool" where
  "table_remove table addr = (
     let slot = hash_to_slot (compute_full_hash addr) (tbl_mask table) in
     case remove_probe k_max_probe_distance (tbl_slots table) (tbl_mask table) slot addr of
       (slots', True) \<Rightarrow> (table\<lparr>tbl_slots := slots', tbl_count := tbl_count table - 1\<rparr>, True)
     | (_, False) \<Rightarrow> (table, False))"

definition table_clear :: "AddressTable \<Rightarrow> AddressTable" where
  "table_clear table = table\<lparr>tbl_slots := replicate (unat (tbl_size table)) empty_slot, tbl_count := 0\<rparr>"

section \<open>The sharded set\<close>

text \<open>
  The outer option of each field is the owning pointer, which is null after a move; the inner one is
  a table not created yet. \<^term>\<open>None\<close> as a result is the use of a moved-from set.
\<close>

record AddressBitset =
  per_table_size :: u64
  chunk_tables :: "AddressTable option list option"
  large_alloc_table :: "AddressTable option option"

definition bs_init :: "u64 \<Rightarrow> AddressBitset" where
  "bs_init table_size =
     (let per = (if table_size \<noteq> 0 then table_size else k_default_table_size)
      in \<lparr>per_table_size = per, chunk_tables = Some (replicate (unat k_max_chunks) None),
          large_alloc_table = Some (Some (mk_AddressTable per))\<rparr>)"

definition bs_move_from :: "AddressBitset \<Rightarrow> AddressBitset \<Rightarrow> AddressBitset \<times> AddressBitset" where
  "bs_move_from this other = (
     this\<lparr>per_table_size := per_table_size other, chunk_tables := chunk_tables other,
          large_alloc_table := large_alloc_table other\<rparr>,
     other\<lparr>per_table_size := 0, chunk_tables := None, large_alloc_table := None\<rparr>)"

definition chunk_idx :: "u64 \<Rightarrow> nat" where
  "chunk_idx addr = unat (drop_bit k_chunk_shift addr AND (k_max_chunks - 1))"

definition load_table :: "AddressBitset \<Rightarrow> u64 \<Rightarrow> bool \<Rightarrow> AddressTable option option" where
  "load_table bs addr is_large_alloc =
     (if is_large_alloc then large_alloc_table bs
      else map_option (\<lambda>ts. ts ! chunk_idx addr) (chunk_tables bs))"

definition store_table :: "AddressBitset \<Rightarrow> u64 \<Rightarrow> bool \<Rightarrow> AddressTable \<Rightarrow> AddressBitset" where
  "store_table bs addr is_large_alloc t =
     (if is_large_alloc then bs\<lparr>large_alloc_table := Some (Some t)\<rparr>
      else bs\<lparr>chunk_tables := map_option (\<lambda>ts. ts[chunk_idx addr := Some t]) (chunk_tables bs)\<rparr>)"

definition get_table ::
    "AddressBitset \<Rightarrow> u64 \<Rightarrow> bool \<Rightarrow> bool \<Rightarrow> (AddressBitset \<times> AddressTable option) option" where
  "get_table bs addr is_large_alloc create_if_missing = (
     case load_table bs addr is_large_alloc of
       None \<Rightarrow> None
     | Some None \<Rightarrow>
         if create_if_missing
         then let new_table = mk_AddressTable (per_table_size bs)
              in Some (store_table bs addr is_large_alloc new_table, Some new_table)
         else Some (bs, None)
     | Some (Some table) \<Rightarrow> Some (bs, Some table))"

definition bs_add :: "AddressBitset \<Rightarrow> u64 \<Rightarrow> bool \<Rightarrow> (AddressBitset \<times> bool) option" where
  "bs_add bs addr is_large_alloc = (
     case get_table bs addr is_large_alloc True of
       None \<Rightarrow> None
     | Some (bs, None) \<Rightarrow> Some (bs, False)
     | Some (bs, Some table) \<Rightarrow>
         case table_add table addr of (table, r) \<Rightarrow> Some (store_table bs addr is_large_alloc table, r))"

definition bs_remove :: "AddressBitset \<Rightarrow> u64 \<Rightarrow> bool \<Rightarrow> (AddressBitset \<times> bool) option" where
  "bs_remove bs addr is_large_alloc = (
     case get_table bs addr is_large_alloc False of
       None \<Rightarrow> None
     | Some (bs, None) \<Rightarrow> Some (bs, False)
     | Some (bs, Some table) \<Rightarrow>
         case table_remove table addr of (table, r) \<Rightarrow> Some (store_table bs addr is_large_alloc table, r))"

definition bs_clear :: "AddressBitset \<Rightarrow> AddressBitset" where
  "bs_clear bs = bs\<lparr>chunk_tables := map_option (map (map_option table_clear)) (chunk_tables bs),
                    large_alloc_table := map_option (map_option table_clear) (large_alloc_table bs)\<rparr>"

definition opt_count :: "AddressTable option \<Rightarrow> nat" where
  "opt_count t = (case t of None \<Rightarrow> 0 | Some t \<Rightarrow> unat (tbl_count t))"

text \<open>The sums are \<^verbatim>\<open>int\<close> in the code; they stay below \<open>129 * 2 ^ 31\<close> slots.\<close>

definition bs_count :: "AddressBitset \<Rightarrow> nat" where
  "bs_count bs = (case chunk_tables bs of
      None \<Rightarrow> 0
    | Some ts \<Rightarrow> sum_list (map opt_count ts) +
        (case large_alloc_table bs of None \<Rightarrow> 0 | Some t \<Rightarrow> opt_count t))"

definition active_shards :: "AddressBitset \<Rightarrow> nat" where
  "active_shards bs = (case chunk_tables bs of
      None \<Rightarrow> 0
    | Some ts \<Rightarrow> length (filter (\<lambda>t. t \<noteq> None) ts) +
        (case large_alloc_table bs of Some (Some _) \<Rightarrow> 1 | _ \<Rightarrow> 0))"

declare count_shifts.simps [simp del]

section \<open>Sizes\<close>

lemma count_shifts_bound:
  "num \<noteq> 0 \<Longrightarrow> \<exists>j. count_shifts num n = n + j \<and> unat num < 2 ^ j \<and> 2 ^ j \<le> 2 * unat num"
proof (induction num n rule: count_shifts.induct)
  case (1 num n)
  have half: "unat (drop_bit 1 num) = unat num div 2" by (simp add: drop_bit_eq_div unat_div)
  have nz: "unat num \<noteq> 0" using 1(2) by (simp add: unsigned_eq_0_iff)
  have step: "count_shifts num n = count_shifts (drop_bit 1 num) (n + 1)"
    using 1(2) by (simp add: count_shifts.simps[of num n])
  show ?case
  proof (cases "drop_bit 1 num = 0")
    case True
    then have "unat num div 2 = 0" using half by simp
    then have "unat num = 1" using nz by simp
    moreover have "count_shifts num n = n + 1" using step True by (simp add: count_shifts.simps[of 0])
    ultimately show ?thesis by (intro exI[of _ 1]) simp
  next
    case False
    with 1 obtain j where "count_shifts (drop_bit 1 num) (n + 1) = n + 1 + j"
      "unat (drop_bit 1 num) < 2 ^ j" "2 ^ j \<le> 2 * unat (drop_bit 1 num)" by blast
    then show ?thesis using step half by (intro exI[of _ "Suc j"]) auto
  qed
qed

lemma power_of_two_of_and:
  fixes n :: u64
  assumes "n \<noteq> 0" "n AND (n - 1) = 0"
  shows "\<exists>j<64. n = 2 ^ j"
proof -
  have nz: "unat n \<noteq> 0" using assms(1) by (simp add: unsigned_eq_0_iff)
  obtain j where "unat n < 2 ^ j" "2 ^ j \<le> 2 * unat n" using count_shifts_bound[OF assms(1)] by blast
  then obtain i where i: "2 ^ i \<le> unat n" "unat n < 2 * 2 ^ i" using nz by (cases j) auto
  have "unat n = 2 ^ i"
  proof (rule ccontr)
    assume "unat n \<noteq> 2 ^ i"
    then have "2 ^ i \<le> unat n - 1" "unat n - 1 < 2 * 2 ^ i" using i by auto
    then have "(unat n - 1) div 2 ^ i = 1" "unat n div 2 ^ i = 1" using i by (simp_all add: div_nat_eqI)
    then have "bit (unat n) i" "bit (unat n - 1) i" by (simp_all add: bit_iff_odd)
    moreover have "unat (n AND (n - 1)) = unat n AND (unat n - 1)"
      using assms(1) by (simp add: unsigned_and_eq unat_minus_one)
    ultimately have "bit (unat (n AND (n - 1))) i" by (simp add: bit_and_iff)
    then show False using assms(2) by simp
  qed
  moreover have "(2::nat) ^ i < 2 ^ 64" using calculation u64_less[of n] by simp
  then have "i < 64" by (simp only: power_strict_increasing_iff[of 2]) 
  moreover have "n = of_nat (2 ^ i)" using calculation(1) by (metis of_nat_unat ucast_id)
  ultimately show ?thesis by auto
qed

lemma ucast_u32: "unat (ucast (x :: u64) :: u32) = unat x mod 2 ^ 32"
  by (simp add: unsigned_ucast_eq take_bit_eq_mod)

lemma ucast_u64: "unat (ucast (x :: u32) :: u64) = unat x"
proof -
  have "unat (ucast x :: u64) = unat x mod 2 ^ 64" by (simp add: unsigned_ucast_eq take_bit_eq_mod)
  moreover have "unat x < 2 ^ 32" using unsigned_less[of x] by simp
  ultimately show ?thesis by simp
qed

lemma unat_slot_and:
  assumes "k \<le> 32"
  shows "unat (ucast (ucast (s :: u32) AND (2 ^ k - 1 :: u64)) :: u32) = unat s mod 2 ^ k"
proof -
  have "unat (ucast s AND (2 ^ k - 1) :: u64) = unat s mod 2 ^ k"
    using unat_and_mask[of "ucast s" k] by (simp add: mask_eq_exp_minus_1 ucast_u64)
  moreover have "unat s mod 2 ^ k < 2 ^ 32"
  proof -
    have "unat s mod 2 ^ k < 2 ^ k" by simp
    also have "(2::nat) ^ k \<le> 2 ^ 32" using assms by (intro power_increasing) auto
    finally show ?thesis .
  qed
  ultimately show ?thesis by (simp add: ucast_u32)
qed

lemma unat_next_slot: "k \<le> 32 \<Longrightarrow> unat (next_slot (2 ^ k - 1) s) = (unat s + 1) mod 2 ^ k"
proof -
  assume k: "k \<le> 32"
  have "unat (s + 1) = (unat s + 1) mod 2 ^ 32" by (simp add: unat_word_ariths(1))
  then have "unat (next_slot (2 ^ k - 1) s) = (unat s + 1) mod 2 ^ 32 mod 2 ^ k"
    using k by (simp add: next_slot_def unat_slot_and)
  moreover have "(2::nat) ^ k dvd 2 ^ 32" using k by (rule le_imp_power_dvd)
  ultimately show ?thesis by (simp add: mod_mod_cancel)
qed

section \<open>Probing\<close>

text \<open>
  \<open>live\<close> slots hold an address. An address is found because every slot on its probe path before its own
  was taken when it was stored, and no operation but \<^verbatim>\<open>clear\<close> empties a slot.
\<close>

definition live :: "u64 \<Rightarrow> bool" where
  "live a \<longleftrightarrow> a \<noteq> empty_slot \<and> a \<noteq> deleted_slot"

definition probe_at :: "nat \<Rightarrow> u64 \<Rightarrow> nat \<Rightarrow> nat" where
  "probe_at k addr j = (unat (hash_to_slot (compute_full_hash addr) (2 ^ k - 1)) + j) mod 2 ^ k"

definition slots_wf :: "nat \<Rightarrow> u64 list \<Rightarrow> bool" where
  "slots_wf k slots \<longleftrightarrow> length slots = 2 ^ k \<and>
     (\<forall>i<2 ^ k. live (slots ! i) \<longrightarrow>
        (\<exists>j<k_max_probe_distance. probe_at k (slots ! i) j = i \<and> (\<forall>l<j. slots ! probe_at k (slots ! i) l \<noteq> empty_slot)))"

lemma probe_at_less: "probe_at k addr j < 2 ^ k"
  by (simp add: probe_at_def)

lemma probe_at_Suc: "k \<le> 32 \<Longrightarrow> unat s = probe_at k addr j \<Longrightarrow> unat (next_slot (2 ^ k - 1) s) = probe_at k addr (Suc j)"
  by (simp add: unat_next_slot probe_at_def mod_Suc_eq)

lemma probe_at_0: "k \<le> 32 \<Longrightarrow> unat (hash_to_slot (compute_full_hash addr) (2 ^ k - 1)) = probe_at k addr 0"
  by (simp add: probe_at_def hash_to_slot_def unat_slot_and)

text \<open>\<^verbatim>\<open>add\<close> stores at the first free slot of the path, unless the address or the end of the path comes first.\<close>

lemma add_probe_spec:
  assumes "k \<le> 32" "unat s = probe_at k addr p" "add_probe n slots (2 ^ k - 1) s addr = (slots', r)"
    "\<forall>l<p. live (slots ! probe_at k addr l)"
  shows "(r \<and> (\<exists>j. p \<le> j \<and> j < p + n \<and> \<not> live (slots ! probe_at k addr j) \<and>
            (\<forall>l<j. live (slots ! probe_at k addr l)) \<and> slots' = slots[probe_at k addr j := addr])) \<or>
    (\<not> r \<and> slots' = slots \<and> ((\<exists>j<p + n. slots ! probe_at k addr j = addr) \<or> (\<forall>l<p + n. live (slots ! probe_at k addr l))))"
  using assms
proof (induction n arbitrary: p s)
  case 0
  then show ?case by simp
next
  case (Suc n)
  let ?c = "slots ! probe_at k addr p"
  show ?case
  proof (cases "live ?c")
    case False
    then have "add_probe (Suc n) slots (2 ^ k - 1) s addr = (slots[probe_at k addr p := addr], True)"
      using Suc.prems(2) by (auto simp: live_def)
    then show ?thesis using Suc.prems False by (auto intro!: exI[of _ p])
  next
    case True
    show ?thesis
    proof (cases "?c = addr")
      case True
      then have "slots' = slots" "\<not> r" using Suc.prems(2,3) \<open>live ?c\<close> by (auto simp: live_def Let_def split: if_splits)
      then show ?thesis using True by auto
    next
      case False
      then have "add_probe n slots (2 ^ k - 1) (next_slot (2 ^ k - 1) s) addr = (slots', r)"
        using Suc.prems(2,3) \<open>live ?c\<close> by (simp add: live_def)
      moreover have "\<forall>l<Suc p. live (slots ! probe_at k addr l)" using Suc.prems(4) True by (auto simp: less_Suc_eq)
      ultimately show ?thesis
        using Suc.IH[OF Suc.prems(1) probe_at_Suc[OF Suc.prems(1,2)]] by (auto dest: Suc_leD)
    qed
  qed
qed

text \<open>\<^verbatim>\<open>remove\<close> finds the first copy on the path unless an empty slot comes first.\<close>

lemma remove_probe_spec:
  assumes "k \<le> 32" "unat s = probe_at k addr p" "remove_probe n slots (2 ^ k - 1) s addr = (slots', r)" "live addr"
    "\<forall>l<p. slots ! probe_at k addr l \<noteq> addr \<and> slots ! probe_at k addr l \<noteq> empty_slot"
  shows "(r \<and> (\<exists>j<p + n. slots ! probe_at k addr j = addr \<and> slots' = slots[probe_at k addr j := deleted_slot])) \<or>
    (\<not> r \<and> slots' = slots \<and>
       (\<forall>j<p + n. slots ! probe_at k addr j = addr \<longrightarrow> (\<exists>l<j. slots ! probe_at k addr l = empty_slot)))"
  using assms
proof (induction n arbitrary: p s)
  case 0
  then show ?case by auto
next
  case (Suc n)
  let ?c = "slots ! probe_at k addr p"
  consider "?c = empty_slot" | "?c = addr" | "?c \<noteq> empty_slot" "?c \<noteq> addr" by blast
  then show ?case
  proof cases
    case 1
    then have "slots' = slots" "\<not> r" using Suc.prems(2,3) by auto
    moreover have "\<exists>l<j. slots ! probe_at k addr l = empty_slot" if "slots ! probe_at k addr j = addr" for j
    proof -
      have "j \<noteq> p" using that 1 Suc.prems(4) by (auto simp: live_def)
      moreover have "\<not> j < p" using that Suc.prems(5) by auto
      ultimately show ?thesis using 1 by (intro exI[of _ p]) auto
    qed
    ultimately show ?thesis by blast
  next
    case 2
    then have "slots' = slots[probe_at k addr p := deleted_slot]" r
      using Suc.prems(2-4) by (auto simp: live_def Let_def split: if_splits)
    then show ?thesis using 2 by (intro disjI1 conjI exI[of _ p]) auto
  next
    case 3
    then have "remove_probe n slots (2 ^ k - 1) (next_slot (2 ^ k - 1) s) addr = (slots', r)"
      using Suc.prems(2,3) by (auto simp: Let_def split: if_splits)
    moreover have "\<forall>l<Suc p. slots ! probe_at k addr l \<noteq> addr \<and> slots ! probe_at k addr l \<noteq> empty_slot"
      using Suc.prems(5) 3 by (auto simp: less_Suc_eq)
    ultimately show ?thesis
      using Suc.IH[OF Suc.prems(1) probe_at_Suc[OF Suc.prems(1,2)] _ Suc.prems(4)] by simp
  qed
qed

lemma slots_wf_update:
  assumes wf: "slots_wf k slots" and i: "i < 2 ^ k" and v: "v \<noteq> empty_slot"
    and new: "live v \<Longrightarrow> \<exists>j<k_max_probe_distance. probe_at k v j = i \<and> (\<forall>l<j. slots ! probe_at k v l \<noteq> empty_slot)"
  shows "slots_wf k (slots[i := v])"
proof -
  have len: "length slots = 2 ^ k" using wf by (simp add: slots_wf_def)
  have keep: "slots[i := v] ! x \<noteq> empty_slot" if "slots ! x \<noteq> empty_slot" for x
    using that v by (cases "x = i") (auto simp: nth_list_update len i)
  have "\<exists>j<k_max_probe_distance. probe_at k (slots[i := v] ! x) j = x \<and>
      (\<forall>l<j. slots[i := v] ! probe_at k (slots[i := v] ! x) l \<noteq> empty_slot)"
    if x: "x < 2 ^ k" "live (slots[i := v] ! x)" for x
  proof (cases "x = i")
    case True
    then show ?thesis using x new keep len i by auto
  next
    case False
    then have "slots[i := v] ! x = slots ! x" by simp
    moreover from this x wf obtain j where "j < k_max_probe_distance" "probe_at k (slots ! x) j = x"
      "\<forall>l<j. slots ! probe_at k (slots ! x) l \<noteq> empty_slot" by (auto simp: slots_wf_def)
    ultimately show ?thesis using keep by (intro exI[of _ j]) simp
  qed
  then show ?thesis using len by (simp add: slots_wf_def)
qed

section \<open>One table as a bag\<close>

definition contents :: "AddressTable \<Rightarrow> u64 multiset" where
  "contents t = filter_mset live (mset (tbl_slots t))"

definition table_wf :: "nat \<Rightarrow> AddressTable \<Rightarrow> bool" where
  "table_wf k t \<longleftrightarrow> k \<le> 32 \<and> tbl_size t = 2 ^ k \<and> tbl_mask t = 2 ^ k - 1 \<and> slots_wf k (tbl_slots t) \<and>
     unat (tbl_count t) = size (contents t) \<and> tbl_count t \<le> tbl_max_capacity t"

lemma contents_update:
  assumes "i < length slots"
  shows "filter_mset live (mset (slots[i := v])) =
    filter_mset live (mset slots) - (if live (slots ! i) then {#slots ! i#} else {#}) + (if live v then {#v#} else {#})"
proof -
  have "slots ! i \<in># mset slots" using assms by simp
  then show ?thesis using assms by (auto simp: mset_update filter_diff_mset)
qed

lemma in_contents: "a \<in># contents t \<longleftrightarrow> live a \<and> (\<exists>i<length (tbl_slots t). tbl_slots t ! i = a)"
  by (auto simp: contents_def in_set_conv_nth)

lemma table_add_spec:
  assumes wf: "table_wf k t" and a: "live addr" and res: "table_add t addr = (t', r)"
  shows "table_wf k t' \<and> contents t' = (if r then add_mset addr (contents t) else contents t) \<and>
    (\<not> r \<longrightarrow> t' = t \<and> (addr \<in># contents t \<or> tbl_max_capacity t \<le> tbl_count t \<or>
       (\<forall>l<k_max_probe_distance. live (tbl_slots t ! probe_at k addr l))))"
proof (cases "tbl_max_capacity t \<le> tbl_count t")
  case True
  then show ?thesis using res wf by (auto simp: table_add_def)
next
  case False
  let ?s = "hash_to_slot (compute_full_hash addr) (tbl_mask t)"
  obtain slots' r' where p: "add_probe k_max_probe_distance (tbl_slots t) (tbl_mask t) ?s addr = (slots', r')" by fastforce
  have k: "k \<le> 32" and m: "tbl_mask t = 2 ^ k - 1" and sw: "slots_wf k (tbl_slots t)" and len: "length (tbl_slots t) = 2 ^ k"
    using wf by (auto simp: table_wf_def slots_wf_def)
  note spec = add_probe_spec[OF k, of ?s addr 0 k_max_probe_distance "tbl_slots t" slots' r']
  show ?thesis
  proof (cases r')
    case True
    with spec p m probe_at_0[OF k, of addr] obtain j where j: "j < k_max_probe_distance"
      "\<not> live (tbl_slots t ! probe_at k addr j)" "\<forall>l<j. live (tbl_slots t ! probe_at k addr l)"
      "slots' = (tbl_slots t)[probe_at k addr j := addr]" by auto
    have t': "t' = t\<lparr>tbl_slots := slots', tbl_count := tbl_count t + 1\<rparr>" "r"
      using res p True False by (auto simp: table_add_def)
    have sw': "slots_wf k slots'" unfolding j(4)
      by (rule slots_wf_update[OF sw probe_at_less]) (use a j in \<open>auto simp: live_def\<close>)
    have c: "contents t' = add_mset addr (contents t)"
      using contents_update[of "probe_at k addr j" "tbl_slots t" addr] probe_at_less[of k addr j] len j(2,4) a
      by (simp add: contents_def t'(1))
    have lt: "tbl_count t < tbl_max_capacity t" using False by simp
    then have "unat (tbl_count t + 1) = unat (tbl_count t) + 1" "tbl_count t + 1 \<le> tbl_max_capacity t"
      using u64_less_max_Suc[OF lt] by auto
    then show ?thesis using wf sw' c t' by (auto simp: table_wf_def)
  next
    case no: False
    then have "t' = t" "\<not> r" using res p False by (auto simp: table_add_def)
    moreover have "addr \<in># contents t \<or> (\<forall>l<k_max_probe_distance. live (tbl_slots t ! probe_at k addr l))"
      using spec p m probe_at_0[OF k, of addr] no a probe_at_less[of k addr] len by (auto simp: in_contents)
    ultimately show ?thesis using wf by auto
  qed
qed

lemma table_remove_spec:
  assumes wf: "table_wf k t" and a: "live addr" and res: "table_remove t addr = (t', r)"
  shows "table_wf k t' \<and> (r \<longleftrightarrow> addr \<in># contents t) \<and> contents t' = contents t - {#addr#}"
proof -
  let ?s = "hash_to_slot (compute_full_hash addr) (tbl_mask t)"
  obtain slots' r' where p: "remove_probe k_max_probe_distance (tbl_slots t) (tbl_mask t) ?s addr = (slots', r')" by fastforce
  have k: "k \<le> 32" and m: "tbl_mask t = 2 ^ k - 1" and sw: "slots_wf k (tbl_slots t)" and len: "length (tbl_slots t) = 2 ^ k"
    using wf by (auto simp: table_wf_def slots_wf_def)
  note spec = remove_probe_spec[OF k, of ?s addr 0 k_max_probe_distance "tbl_slots t" slots' r', OF _ _ a]
  show ?thesis
  proof (cases r')
    case True
    with spec p m probe_at_0[OF k, of addr] obtain j where j: "j < k_max_probe_distance"
      "tbl_slots t ! probe_at k addr j = addr" "slots' = (tbl_slots t)[probe_at k addr j := deleted_slot]" by auto
    have t': "t' = t\<lparr>tbl_slots := slots', tbl_count := tbl_count t - 1\<rparr>" "r"
      using res p True by (auto simp: table_remove_def)
    have "addr \<in># contents t" using a j(2) probe_at_less[of k addr j] len by (auto simp: in_contents)
    moreover have sw': "slots_wf k slots'" unfolding j(3)
      by (rule slots_wf_update[OF sw probe_at_less]) (auto simp: live_def empty_slot_def deleted_slot_def)
    moreover have c: "contents t' = contents t - {#addr#}"
      using contents_update[of "probe_at k addr j" "tbl_slots t" deleted_slot] probe_at_less[of k addr j] len j(2,3) a
      by (simp add: contents_def t'(1) live_def)
    moreover have "unat (tbl_count t - 1) = unat (tbl_count t) - 1 \<and> tbl_count t - 1 \<le> tbl_max_capacity t"
    proof -
      have "unat (tbl_count t) \<noteq> 0" using wf \<open>addr \<in># contents t\<close> by (auto simp: table_wf_def)
      then have nz: "tbl_count t \<noteq> 0" by auto
      then have u: "unat (tbl_count t - 1) = unat (tbl_count t) - 1" by (simp add: unat_minus_one)
      have "unat (tbl_count t) \<le> unat (tbl_max_capacity t)" using wf by (simp add: table_wf_def word_le_nat_alt)
      then show ?thesis using u by (simp add: word_le_nat_alt)
    qed
    ultimately show ?thesis using wf t' by (auto simp: table_wf_def size_Diff_singleton)
  next
    case False
    then have t': "t' = t" "\<not> r" using res p by (auto simp: table_remove_def)
    have "addr \<notin># contents t"
    proof
      assume "addr \<in># contents t"
      then obtain i where i: "i < 2 ^ k" "tbl_slots t ! i = addr" using len by (auto simp: in_contents)
      with sw a obtain j where "j < k_max_probe_distance" "probe_at k addr j = i"
        "\<forall>l<j. tbl_slots t ! probe_at k addr l \<noteq> empty_slot" by (auto simp: slots_wf_def)
      then show False using spec p m probe_at_0[OF k, of addr] False i by auto
    qed
    then show ?thesis using wf t' by (simp add: diff_single_trivial)
  qed
qed

section \<open>The sharded set as a bag\<close>

definition bs_wf :: "AddressBitset \<Rightarrow> bool" where
  "bs_wf bs \<longleftrightarrow> 0 < per_table_size bs \<and> per_table_size bs \<le> 2 ^ 31 \<and>
     (\<exists>ts. chunk_tables bs = Some ts \<and> length ts = unat k_max_chunks \<and> (\<forall>t. Some t \<in> set ts \<longrightarrow> (\<exists>k. table_wf k t))) \<and>
     (\<exists>k t. large_alloc_table bs = Some (Some t) \<and> table_wf k t)"

text \<open>How often an address is tracked, as a small or as a large allocation.\<close>

definition tracked :: "AddressBitset \<Rightarrow> u64 \<times> bool \<Rightarrow> nat" where
  "tracked bs x = (case load_table bs (fst x) (snd x) of
      Some (Some t) \<Rightarrow> count (contents t) (fst x) | _ \<Rightarrow> 0)"

lemma round_up_power:
  assumes "num \<noteq> 0" "num \<le> 2 ^ 63"
  shows "\<exists>k<64. round_up_to_power_of_two num = 2 ^ k \<and> unat num \<le> 2 ^ k \<and> 2 ^ k < 2 * unat num"
proof (cases "num AND (num - 1) = 0")
  case True
  from power_of_two_of_and[OF assms(1) True] obtain j where "j < 64" "num = 2 ^ j" by blast
  then show ?thesis using True assms(1) unat_power_u64[of j]
    by (intro exI[of _ j]) (simp add: round_up_to_power_of_two_def)
next
  case False
  obtain j where j: "count_shifts num 0 = j" "unat num < 2 ^ j" "2 ^ j \<le> 2 * unat num"
    using count_shifts_bound[OF assms(1), of 0] by auto
  have "2 ^ j \<noteq> 2 * unat num"
  proof
    assume eq: "2 ^ j = 2 * unat num"
    then obtain i where i: "j = Suc i" by (cases j) auto
    then have "num = 2 ^ i" using eq by (metis mult_left_cancel of_nat_numeral of_nat_power of_nat_unat
          power_Suc ucast_id zero_neq_numeral)
    then show False using False and_power_minus_one by simp
  qed
  then have lt: "2 ^ j < 2 * unat num" using j(3) by simp
  have "unat num \<le> 2 ^ 63" using assms(2) unat_power_u64[of 63] by (simp add: word_le_nat_alt)
  then have "(2::nat) ^ j < 2 ^ 64" using lt by simp
  then have "j < 64" by (simp only: power_strict_increasing_iff[of 2])
  then show ?thesis using False assms(1) j(1,2) lt by (intro exI[of _ j]) (simp add: round_up_to_power_of_two_def)
qed

lemma mk_AddressTable_wf:
  assumes "0 < sz" "sz \<le> 2 ^ 31"
  shows "\<exists>k. table_wf k (mk_AddressTable sz)" "contents (mk_AddressTable sz) = {#}"
proof -
  have "sz \<le> 2 ^ 63" using assms(2) by (rule order_trans) (simp add: word_le_nat_alt)
  then obtain k where k: "k < 64" "round_up_to_power_of_two sz = 2 ^ k" "2 ^ k < 2 * unat sz"
    using round_up_power[of sz] assms(1) by auto
  have "unat sz \<le> 2 ^ 31" using assms(2) by (simp add: word_le_nat_alt)
  then have "(2::nat) ^ k < 2 ^ 32" using k(3) by simp
  then have k32: "k < 32" by (simp only: power_strict_increasing_iff[of 2])
  have c: "contents (mk_AddressTable s) = {#}" for s
    by (simp add: contents_def mk_AddressTable_def Let_def live_def)
  then show "contents (mk_AddressTable sz) = {#}" .
  have "slots_wf k (tbl_slots (mk_AddressTable sz))"
    using k unat_power_u64[OF k(1)] by (simp add: slots_wf_def mk_AddressTable_def Let_def live_def)
  then show "\<exists>k. table_wf k (mk_AddressTable sz)"
    using k32 k(2) c[of sz] by (intro exI[of _ k]) (simp add: table_wf_def, simp add: mk_AddressTable_def Let_def)
qed

lemma bs_init_wf: "sz \<le> 2 ^ 31 \<Longrightarrow> bs_wf (bs_init sz)"
  using mk_AddressTable_wf(1)[of sz] mk_AddressTable_wf(1)[of k_default_table_size]
  by (auto simp: bs_wf_def bs_init_def Let_def k_default_table_size_def word_gt_0)

lemma chunk_idx_less: "chunk_idx a < unat k_max_chunks"
proof -
  have "unat (drop_bit k_chunk_shift a AND mask 7 :: u64) = unat (drop_bit k_chunk_shift a) mod 128"
    by (simp add: unat_and_mask)
  moreover have "(mask 7 :: u64) = k_max_chunks - 1" by (simp add: k_max_chunks_def mask_eq_exp_minus_1)
  ultimately show ?thesis by (simp add: chunk_idx_def k_max_chunks_def)
qed

text \<open>Replacing the table of an address.\<close>

lemma load_store_table:
  assumes "bs_wf bs"
  shows "load_table (store_table bs x l t) y l' =
    (if l = l' \<and> (l \<or> chunk_idx x = chunk_idx y) then Some (Some t) else load_table bs y l')"
  using assms chunk_idx_less[of x] by (auto simp: load_table_def store_table_def bs_wf_def nth_list_update)

lemma load_table_wf:
  assumes "bs_wf bs" "load_table bs x l = Some (Some t)"
  shows "\<exists>k. table_wf k t"
proof (cases l)
  case True
  then show ?thesis using assms by (auto simp: bs_wf_def load_table_def)
next
  case False
  then obtain ts where ts: "chunk_tables bs = Some ts" "length ts = unat k_max_chunks" "ts ! chunk_idx x = Some t"
    using assms by (auto simp: bs_wf_def load_table_def)
  then have "Some t \<in> set ts" using chunk_idx_less[of x] by (metis nth_mem)
  then show ?thesis using assms(1) ts(1) by (auto simp: bs_wf_def)
qed

lemma store_table_wf:
  assumes "bs_wf bs" "table_wf k t"
  shows "bs_wf (store_table bs x l t)"
proof (cases l)
  case True
  then show ?thesis using assms by (auto simp: bs_wf_def store_table_def)
next
  case False
  obtain ts where ts: "chunk_tables bs = Some ts" using assms(1) by (auto simp: bs_wf_def)
  have "set (ts[chunk_idx x := Some t]) \<subseteq> insert (Some t) (set ts)" by (rule set_update_subset_insert)
  then show ?thesis using False assms ts by (fastforce simp: bs_wf_def store_table_def)
qed

lemma store_table_count:
  assumes "bs_wf bs" "load_table bs x l = Some old"
  shows "bs_count (store_table bs x l t) + opt_count old = bs_count bs + unat (tbl_count t)"
proof -
  obtain ts where ts: "chunk_tables bs = Some ts" "length ts = unat k_max_chunks" using assms(1) by (auto simp: bs_wf_def)
  obtain lt where lt: "large_alloc_table bs = Some (Some lt)" using assms(1) by (auto simp: bs_wf_def)
  have lt_i: "chunk_idx x < length ts" using chunk_idx_less ts(2) by simp
  have "sum_list (map opt_count (ts[chunk_idx x := Some t])) + opt_count (ts ! chunk_idx x) =
      sum_list (map opt_count ts) + opt_count (Some t)"
    using lt_i elem_le_sum_list[of "chunk_idx x" "map opt_count ts"] by (simp add: map_update sum_list_update)
  then show ?thesis
    using assms(2) ts lt by (cases l) (auto simp: bs_count_def store_table_def load_table_def opt_count_def)
qed

lemma tracked_store:
  assumes "bs_wf bs"
  shows "tracked (store_table bs x l t) y =
    (if l = snd y \<and> (l \<or> chunk_idx x = chunk_idx (fst y)) then count (contents t) (fst y) else tracked bs y)"
  by (simp add: tracked_def load_store_table[OF assms])

lemma get_table_create:
  assumes wf: "bs_wf bs"
  obtains bs' t k where "get_table bs x l True = Some (bs', Some t)" "bs_wf bs'" "table_wf k t"
    "load_table bs' x l = Some (Some t)" "tracked bs' = tracked bs" "bs_count bs' = bs_count bs"
proof (cases "load_table bs x l")
  case None
  then show ?thesis using wf by (auto simp: load_table_def bs_wf_def split: if_splits)
next
  case (Some u)
  show ?thesis
  proof (cases u)
    case (Some t)
    then have l: "load_table bs x l = Some (Some t)" using \<open>load_table bs x l = Some u\<close> by simp
    then obtain k where "table_wf k t" using load_table_wf[OF wf] by blast
    then show ?thesis using that[of bs t k] l wf by (simp add: get_table_def)
  next
    case None
    let ?t = "mk_AddressTable (per_table_size bs)"
    obtain k where k: "table_wf k ?t" and e: "contents ?t = {#}" using mk_AddressTable_wf[of "per_table_size bs"] wf by (auto simp: bs_wf_def)
    have l: "\<not> l" using wf Some None by (auto simp: load_table_def bs_wf_def)
    have "tracked (store_table bs x l ?t) = tracked bs"
    proof (rule ext)
    fix y show "tracked (store_table bs x l ?t) y = tracked bs y"
    proof (cases "\<not> snd y \<and> chunk_idx x = chunk_idx (fst y)")
      case True
      then have "load_table bs (fst y) (snd y) = Some None" using Some None l by (simp add: load_table_def)
      then show ?thesis using True l by (simp add: tracked_store[OF wf] e) (simp add: tracked_def)
    qed (use l in \<open>auto simp: tracked_store[OF wf]\<close>)
    qed
    moreover have "bs_count (store_table bs x l ?t) = bs_count bs"
      using store_table_count[OF wf Some, of ?t] None by (simp add: opt_count_def mk_AddressTable_def Let_def)
    moreover have "load_table (store_table bs x l ?t) x l = Some (Some ?t)" by (simp add: load_store_table[OF wf])
    moreover have "get_table bs x l True = Some (store_table bs x l ?t, Some ?t)" using Some None by (simp add: get_table_def Let_def)
    ultimately show ?thesis using that[of "store_table bs x l ?t" ?t k] k store_table_wf[OF wf k] by blast
  qed
qed

lemma bs_add_law:
  assumes wf: "bs_wf bs" and a: "live (fst x)"
  shows "\<exists>bs' r. bs_add bs (fst x) (snd x) = Some (bs', r) \<and> bs_wf bs' \<and>
    tracked bs' = (tracked bs)(x := tracked bs x + of_bool r) \<and> bs_count bs' = bs_count bs + of_bool r"
proof -
  obtain bs1 t k where g: "get_table bs (fst x) (snd x) True = Some (bs1, Some t)" "bs_wf bs1" "table_wf k t"
    "load_table bs1 (fst x) (snd x) = Some (Some t)" "tracked bs1 = tracked bs" "bs_count bs1 = bs_count bs"
    using get_table_create[OF wf] by blast
  obtain t' r where t': "table_add t (fst x) = (t', r)" by fastforce
  note spec = table_add_spec[OF g(3) a t']
  let ?bs = "store_table bs1 (fst x) (snd x) t'"
  have "tracked ?bs y = ((tracked bs)(x := tracked bs x + of_bool r)) y" for y
  proof (cases "snd x = snd y \<and> (snd x \<or> chunk_idx (fst x) = chunk_idx (fst y))")
    case True
    have "load_table bs1 (fst y) (snd y) = Some (Some t)" using True g(4) by (auto simp: load_table_def)
    then have "tracked bs1 y = count (contents t) (fst y)" by (simp add: tracked_def)
    then have ty: "tracked bs y = count (contents t) (fst y)" using g(5) by simp
    have new: "tracked ?bs y = count (if r then add_mset (fst x) (contents t) else contents t) (fst y)"
      unfolding tracked_store[OF g(2)] if_P[OF True] using spec by simp
    have "fst y = fst x \<longleftrightarrow> y = x" using True by (auto simp: prod_eq_iff)
    then show ?thesis unfolding new by (cases "y = x") (use ty in auto)
  qed (use g(5) in \<open>auto simp: tracked_store[OF g(2)]\<close>)
  moreover have "bs_count ?bs = bs_count bs + of_bool r"
    using store_table_count[OF g(2,4), of t'] spec g(3,6) by (auto simp: opt_count_def table_wf_def)
  ultimately show ?thesis
    using g(1) t' store_table_wf[OF g(2)] spec by (auto simp: bs_add_def)
qed

lemma bs_remove_law:
  assumes wf: "bs_wf bs" and a: "live (fst x)"
  shows "\<exists>bs'. bs_remove bs (fst x) (snd x) = Some (bs', 0 < tracked bs x) \<and> bs_wf bs' \<and>
    tracked bs' = (tracked bs)(x := tracked bs x - 1) \<and> bs_count bs' = bs_count bs - of_bool (0 < tracked bs x)"
proof (cases "load_table bs (fst x) (snd x)")
  case None
  then show ?thesis using wf by (auto simp: load_table_def bs_wf_def split: if_splits)
next
  case (Some u)
  show ?thesis
  proof (cases u)
    case None
    then have z: "tracked bs x = 0" using Some by (simp add: tracked_def)
    then have "(tracked bs)(x := tracked bs x - 1) = tracked bs" by auto
    then show ?thesis using Some None z wf by (auto simp: bs_remove_def get_table_def)
  next
    case t: (Some t)
    from load_table_wf[OF wf] Some t obtain k where k: "table_wf k t" by blast
    obtain t' r where t': "table_remove t (fst x) = (t', r)" by fastforce
    note spec = table_remove_spec[OF k a t']
    let ?bs = "store_table bs (fst x) (snd x) t'"
    have tx: "tracked bs x = count (contents t) (fst x)" using Some t by (simp add: tracked_def)
    then have r: "r = (0 < tracked bs x)" using spec by simp
    have "tracked ?bs y = ((tracked bs)(x := tracked bs x - 1)) y" for y
    proof (cases "snd x = snd y \<and> (snd x \<or> chunk_idx (fst x) = chunk_idx (fst y))")
      case True
      have "load_table bs (fst y) (snd y) = Some (Some t)" using True Some t by (auto simp: load_table_def)
      then have ty: "tracked bs y = count (contents t) (fst y)" by (simp add: tracked_def)
      have new: "tracked ?bs y = count (contents t - {#fst x#}) (fst y)"
        unfolding tracked_store[OF wf] if_P[OF True] using spec by simp
      have "fst y = fst x \<longleftrightarrow> y = x" using True by (auto simp: prod_eq_iff)
      then show ?thesis unfolding new by (cases "y = x") (use ty in auto)
    qed (auto simp: tracked_store[OF wf])
    moreover have "bs_count ?bs = bs_count bs - of_bool r"
    proof -
      have "unat (tbl_count t') = unat (tbl_count t) - of_bool r"
        using spec k by (auto simp: table_wf_def size_Diff_singleton)
      moreover have "of_bool r \<le> unat (tbl_count t)" using spec k by (auto simp: table_wf_def Suc_le_eq nonempty_has_size[symmetric])
      ultimately show ?thesis using store_table_count[OF wf Some, of t'] t by (auto simp: opt_count_def)
    qed
    ultimately show ?thesis
      using Some t t' store_table_wf[OF wf] spec r by (auto simp: bs_remove_def get_table_def)
  qed
qed

lemma bs_init_tracked [simp]: "tracked (bs_init sz) x = 0"
  using chunk_idx_less[of "fst x"]
  by (auto simp: tracked_def load_table_def bs_init_def Let_def contents_def mk_AddressTable_def live_def)

interpretation tracked_addresses: address_bag bs_wf "\<lambda>x. live (fst x)" tracked bs_count
  "\<lambda>bs x. bs_add bs (fst x) (snd x)" "\<lambda>bs x. bs_remove bs (fst x) (snd x)"
  by unfold_locales (rule bs_add_law bs_remove_law; assumption)+

section \<open>Properties\<close>



text \<open>C7. Tracked addresses: on a fresh set of any size up to \<open>2 ^ 31\<close>, every sequence of requests is answered, and
  afterwards each address is tracked as often as it was added successfully minus as often as it was
  removed successfully; a removal succeeds exactly when the address is tracked. Probing with
  tombstones neither loses an address nor finds one that is not there.\<close>

theorem address_set_history:
  assumes "sz \<le> 2 ^ 31" and "\<forall>oper\<in>set ops. live (fst (case oper of BagAdd x \<Rightarrow> x | BagRemove x \<Rightarrow> x))"
  shows "\<exists>bs rs. bag_run (\<lambda>bs x. bs_add bs (fst x) (snd x)) (\<lambda>bs x. bs_remove bs (fst x) (snd x)) (bs_init sz) ops = Some (bs, rs) \<and>
    (\<forall>x. tracked bs x + successes (BagRemove x) ops rs = successes (BagAdd x) ops rs) \<and>
    (\<forall>x. live (fst x) \<longrightarrow> (\<exists>bs'. bs_remove bs (fst x) (snd x) = Some (bs', 0 < tracked bs x)))"
proof -
  have ok: "\<forall>oper\<in>set ops. (\<lambda>x. live (fst x)) (case oper of BagAdd x \<Rightarrow> x | BagRemove x \<Rightarrow> x)" using assms(2) by simp
  from tracked_addresses.run_history[OF bs_init_wf[OF assms(1)] ok] obtain bs rs where
    r: "bag_run (\<lambda>bs x. bs_add bs (fst x) (snd x)) (\<lambda>bs x. bs_remove bs (fst x) (snd x)) (bs_init sz) ops = Some (bs, rs)"
      "bs_wf bs" "\<forall>x. tracked bs x + successes (BagRemove x) ops rs = tracked (bs_init sz) x + successes (BagAdd x) ops rs"
    by blast
  then show ?thesis using bs_remove_law[OF r(2)] bs_init_tracked by (intro exI[of _ bs] exI[of _ rs]) (auto, blast)
qed

text \<open>The requests that make an address tracked twice: two addresses with the same slot.\<close>

definition dup_ops :: "(u64 \<times> bool) bag_op list" where
  "dup_ops = [BagAdd (16, True), BagAdd (32, True), BagRemove (16, True), BagAdd (32, True)]"

definition dup_table :: "u64 list \<Rightarrow> u64 \<Rightarrow> AddressTable" where
  "dup_table xs n = \<lparr>tbl_size = 4, tbl_mask = 3, tbl_max_capacity = 3, tbl_slots = xs, tbl_count = n\<rparr>"


theorem address_set_history_witness:
  "\<exists>bs rs. bag_run (\<lambda>bs x. bs_add bs (fst x) (snd x)) (\<lambda>bs x. bs_remove bs (fst x) (snd x)) (bs_init 4) dup_ops = Some (bs, rs) \<and>
    tracked bs (32, True) + successes (BagRemove (32, True)) dup_ops rs = successes (BagAdd (32, True)) dup_ops rs"
proof -
  have "\<forall>oper\<in>set dup_ops. live (fst (case oper of BagAdd x \<Rightarrow> x | BagRemove x \<Rightarrow> x))"
    by (simp add: dup_ops_def live_def empty_slot_def deleted_slot_def)
  then show ?thesis using address_set_history[of 4 dup_ops] by (auto simp: word_le_nat_alt)
qed

text \<open>Clearing forgets every address and keeps the tables usable.\<close>

lemma table_clear_wf: "table_wf k t \<Longrightarrow> table_wf k (table_clear t) \<and> contents (table_clear t) = {#}"
proof -
  assume wf: "table_wf k t"
  then have u: "unat (tbl_size t) = 2 ^ k" using unat_power_u64[of k] by (simp add: table_wf_def)
  have c: "contents (table_clear t) = {#}" by (simp add: contents_def table_clear_def live_def)
  have "slots_wf k (tbl_slots (table_clear t))" by (simp add: slots_wf_def table_clear_def u live_def)
  then show ?thesis using wf c by (simp add: table_wf_def) (simp add: table_clear_def)
qed

lemma bs_clear_empty:
  assumes "bs_wf bs"
  shows "bs_wf (bs_clear bs)" "tracked (bs_clear bs) x = 0" "bs_count (bs_clear bs) = 0"
proof -
  obtain ts where ts: "chunk_tables bs = Some ts" "length ts = unat k_max_chunks" "\<forall>t. Some t \<in> set ts \<longrightarrow> (\<exists>k. table_wf k t)"
    using assms by (auto simp: bs_wf_def)
  obtain k lt where lt: "large_alloc_table bs = Some (Some lt)" "table_wf k lt" using assms by (auto simp: bs_wf_def)
  have "\<exists>k. table_wf k t" if "Some t \<in> set (map (map_option table_clear) ts)" for t
  proof -
    have "Some t \<in> map_option table_clear ` set ts" using that by (simp only: set_map)
    then obtain x where x: "x \<in> set ts" "Some t = map_option table_clear x" by (rule imageE)
    then obtain u where "Some u \<in> set ts" "t = table_clear u" by - (cases x, simp_all)
    then show ?thesis using ts(3) table_clear_wf by blast
  qed
  moreover have "table_wf k (table_clear lt)" using lt(2) table_clear_wf by blast
  ultimately show "bs_wf (bs_clear bs)" using assms ts(1,2) lt(1) unfolding bs_wf_def bs_clear_def
    by (simp del: set_map) blast
  have "contents (table_clear t) = {#}" for t by (simp add: contents_def table_clear_def live_def)
  then show "tracked (bs_clear bs) x = 0"
    using ts lt chunk_idx_less[of "fst x"] by (auto simp: tracked_def load_table_def bs_clear_def split: option.split)
  have c: "opt_count (map_option table_clear u) = 0" for u by (cases u) (auto simp: opt_count_def table_clear_def)
  then show "bs_count (bs_clear bs) = 0"
    using c[of "Some lt"] by (auto simp: bs_count_def bs_clear_def ts lt o_def intro!: sum_list_eq_0_iff[THEN iffD2])
qed

end
