(* ===== verification/Unwind_Output.thy ===== *)
theory Unwind_Output
  imports Ddprof_Prelude
begin

text \<open>
  What unwinding a sample produces (\<^verbatim>\<open>unwind_output.hpp\<close>): a stack of locations and the
  labels of the thread. Two outputs with equal fields are the same key for the aggregation of
  live allocations.
\<close>

record FunLoc =
  fl_ip :: u64
  fl_elf_addr :: u64
  fl_file_info_id :: int
  fl_symbol_idx :: int
  fl_map_info_idx :: int

record UnwindOutput =
  uo_locs :: "FunLoc list"
  uo_container_id :: string
  uo_exe_name :: string
  uo_thread_name :: string
  uo_pid :: int
  uo_tid :: int

definition k_container_id_unknown :: string where
  "k_container_id_unknown = ''unknown''"

definition uo_clear :: "UnwindOutput \<Rightarrow> UnwindOutput" where
  "uo_clear uo = uo\<lparr>uo_locs := [], uo_container_id := k_container_id_unknown, uo_exe_name := [], uo_thread_name := []\<rparr>"

end
