(* ===== verification/Live_Alloc.thy ===== *)
theory Live_Alloc
  imports Unwind_Output
begin

text \<open>
  Live allocations (\<^verbatim>\<open>live_allocation.hpp\<close>, \<^verbatim>\<open>live_allocation.cc\<close>): which addresses of a process
  are allocated, and per stack trace how many and how much. A pointer to an element of the
  table of stacks is the key of that element, and \<^term>\<open>None\<close> stands for the use of a pointer
  whose element was erased. Values and counts are 64-bit and wrap.
\<close>

section \<open>Data\<close>

record ValueAndCount =
  vc_value :: u64
  vc_count :: u64

type_synonym PprofStacks = "(UnwindOutput, ValueAndCount) umap"

record ValuePerAddress =
  va_value :: u64
  va_unique_stack :: "UnwindOutput option"

type_synonym AddressMap = "(u64, ValuePerAddress) umap"

record PidStacks =
  ps_address_map :: AddressMap
  ps_unique_stacks :: PprofStacks
  ps_address_conflict_count :: u32
  ps_tracked_address_count :: u32

definition init_PidStacks :: PidStacks where
  "init_PidStacks = \<lparr>ps_address_map = [], ps_unique_stacks = [], ps_address_conflict_count = 0, ps_tracked_address_count = 0\<rparr>"

record LiveAllocation =
  la_watcher_vector :: "(pid_t, PidStacks) umap list"
  la_unmatched_deallocations :: u32
  la_already_existing_allocations :: u32

definition init_LiveAllocation :: LiveAllocation where
  "init_LiveAllocation = \<lparr>la_watcher_vector = [], la_unmatched_deallocations = 0, la_already_existing_allocations = 0\<rparr>"

section \<open>Operations on the stacks of one process\<close>

definition access_resize :: "'a list \<Rightarrow> nat \<Rightarrow> 'a \<Rightarrow> 'a list" where
  "access_resize v index d = (if index \<ge> length v then v @ replicate (index + 1 - length v) d else v)"

text \<open>The value of an address leaves the element of its stack; the count does not go below zero.\<close>

definition stack_decrement :: "ValueAndCount \<Rightarrow> u64 \<Rightarrow> ValueAndCount" where
  "stack_decrement vc value = (let vc = vc\<lparr>vc_value := vc_value vc - value\<rparr> in
     if vc_count vc \<noteq> 0 then vc\<lparr>vc_count := vc_count vc - 1\<rparr> else vc)"

definition deregister :: "u64 \<Rightarrow> PprofStacks \<Rightarrow> AddressMap \<Rightarrow> (PprofStacks \<times> AddressMap \<times> bool) option" where
  "deregister address stacks address_map = (case map_of address_map address of
     None \<Rightarrow> Some (stacks, address_map, False)
   | Some v \<Rightarrow> (case va_unique_stack v of
       None \<Rightarrow> Some (stacks, AList.delete address address_map, True)
     | Some k \<Rightarrow> (case map_of stacks k of
         None \<Rightarrow> None
       | Some vc \<Rightarrow>
           let vc = stack_decrement vc (va_value v);
               stacks = (if vc_count vc = 0 then AList.delete k stacks else AList.update k vc stacks)
           in Some (stacks, AList.delete address address_map, True))))"

text \<open>The allocation that was at the address already is taken back first.\<close>

definition clean_existing :: "UnwindOutput \<Rightarrow> ValuePerAddress \<Rightarrow> PprofStacks \<Rightarrow> PprofStacks option" where
  "clean_existing uo v stacks = (case va_unique_stack v of
     None \<Rightarrow> Some stacks
   | Some k \<Rightarrow> (case map_of stacks k of
       None \<Rightarrow> None
     | Some vc \<Rightarrow>
         let vc = stack_decrement vc (va_value v)
         in Some (if k \<noteq> uo \<and> vc_count vc = 0 then AList.delete k stacks else AList.update k vc stacks)))"

definition enregister :: "UnwindOutput \<Rightarrow> u64 \<Rightarrow> u64 \<Rightarrow> PprofStacks \<Rightarrow> AddressMap \<Rightarrow> u32 \<Rightarrow>
    (PprofStacks \<times> AddressMap \<times> u32 \<times> bool) option" where
  "enregister uo address value stacks address_map existing = (
     if uo_locs uo = [] then Some (stacks, address_map, existing, False)
     else
       let stacks = (if map_of stacks uo = None then AList.update uo \<lparr>vc_value = 0, vc_count = 0\<rparr> stacks else stacks);
           v = umap_at \<lparr>va_value = 0, va_unique_stack = None\<rparr> address_map address
       in case (if va_value v \<noteq> 0 then clean_existing uo v stacks else Some stacks) of
         None \<Rightarrow> None
       | Some stacks \<Rightarrow> (case map_of stacks uo of
           None \<Rightarrow> None
         | Some vc \<Rightarrow> Some (
             AList.update uo \<lparr>vc_value = vc_value vc + value, vc_count = vc_count vc + 1\<rparr> stacks,
             AList.update address \<lparr>va_value = value, va_unique_stack = Some uo\<rparr> address_map,
             if va_value v \<noteq> 0 then existing + 1 else existing, True)))"

section \<open>Operations on all watchers and processes\<close>

definition pid_stacks :: "LiveAllocation \<Rightarrow> nat \<Rightarrow> pid_t \<Rightarrow> PidStacks" where
  "pid_stacks la pos pid = umap_at init_PidStacks (access_resize (la_watcher_vector la) pos [] ! pos) pid"

definition set_pid_stacks :: "LiveAllocation \<Rightarrow> nat \<Rightarrow> pid_t \<Rightarrow> PidStacks \<Rightarrow> LiveAllocation" where
  "set_pid_stacks la pos pid ps = (let v = access_resize (la_watcher_vector la) pos [] in
     la\<lparr>la_watcher_vector := v[pos := AList.update pid ps (v ! pos)]\<rparr>)"

definition register_library_state :: "LiveAllocation \<Rightarrow> nat \<Rightarrow> pid_t \<Rightarrow> u32 \<Rightarrow> u32 \<Rightarrow> LiveAllocation" where
  "register_library_state la pos pid conflicts tracked_count = set_pid_stacks la pos pid
     ((pid_stacks la pos pid)\<lparr>ps_address_conflict_count := conflicts, ps_tracked_address_count := tracked_count\<rparr>)"

definition register_allocation :: "LiveAllocation \<Rightarrow> UnwindOutput \<Rightarrow> u64 \<Rightarrow> u64 \<Rightarrow> nat \<Rightarrow> pid_t \<Rightarrow> LiveAllocation option" where
  "register_allocation la uo addr sz pos pid = (let ps = pid_stacks la pos pid in
     case enregister uo addr sz (ps_unique_stacks ps) (ps_address_map ps) (la_already_existing_allocations la) of
       None \<Rightarrow> None
     | Some (stacks, address_map, existing, _) \<Rightarrow> Some
         ((set_pid_stacks la pos pid (ps\<lparr>ps_unique_stacks := stacks, ps_address_map := address_map\<rparr>))
           \<lparr>la_already_existing_allocations := existing\<rparr>))"

definition register_deallocation :: "LiveAllocation \<Rightarrow> u64 \<Rightarrow> nat \<Rightarrow> pid_t \<Rightarrow> LiveAllocation option" where
  "register_deallocation la addr pos pid = (let ps = pid_stacks la pos pid in
     case deregister addr (ps_unique_stacks ps) (ps_address_map ps) of
       None \<Rightarrow> None
     | Some (stacks, address_map, found) \<Rightarrow>
         let la = set_pid_stacks la pos pid (ps\<lparr>ps_unique_stacks := stacks, ps_address_map := address_map\<rparr>)
         in Some (if found then la else la\<lparr>la_unmatched_deallocations := la_unmatched_deallocations la + 1\<rparr>))"

definition clear_pid_for_watcher :: "LiveAllocation \<Rightarrow> nat \<Rightarrow> pid_t \<Rightarrow> LiveAllocation" where
  "clear_pid_for_watcher la pos pid = (let v = access_resize (la_watcher_vector la) pos [] in
     la\<lparr>la_watcher_vector := v[pos := AList.delete pid (v ! pos)]\<rparr>)"

definition clear_pid :: "LiveAllocation \<Rightarrow> pid_t \<Rightarrow> LiveAllocation" where
  "clear_pid la pid = la\<lparr>la_watcher_vector := map (AList.delete pid) (la_watcher_vector la)\<rparr>"

definition la_cycle :: "LiveAllocation \<Rightarrow> LiveAllocation" where
  "la_cycle la = la\<lparr>la_unmatched_deallocations := 0, la_already_existing_allocations := 0\<rparr>"

section \<open>Histories\<close>

datatype live_op =
    Allocate UnwindOutput u64 u64 nat pid_t
  | Deallocate u64 nat pid_t
  | LibraryState nat pid_t u32 u32
  | ClearPidForWatcher nat pid_t
  | ClearPid pid_t
  | CycleStats

fun live_apply :: "LiveAllocation \<Rightarrow> live_op \<Rightarrow> LiveAllocation option" where
  "live_apply la (Allocate uo addr sz pos pid) = register_allocation la uo addr sz pos pid"
| "live_apply la (Deallocate addr pos pid) = register_deallocation la addr pos pid"
| "live_apply la (LibraryState pos pid conflicts n) = Some (register_library_state la pos pid conflicts n)"
| "live_apply la (ClearPidForWatcher pos pid) = Some (clear_pid_for_watcher la pos pid)"
| "live_apply la (ClearPid pid) = Some (clear_pid la pid)"
| "live_apply la CycleStats = Some (la_cycle la)"

fun live_run :: "LiveAllocation \<Rightarrow> live_op list \<Rightarrow> LiveAllocation option" where
  "live_run la [] = Some la"
| "live_run la (x # xs) = (case live_apply la x of None \<Rightarrow> None | Some la \<Rightarrow> live_run la xs)"

text \<open>
  The specification: per watcher and process the live addresses with their stack and value, and
  the two counters.
\<close>

type_synonym live_map = "u64 \<rightharpoonup> UnwindOutput \<times> u64"

record live_spec =
  sp_live :: "nat \<Rightarrow> pid_t \<Rightarrow> live_map"
  sp_unmatched :: u32
  sp_existing :: u32

definition spec_update :: "live_spec \<Rightarrow> nat \<Rightarrow> pid_t \<Rightarrow> live_map \<Rightarrow> live_spec" where
  "spec_update sp pos pid m = sp\<lparr>sp_live := (sp_live sp)(pos := (sp_live sp pos)(pid := m))\<rparr>"

fun spec_apply :: "live_spec \<Rightarrow> live_op \<Rightarrow> live_spec" where
  "spec_apply sp (Allocate uo addr sz pos pid) = (
     if uo_locs uo = [] then sp
     else (spec_update sp pos pid ((sp_live sp pos pid)(addr \<mapsto> (uo, sz))))
       \<lparr>sp_existing := sp_existing sp + of_bool (addr \<in> dom (sp_live sp pos pid))\<rparr>)"
| "spec_apply sp (Deallocate addr pos pid) = (spec_update sp pos pid ((sp_live sp pos pid)(addr := None)))
     \<lparr>sp_unmatched := sp_unmatched sp + of_bool (addr \<notin> dom (sp_live sp pos pid))\<rparr>"
| "spec_apply sp (LibraryState pos pid conflicts n) = sp"
| "spec_apply sp (ClearPidForWatcher pos pid) = spec_update sp pos pid Map.empty"
| "spec_apply sp (ClearPid pid) = sp\<lparr>sp_live := \<lambda>pos. (sp_live sp pos)(pid := Map.empty)\<rparr>"
| "spec_apply sp CycleStats = sp\<lparr>sp_unmatched := 0, sp_existing := 0\<rparr>"

definition spec_init :: live_spec where
  "spec_init = \<lparr>sp_live = \<lambda>_ _. Map.empty, sp_unmatched = 0, sp_existing = 0\<rparr>"

text \<open>The addresses of a stack, and what the table of stacks should hold for it.\<close>

definition addresses_of :: "live_map \<Rightarrow> UnwindOutput \<Rightarrow> u64 set" where
  "addresses_of m k = {a. \<exists>v. m a = Some (k, v)}"

definition stack_total :: "live_map \<Rightarrow> UnwindOutput \<Rightarrow> ValueAndCount" where
  "stack_total m k = \<lparr>vc_value = (\<Sum>a\<in>addresses_of m k. snd (the (m a))), vc_count = of_nat (card (addresses_of m k))\<rparr>"

definition live_ok :: "live_map \<Rightarrow> bool" where
  "live_ok m \<longleftrightarrow> m 0 = None \<and> (\<forall>a k v. m a = Some (k, v) \<longrightarrow> v \<noteq> 0)"

definition live_rel :: "live_map \<Rightarrow> PidStacks \<Rightarrow> bool" where
  "live_rel m ps \<longleftrightarrow>
     (\<forall>a. map_of (ps_address_map ps) a = map_option (\<lambda>(k, v). \<lparr>va_value = v, va_unique_stack = Some k\<rparr>) (m a)) \<and>
     (\<forall>k. map_of (ps_unique_stacks ps) k = (if addresses_of m k = {} then None else Some (stack_total m k)))"

fun op_ok :: "live_op \<Rightarrow> bool" where
  "op_ok (Allocate uo addr sz pos pid) = (addr \<noteq> 0 \<and> sz \<noteq> 0)"
| "op_ok _ = True"

section \<open>Stacks of a map that changes at one address\<close>

lemma finite_addresses [simp]: "finite (addresses_of m k)"
  by (rule finite_subset[of _ UNIV]) auto

lemma addresses_of_upd:
  "addresses_of (m(a \<mapsto> (k', v))) k = (if k = k' then insert a (addresses_of m k) else addresses_of m k - {a})"
  by (auto simp: addresses_of_def)

lemma addresses_of_del: "addresses_of (m(a := None)) k = addresses_of m k - {a}"
  by (auto simp: addresses_of_def)

lemma stack_total_cong:
  "addresses_of m k = addresses_of m' k \<Longrightarrow> (\<And>a. a \<in> addresses_of m k \<Longrightarrow> m a = m' a) \<Longrightarrow> stack_total m k = stack_total m' k"
  by (auto simp: stack_total_def intro!: sum.cong)

lemma card_addresses:
  assumes "live_ok m"
  shows "card (addresses_of m k) < 2 ^ 64"
proof -
  have "addresses_of m k \<subseteq> UNIV - {0}" using assms by (auto simp: addresses_of_def live_ok_def)
  then have "card (addresses_of m k) \<le> card (UNIV - {0 :: u64})" by (intro card_mono) auto
  also have "\<dots> < 2 ^ 64" by (simp add: card_word)
  finally show ?thesis .
qed

lemma count_zero_iff: "live_ok m \<Longrightarrow> vc_count (stack_total m k) = 0 \<longleftrightarrow> addresses_of m k = {}"
  using card_addresses[of m k] by (auto simp: stack_total_def word_of_nat_eq_0_iff card_gt_0_iff dest!: nat_dvd_not_less[rotated])

lemma stack_total_insert:
  assumes "m a = None"
  shows "stack_total (m(a \<mapsto> (k, v))) k = \<lparr>vc_value = vc_value (stack_total m k) + v, vc_count = vc_count (stack_total m k) + 1\<rparr>"
proof -
  have a: "a \<notin> addresses_of m k" using assms by (simp add: addresses_of_def)
  have "(\<Sum>x\<in>addresses_of m k. snd (the ((m(a \<mapsto> (k, v))) x))) = (\<Sum>x\<in>addresses_of m k. snd (the (m x)))"
    using a by (intro sum.cong) auto
  then show ?thesis using a by (simp add: stack_total_def addresses_of_upd add.commute)
qed

lemma stack_total_remove:
  assumes "m a = Some (k, v)" "live_ok m"
  shows "stack_decrement (stack_total m k) v = stack_total (m(a := None)) k"
proof -
  have a: "a \<in> addresses_of m k" using assms by (simp add: addresses_of_def)
  then have "vc_count (stack_total m k) \<noteq> 0" using count_zero_iff[OF assms(2), of k] by auto
  moreover have "(\<Sum>x\<in>addresses_of m k. snd (the (m x))) = v + (\<Sum>x\<in>addresses_of m k - {a}. snd (the (m x)))"
    using a assms(1) by (subst sum.remove[of _ a]) auto
  moreover have "(\<Sum>x\<in>addresses_of m k - {a}. snd (the ((m(a := None)) x))) = (\<Sum>x\<in>addresses_of m k - {a}. snd (the (m x)))"
    by (intro sum.cong) auto
  moreover have "of_nat (card (addresses_of m k)) = (of_nat (card (addresses_of m k - {a})) :: u64) + 1"
    using card.remove[OF finite_addresses a] by simp
  ultimately show ?thesis by (simp add: stack_decrement_def stack_total_def addresses_of_del Let_def)
qed

section \<open>One process\<close>

lemma live_relD:
  assumes "live_rel m ps"
  shows "map_of (ps_address_map ps) a = map_option (\<lambda>(k, v). \<lparr>va_value = v, va_unique_stack = Some k\<rparr>) (m a)"
    and "map_of (ps_unique_stacks ps) k = (if addresses_of m k = {} then None else Some (stack_total m k))"
  using assms by (auto simp: live_rel_def)

lemma deregister_rel:
  assumes rel: "live_rel m ps" and ok: "live_ok m"
  shows "\<exists>stacks am. deregister a (ps_unique_stacks ps) (ps_address_map ps) = Some (stacks, am, a \<in> dom m) \<and>
    live_rel (m(a := None)) (ps\<lparr>ps_unique_stacks := stacks, ps_address_map := am\<rparr>)"
proof (cases "m a")
  case None
  then have "m(a := None) = m" by auto
  with None rel show ?thesis by (auto simp: deregister_def live_relD[OF rel])
next
  case (Some kv)
  obtain k v where kv: "m a = Some (k, v)" using Some by (cases kv) auto
  let ?m = "m(a := None)"
  have ne: "addresses_of m k \<noteq> {}" using kv by (auto simp: addresses_of_def)
  have ok': "live_ok ?m" using ok by (auto simp: live_ok_def)
  have other: "stack_total ?m k' = stack_total m k'" "addresses_of ?m k' = addresses_of m k'" if "k' \<noteq> k" for k'
  proof -
    show "addresses_of ?m k' = addresses_of m k'" using kv that by (auto simp: addresses_of_def)
    then show "stack_total ?m k' = stack_total m k'" using kv that by (intro stack_total_cong) (auto simp: addresses_of_def)
  qed
  show ?thesis using kv ne rel stack_total_remove[OF kv ok] count_zero_iff[OF ok', of k] other
    by (auto simp: deregister_def live_relD[OF rel] live_rel_def Let_def)
qed

lemma enregister_rel:
  assumes rel: "live_rel m ps" and ok: "live_ok m" and locs: "uo_locs uo \<noteq> []" and av: "a \<noteq> 0" "v \<noteq> 0"
  shows "\<exists>stacks am. enregister uo a v (ps_unique_stacks ps) (ps_address_map ps) n = Some (stacks, am, n + of_bool (a \<in> dom m), True) \<and>
    live_rel (m(a \<mapsto> (uo, v))) (ps\<lparr>ps_unique_stacks := stacks, ps_address_map := am\<rparr>)"
proof -
  define m0 where "m0 = m(a := None)"
  define st where "st = (if map_of (ps_unique_stacks ps) uo = None
    then AList.update uo \<lparr>vc_value = 0, vc_count = 0\<rparr> (ps_unique_stacks ps) else ps_unique_stacks ps)"
  let ?v = "umap_at \<lparr>va_value = 0, va_unique_stack = None\<rparr> (ps_address_map ps) a"
  have ok0: "live_ok m0" using ok by (auto simp: live_ok_def m0_def)
  have st: "map_of st k = (if addresses_of m k = {} \<and> k \<noteq> uo then None else Some (stack_total m k))" for k
    by (simp add: st_def live_relD(2)[OF rel] stack_total_def)
  obtain st' where st': "(if va_value ?v \<noteq> 0 then clean_existing uo ?v st else Some st) = Some st'"
    "\<And>k. map_of st' k = (if addresses_of m0 k = {} \<and> k \<noteq> uo then None else Some (stack_total m0 k))"
    and ex: "va_value ?v \<noteq> 0 \<longleftrightarrow> a \<in> dom m"
  proof (cases "m a")
    case None
    then have "m0 = m" "va_value ?v = 0" by (auto simp: m0_def umap_at_def live_relD[OF rel])
    then show ?thesis using None by (intro that[of st]) (simp_all add: st dom_def)
  next
    case (Some kv)
    obtain k w where kv: "m a = Some (k, w)" using Some by (cases kv) auto
    then have w: "w \<noteq> 0" and v': "?v = \<lparr>va_value = w, va_unique_stack = Some k\<rparr>"
      using ok by (auto simp: live_ok_def umap_at_def live_relD[OF rel])
    have other: "stack_total m0 k' = stack_total m k'" "addresses_of m0 k' = addresses_of m k'" if "k' \<noteq> k" for k'
    proof -
      show "addresses_of m0 k' = addresses_of m k'" using kv that by (auto simp: addresses_of_def m0_def)
      then show "stack_total m0 k' = stack_total m k'" using kv that by (intro stack_total_cong) (auto simp: addresses_of_def m0_def)
    qed
    have ne: "addresses_of m k \<noteq> {}" using kv by (auto simp: addresses_of_def)
    have dec: "stack_decrement (stack_total m k) w = stack_total m0 k" using stack_total_remove[OF kv ok] by (simp add: m0_def)
    let ?st = "if k \<noteq> uo \<and> vc_count (stack_total m0 k) = 0 then AList.delete k st else AList.update k (stack_total m0 k) st"
    have "clean_existing uo ?v st = Some ?st" using v' ne by (simp add: clean_existing_def st dec)
    moreover have "map_of ?st k' = (if addresses_of m0 k' = {} \<and> k' \<noteq> uo then None else Some (stack_total m0 k'))" for k'
      using count_zero_iff[OF ok0, of k] other[of k'] by (cases "k' = k") (simp_all add: st)
    ultimately show ?thesis using w v' kv by (intro that[of ?st]) (simp_all add: dom_def)
  qed
  have m0a: "m0 a = None" "m(a \<mapsto> (uo, v)) = m0(a \<mapsto> (uo, v))" by (auto simp: m0_def)
  have other: "stack_total (m0(a \<mapsto> (uo, v))) k = stack_total m0 k" "addresses_of (m0(a \<mapsto> (uo, v))) k = addresses_of m0 k" if "k \<noteq> uo" for k
  proof -
    show "addresses_of (m0(a \<mapsto> (uo, v))) k = addresses_of m0 k" using m0a(1) that by (auto simp: addresses_of_def)
    then show "stack_total (m0(a \<mapsto> (uo, v))) k = stack_total m0 k" using m0a(1) that by (intro stack_total_cong) (auto simp: addresses_of_def)
  qed
  define stacks where "stacks = AList.update uo \<lparr>vc_value = vc_value (stack_total m0 uo) + v, vc_count = vc_count (stack_total m0 uo) + 1\<rparr> st'"
  define am where "am = AList.update a \<lparr>va_value = v, va_unique_stack = Some uo\<rparr> (ps_address_map ps)"
  have "map_of stacks k = (if addresses_of (m0(a \<mapsto> (uo, v))) k = {} then None else Some (stack_total (m0(a \<mapsto> (uo, v))) k))" for k
  proof (cases "k = uo")
    case True
    then show ?thesis using stack_total_insert[of m0 a uo v] m0a(1) by (simp add: addresses_of_upd stacks_def)
  next
    case False
    then show ?thesis using st'(2)[of k] other[OF False] by (simp add: stacks_def)
  qed
  moreover have "map_of am x = map_option (\<lambda>(k, v). \<lparr>va_value = v, va_unique_stack = Some k\<rparr>) ((m0(a \<mapsto> (uo, v))) x)" for x
    by (simp add: live_relD[OF rel] m0_def am_def)
  ultimately have "live_rel (m0(a \<mapsto> (uo, v))) (ps\<lparr>ps_unique_stacks := stacks, ps_address_map := am\<rparr>)"
    by (simp add: live_rel_def)
  moreover have "enregister uo a v (ps_unique_stacks ps) (ps_address_map ps) n = Some (stacks, am, n + of_bool (a \<in> dom m), True)"
    unfolding enregister_def Let_def st_def[symmetric] st'(1) using locs ex st'(2)[of uo] by (simp add: stacks_def am_def)
  ultimately show ?thesis unfolding m0a(2) by blast
qed

section \<open>All processes\<close>

lemma nth_access_resize: "pos < length (access_resize v pos d)"
  by (auto simp: access_resize_def)

lemma pid_stacks_set [simp]:
  "pid_stacks (set_pid_stacks la pos pid ps) pos' pid' = (if pos' = pos \<and> pid' = pid then ps else pid_stacks la pos' pid')"
  by (auto simp: pid_stacks_def set_pid_stacks_def access_resize_def Let_def nth_append nth_list_update umap_at_def)

lemma pid_stacks_clear_watcher:
  "pid_stacks (clear_pid_for_watcher la pos pid) pos' pid' = (if pos' = pos \<and> pid' = pid then init_PidStacks else pid_stacks la pos' pid')"
  by (auto simp: pid_stacks_def clear_pid_for_watcher_def access_resize_def Let_def nth_append nth_list_update)

lemma pid_stacks_clear:
  "pid_stacks (clear_pid la pid) pos pid' = (if pid' = pid then init_PidStacks else pid_stacks la pos pid')"
  by (auto simp: pid_stacks_def clear_pid_def access_resize_def nth_append)

lemma pid_stacks_stats [simp]:
  "pid_stacks (la\<lparr>la_unmatched_deallocations := x\<rparr>) = pid_stacks la"
  "pid_stacks (la\<lparr>la_already_existing_allocations := x\<rparr>) = pid_stacks la"
  "la_unmatched_deallocations (set_pid_stacks la pos pid ps) = la_unmatched_deallocations la"
  "la_already_existing_allocations (set_pid_stacks la pos pid ps) = la_already_existing_allocations la"
  by (auto simp: pid_stacks_def set_pid_stacks_def Let_def fun_eq_iff)

definition live_sim :: "live_spec \<Rightarrow> LiveAllocation \<Rightarrow> bool" where
  "live_sim sp la \<longleftrightarrow> (\<forall>pos pid. live_ok (sp_live sp pos pid) \<and> live_rel (sp_live sp pos pid) (pid_stacks la pos pid)) \<and>
     sp_unmatched sp = la_unmatched_deallocations la \<and> sp_existing sp = la_already_existing_allocations la"

lemma live_rel_init [simp]: "live_rel Map.empty init_PidStacks" "live_ok Map.empty"
  by (auto simp: live_rel_def init_PidStacks_def addresses_of_def live_ok_def)

lemma live_ok_upd: "live_ok m \<Longrightarrow> a \<noteq> 0 \<Longrightarrow> v \<noteq> 0 \<Longrightarrow> live_ok (m(a \<mapsto> (k, v)))" "live_ok m \<Longrightarrow> live_ok (m(a := None))"
  by (auto simp: live_ok_def)

lemma live_apply_sim:
  assumes sim: "live_sim sp la" and ok: "op_ok x"
  shows "\<exists>la'. live_apply la x = Some la' \<and> live_sim (spec_apply sp x) la'"
proof (cases x)
  case (Allocate uo a v pos pid)
  have r: "live_rel (sp_live sp pos pid) (pid_stacks la pos pid)" "live_ok (sp_live sp pos pid)" using sim by (auto simp: live_sim_def)
  show ?thesis
  proof (cases "uo_locs uo = []")
    case True
    then show ?thesis using Allocate sim by (auto simp: register_allocation_def enregister_def Let_def live_sim_def)
  next
    case False
    with enregister_rel[OF r False, of a v "la_already_existing_allocations la"] ok Allocate sim show ?thesis
      by (auto simp: register_allocation_def Let_def live_sim_def spec_update_def live_ok_upd)
  qed
next
  case (Deallocate a pos pid)
  have r: "live_rel (sp_live sp pos pid) (pid_stacks la pos pid)" "live_ok (sp_live sp pos pid)" using sim by (auto simp: live_sim_def)
  from deregister_rel[OF r, of a] Deallocate sim show ?thesis
    by (cases "a \<in> dom (sp_live sp pos pid)") (auto simp: register_deallocation_def Let_def live_sim_def spec_update_def live_ok_upd)
next
  case (LibraryState pos pid c n)
  then show ?thesis using sim by (auto simp: register_library_state_def live_sim_def live_rel_def)
next
  case (ClearPidForWatcher pos pid)
  moreover have "la_unmatched_deallocations (clear_pid_for_watcher la pos pid) = la_unmatched_deallocations la"
    "la_already_existing_allocations (clear_pid_for_watcher la pos pid) = la_already_existing_allocations la"
    by (auto simp: clear_pid_for_watcher_def Let_def)
  ultimately show ?thesis using sim by (auto simp: live_sim_def spec_update_def pid_stacks_clear_watcher)
next
  case (ClearPid pid)
  moreover have "la_unmatched_deallocations (clear_pid la pid) = la_unmatched_deallocations la"
    "la_already_existing_allocations (clear_pid la pid) = la_already_existing_allocations la"
    by (auto simp: clear_pid_def)
  ultimately show ?thesis using sim by (auto simp: live_sim_def pid_stacks_clear)
next
  case CycleStats
  then show ?thesis using sim by (auto simp: live_sim_def la_cycle_def pid_stacks_def)
qed

lemma live_run_sim:
  "live_sim sp la \<Longrightarrow> \<forall>x\<in>set xs. op_ok x \<Longrightarrow> \<exists>la'. live_run la xs = Some la' \<and> live_sim (foldl spec_apply sp xs) la'"
proof (induction xs arbitrary: sp la)
  case (Cons x xs)
  from live_apply_sim[OF Cons.prems(1)] Cons.prems(2) obtain la1 where la1: "live_apply la x = Some la1" "live_sim (spec_apply sp x) la1"
    by auto
  then show ?case using Cons.IH[OF la1(2)] Cons.prems(2) by auto
qed auto

lemma live_sim_init: "live_sim spec_init init_LiveAllocation"
  by (simp add: live_sim_def spec_init_def init_LiveAllocation_def pid_stacks_def access_resize_def del: replicate_Suc)

section \<open>Properties\<close>

text \<open>C12. For every history of allocations and deallocations, library states, clearings and
  cycles, in which allocations have a non-null address and a non-zero value, no operation uses an
  erased stack; the address map holds exactly the live addresses with their value; the table of
  stacks holds exactly the stacks of live addresses, each with the number of its addresses and the
  sum of their values; and the counters are the numbers of deallocations of unknown addresses and of
  allocations over a live one since the last cycle.\<close>

theorem live_allocation_refines:
  assumes "\<forall>x\<in>set xs. op_ok x"
  shows "\<exists>la. live_run init_LiveAllocation xs = Some la \<and>
    (\<forall>pos pid. live_rel (sp_live (foldl spec_apply spec_init xs) pos pid) (pid_stacks la pos pid)) \<and>
    la_unmatched_deallocations la = sp_unmatched (foldl spec_apply spec_init xs) \<and>
    la_already_existing_allocations la = sp_existing (foldl spec_apply spec_init xs)"
  using live_run_sim[OF live_sim_init assms] by (auto simp: live_sim_def)

definition stack_A :: UnwindOutput where
  "stack_A = \<lparr>uo_locs = [\<lparr>fl_ip = 16, fl_elf_addr = 0, fl_file_info_id = 0, fl_symbol_idx = 0, fl_map_info_idx = 0\<rparr>],
     uo_container_id = [], uo_exe_name = [], uo_thread_name = [], uo_pid = 1, uo_tid = 1\<rparr>"

theorem live_allocation_refines_witness:
  "\<exists>la. live_run init_LiveAllocation [Allocate stack_A 32 8 0 1, Allocate stack_A 64 8 0 1, Deallocate 32 0 1] = Some la \<and>
    map_of (ps_unique_stacks (pid_stacks la 0 1)) stack_A = Some \<lparr>vc_value = 8, vc_count = 1\<rparr>"
proof -
  let ?xs = "[Allocate stack_A 32 8 0 1, Allocate stack_A 64 8 0 1, Deallocate 32 0 1]"
  have m: "sp_live (foldl spec_apply spec_init ?xs) 0 1 = [64 \<mapsto> (stack_A, 8)]"
    by (auto simp: spec_init_def spec_update_def stack_A_def)
  have a: "addresses_of [64 \<mapsto> (stack_A, 8)] stack_A = {64}" by (auto simp: addresses_of_def)
  have t: "stack_total [64 \<mapsto> (stack_A, 8)] stack_A = \<lparr>vc_value = 8, vc_count = 1\<rparr>" by (simp add: stack_total_def a)
  obtain la where "live_run init_LiveAllocation ?xs = Some la"
    "live_rel (sp_live (foldl spec_apply spec_init ?xs) 0 1) (pid_stacks la 0 1)"
    using live_allocation_refines[of ?xs] by auto
  then show ?thesis unfolding m using a t by (auto simp: live_rel_def)
qed


end
