(* ===== verification/Perf_Sample.thy ===== *)
theory Perf_Sample
  imports Ring_Mem "HOL-Library.Monad_Syntax"
begin

text \<open>
  Records of the perf ABI (\<^verbatim>\<open>perf_ringbuffer.cc\<close>, \<^verbatim>\<open>perf.hpp\<close>, \<^verbatim>\<open>ddprof_perf_event.hpp\<close>): decoding
  a sample, encoding one, and the time of a record. A record is its bytes, header included; a
  pointer into a record is the bytes from there on. \<^term>\<open>None\<close> is an access outside the bytes.
\<close>

section \<open>Constants of the ABI\<close>

definition PERF_SAMPLE_IP :: u64 where "PERF_SAMPLE_IP = 2 ^ 0"

definition PERF_SAMPLE_TID :: u64 where "PERF_SAMPLE_TID = 2 ^ 1"

definition PERF_SAMPLE_TIME :: u64 where "PERF_SAMPLE_TIME = 2 ^ 2"

definition PERF_SAMPLE_ADDR :: u64 where "PERF_SAMPLE_ADDR = 2 ^ 3"

definition PERF_SAMPLE_READ :: u64 where "PERF_SAMPLE_READ = 2 ^ 4"

definition PERF_SAMPLE_CALLCHAIN :: u64 where "PERF_SAMPLE_CALLCHAIN = 2 ^ 5"

definition PERF_SAMPLE_ID :: u64 where "PERF_SAMPLE_ID = 2 ^ 6"

definition PERF_SAMPLE_CPU :: u64 where "PERF_SAMPLE_CPU = 2 ^ 7"

definition PERF_SAMPLE_PERIOD :: u64 where "PERF_SAMPLE_PERIOD = 2 ^ 8"

definition PERF_SAMPLE_STREAM_ID :: u64 where "PERF_SAMPLE_STREAM_ID = 2 ^ 9"

definition PERF_SAMPLE_RAW :: u64 where "PERF_SAMPLE_RAW = 2 ^ 10"

definition PERF_SAMPLE_REGS_USER :: u64 where "PERF_SAMPLE_REGS_USER = 2 ^ 12"

definition PERF_SAMPLE_STACK_USER :: u64 where "PERF_SAMPLE_STACK_USER = 2 ^ 13"

definition PERF_SAMPLE_IDENTIFIER :: u64 where "PERF_SAMPLE_IDENTIFIER = 2 ^ 16"

lemmas perf_sample_bits = PERF_SAMPLE_IP_def PERF_SAMPLE_TID_def PERF_SAMPLE_TIME_def PERF_SAMPLE_ADDR_def
  PERF_SAMPLE_READ_def PERF_SAMPLE_CALLCHAIN_def PERF_SAMPLE_ID_def PERF_SAMPLE_CPU_def PERF_SAMPLE_PERIOD_def
  PERF_SAMPLE_STREAM_ID_def PERF_SAMPLE_RAW_def PERF_SAMPLE_REGS_USER_def PERF_SAMPLE_STACK_USER_def
  PERF_SAMPLE_IDENTIFIER_def

definition PERF_RECORD_MMAP :: u32 where "PERF_RECORD_MMAP = 1"

definition PERF_RECORD_LOST :: u32 where "PERF_RECORD_LOST = 2"

definition PERF_RECORD_COMM :: u32 where "PERF_RECORD_COMM = 3"

definition PERF_RECORD_EXIT :: u32 where "PERF_RECORD_EXIT = 4"

definition PERF_RECORD_FORK :: u32 where "PERF_RECORD_FORK = 7"

definition PERF_RECORD_SAMPLE :: u32 where "PERF_RECORD_SAMPLE = 9"

definition PERF_RECORD_MMAP2 :: u32 where "PERF_RECORD_MMAP2 = 10"

definition PERF_CUSTOM_EVENT_DEALLOCATION :: u32 where "PERF_CUSTOM_EVENT_DEALLOCATION = 1000"

definition PERF_CUSTOM_EVENT_CLEAR_LIVE_ALLOCATION :: u32 where "PERF_CUSTOM_EVENT_CLEAR_LIVE_ALLOCATION = 1001"

definition PERF_CUSTOM_EVENT_ALLOCATION_TRACKER_STATE :: u32 where "PERF_CUSTOM_EVENT_ALLOCATION_TRACKER_STATE = 1002"

lemmas perf_record_types = PERF_RECORD_MMAP_def PERF_RECORD_LOST_def PERF_RECORD_COMM_def PERF_RECORD_EXIT_def
  PERF_RECORD_FORK_def PERF_RECORD_SAMPLE_def PERF_RECORD_MMAP2_def PERF_CUSTOM_EVENT_DEALLOCATION_def
  PERF_CUSTOM_EVENT_CLEAR_LIVE_ALLOCATION_def PERF_CUSTOM_EVENT_ALLOCATION_TRACKER_STATE_def

definition PERF_SAMPLE_REGS_ABI_64 :: u64 where "PERF_SAMPLE_REGS_ABI_64 = 2"

text \<open>The number of registers in a sample on x86-64.\<close>

definition k_perf_register_count :: nat where "k_perf_register_count = 20"

section \<open>Data\<close>

record perf_event_header =
  ph_type :: u32
  ph_misc :: u16
  ph_size :: u16

record perf_event_sample =
  s_header :: perf_event_header
  s_sample_id :: u64
  s_ip :: u64
  s_pid :: u32
  s_tid :: u32
  s_time :: u64
  s_addr :: u64
  s_id :: u64
  s_stream_id :: u64
  s_cpu :: u32
  s_res :: u32
  s_period :: u64
  s_v :: "u8 list"
  s_nr :: u64
  s_ips :: "u8 list"
  s_size_raw :: u32
  s_data_raw :: "u8 list option"
  s_abi :: u64
  s_regs :: "u8 list"
  s_size_stack :: u64
  s_data_stack :: "u8 list option"
  s_dyn_size_stack :: u64

section \<open>Memory\<close>

definition ld :: "nat \<Rightarrow> u8 list \<Rightarrow> nat \<Rightarrow> nat option" where
  "ld n mem off = (if off + n \<le> length mem then Some (le_nat (take n (drop off mem))) else None)"

definition ld64 :: "u8 list \<Rightarrow> nat \<Rightarrow> u64 option" where
  "ld64 mem off = map_option of_nat (ld 8 mem off)"

definition ld32 :: "u8 list \<Rightarrow> nat \<Rightarrow> u32 option" where
  "ld32 mem off = map_option of_nat (ld 4 mem off)"

definition st :: "u8 list \<Rightarrow> nat \<Rightarrow> u8 list \<Rightarrow> u8 list option" where
  "st mem off bs = (if off + length bs \<le> length mem then Some (take off mem @ bs @ drop (off + length bs) mem) else None)"

definition ld_header :: "u8 list \<Rightarrow> perf_event_header option" where
  "ld_header mem = (if 8 \<le> length mem
     then Some \<lparr>ph_type = of_nat (le_nat (take 4 mem)), ph_misc = of_nat (le_nat (take 2 (drop 4 mem))),
                ph_size = of_nat (le_nat (take 2 (drop 6 mem)))\<rparr>
     else None)"

definition header_bytes :: "perf_event_header \<Rightarrow> u8 list" where
  "header_bytes h = le_bytes 4 (unat (ph_type h)) @ le_bytes 2 (unat (ph_misc h)) @ le_bytes 2 (unat (ph_size h))"

text \<open>The two halves of an 8-byte block, the first one in the low bytes.\<close>

definition half0 :: "u64 \<Rightarrow> u32" where "half0 w = ucast w"

definition half1 :: "u64 \<Rightarrow> u32" where "half1 w = ucast (drop_bit 32 w)"

definition halves :: "u32 \<Rightarrow> u32 \<Rightarrow> u64" where "halves a b = ucast a OR push_bit 32 (ucast b)"

section \<open>Decoding a sample\<close>

text \<open>One 8-byte field, present when its bit is in the mask.\<close>

definition get_field :: "u8 list \<Rightarrow> u64 \<Rightarrow> u64 \<Rightarrow> (u64 \<Rightarrow> 's \<Rightarrow> 's) \<Rightarrow> 's \<times> nat \<Rightarrow> ('s \<times> nat) option" where
  "get_field mem mask' c upd = (\<lambda>(s, buf).
     if c AND mask' \<noteq> 0 then map_option (\<lambda>w. (upd w s, buf + 8)) (ld64 mem buf) else Some (s, buf))"

definition get_read :: "u8 list \<Rightarrow> u64 \<Rightarrow> perf_event_sample \<times> nat \<Rightarrow> (perf_event_sample \<times> nat) option" where
  "get_read mem mask' = (\<lambda>(s, buf).
     if PERF_SAMPLE_READ AND mask' \<noteq> 0 then Some (s\<lparr>s_v := drop buf mem\<rparr>, buf + 8) else Some (s, buf))"

definition get_callchain :: "u8 list \<Rightarrow> u64 \<Rightarrow> perf_event_sample \<times> nat \<Rightarrow> (perf_event_sample \<times> nat) option" where
  "get_callchain mem mask' = (\<lambda>(s, buf).
     if PERF_SAMPLE_CALLCHAIN AND mask' \<noteq> 0
     then map_option (\<lambda>nr. (s\<lparr>s_nr := nr, s_ips := drop (buf + 8) mem\<rparr>, buf + 8 + 8 * unat nr)) (ld64 mem buf)
     else Some (s, buf))"

definition get_raw :: "u8 list \<Rightarrow> u64 \<Rightarrow> perf_event_sample \<times> nat \<Rightarrow> (perf_event_sample \<times> nat) option" where
  "get_raw mem mask' = (\<lambda>(s, buf).
     if PERF_SAMPLE_RAW AND mask' \<noteq> 0
     then map_option (\<lambda>n. (s\<lparr>s_size_raw := n, s_data_raw := if n \<noteq> 0 then Some (drop (buf + 4) mem) else None\<rparr>,
                           buf + 8 * (1 + unat n div 8))) (ld32 mem buf)
     else Some (s, buf))"

text \<open>The registers; the position is absent when the ABI is not the 64-bit one, where decoding stops.\<close>

definition get_regs :: "u8 list \<Rightarrow> u64 \<Rightarrow> perf_event_sample \<times> nat \<Rightarrow> (perf_event_sample \<times> nat option) option" where
  "get_regs mem mask' = (\<lambda>(s, buf).
     if PERF_SAMPLE_REGS_USER AND mask' \<noteq> 0
     then map_option (\<lambda>abi. let s = s\<lparr>s_abi := abi\<rparr> in
       if abi \<noteq> PERF_SAMPLE_REGS_ABI_64 then (s, None)
       else (s\<lparr>s_regs := drop (buf + 8) mem\<rparr>, Some (buf + 8 + 8 * k_perf_register_count))) (ld64 mem buf)
     else Some (s, Some buf))"

definition get_stack :: "u8 list \<Rightarrow> u64 \<Rightarrow> perf_event_sample \<times> nat \<Rightarrow> perf_event_sample option" where
  "get_stack mem mask' = (\<lambda>(s, buf).
     if PERF_SAMPLE_STACK_USER AND mask' \<noteq> 0 then do {
       size_stack \<leftarrow> ld64 mem buf;
       if size_stack = 0
       then Some (s\<lparr>s_size_stack := 0, s_dyn_size_stack := 0, s_data_stack := None\<rparr>)
       else do {
         dynsz_stack \<leftarrow> ld64 mem (buf + 8 + 8 * unat ((size_stack + 7) div 8));
         Some (s\<lparr>s_data_stack := Some (drop (buf + 8) mem),
                 s_size_stack := if size_stack < dynsz_stack then 0 else dynsz_stack,
                 s_dyn_size_stack := dynsz_stack\<rparr>)
       }
     } else Some s)"

text \<open>
  The static sample is an argument: fields that are not in the mask keep what an earlier call
  left there. The flag says whether the returned pointer is non-null.
\<close>

definition hdr2samp_fields :: "perf_event_sample \<Rightarrow> u8 list \<Rightarrow> u64 \<Rightarrow> (perf_event_sample \<times> nat) option" where
  "hdr2samp_fields s mem mask' = do {
     f \<leftarrow> get_field mem mask' PERF_SAMPLE_IDENTIFIER (\<lambda>w. s_sample_id_update (\<lambda>_. w)) (s, 8);
     f \<leftarrow> get_field mem mask' PERF_SAMPLE_IP (\<lambda>w. s_ip_update (\<lambda>_. w)) f;
     f \<leftarrow> get_field mem mask' PERF_SAMPLE_TID (\<lambda>w s. s\<lparr>s_pid := half0 w, s_tid := half1 w\<rparr>) f;
     f \<leftarrow> get_field mem mask' PERF_SAMPLE_TIME (\<lambda>w. s_time_update (\<lambda>_. w)) f;
     f \<leftarrow> get_field mem mask' PERF_SAMPLE_ADDR (\<lambda>w. s_addr_update (\<lambda>_. w)) f;
     f \<leftarrow> get_field mem mask' PERF_SAMPLE_ID (\<lambda>w. s_id_update (\<lambda>_. w)) f;
     f \<leftarrow> get_field mem mask' PERF_SAMPLE_STREAM_ID (\<lambda>w. s_stream_id_update (\<lambda>_. w)) f;
     f \<leftarrow> get_field mem mask' PERF_SAMPLE_CPU (\<lambda>w s. s\<lparr>s_cpu := half0 w, s_res := half1 w\<rparr>) f;
     get_field mem mask' PERF_SAMPLE_PERIOD (\<lambda>w. s_period_update (\<lambda>_. w)) f
   }"

definition hdr2samp :: "perf_event_sample \<Rightarrow> u8 list \<Rightarrow> u64 \<Rightarrow> (perf_event_sample \<times> bool) option" where
  "hdr2samp sample mem mask' = do {
     hdr \<leftarrow> ld_header mem;
     f \<leftarrow> hdr2samp_fields (sample\<lparr>s_header := hdr\<rparr>) mem mask';
     f \<leftarrow> get_read mem mask' f;
     f \<leftarrow> get_callchain mem mask' f;
     f \<leftarrow> get_raw mem mask' f;
     f \<leftarrow> get_regs mem mask' f;
     case snd f of
       None \<Rightarrow> Some (fst f, False)
     | Some b \<Rightarrow> map_option (\<lambda>s. (s, True)) (get_stack mem mask' (fst f, b))
   }"

section \<open>The time of a record\<close>

definition popcount :: "u64 \<Rightarrow> nat" where
  "popcount w = length (filter (bit w) [0..<64])"

definition hdr_time :: "u8 list \<Rightarrow> u64 \<Rightarrow> u64 option" where
  "hdr_time mem mask' = (
     if mask' AND PERF_SAMPLE_TIME = 0 then Some 0
     else do {
       hdr \<leftarrow> ld_header mem;
       if ph_type hdr = PERF_RECORD_SAMPLE then
         ld64 mem (8 + 8 * popcount (mask' AND (PERF_SAMPLE_IDENTIFIER OR PERF_SAMPLE_IP OR PERF_SAMPLE_TID)))
       else if ph_type hdr \<in> {PERF_RECORD_MMAP, PERF_RECORD_MMAP2, PERF_RECORD_COMM, PERF_RECORD_EXIT, PERF_RECORD_FORK, PERF_RECORD_LOST} then
         let nb_fields_after = popcount (mask' AND (PERF_SAMPLE_TIME OR PERF_SAMPLE_ID OR PERF_SAMPLE_STREAM_ID OR
               PERF_SAMPLE_CPU OR PERF_SAMPLE_IDENTIFIER))
         in if 8 * nb_fields_after \<le> unat (ph_size hdr) then ld64 mem (unat (ph_size hdr) - 8 * nb_fields_after) else None
       else if ph_type hdr \<in> {PERF_CUSTOM_EVENT_DEALLOCATION, PERF_CUSTOM_EVENT_CLEAR_LIVE_ALLOCATION,
               PERF_CUSTOM_EVENT_ALLOCATION_TRACKER_STATE} then ld64 mem 16
       else Some 0
     })"

section \<open>Encoding a sample\<close>

text \<open>
  The state is the memory, the position of the next field and the size so far. \<^term>\<open>Inl\<close> is an early
  \<^verbatim>\<open>return false\<close> with the memory as it is then.
\<close>

type_synonym enc = "u8 list + (u8 list \<times> nat \<times> u64)"

definition sz_check :: "u64 \<Rightarrow> u8 list \<Rightarrow> nat \<Rightarrow> u64 \<Rightarrow> enc" where
  "sz_check sz_hdr mem buf sz = (if sz_hdr \<le> sz then Inl mem else Inr (mem, buf, sz))"

definition and_then :: "enc option \<Rightarrow> (u8 list \<times> nat \<times> u64 \<Rightarrow> enc option) \<Rightarrow> enc option" where
  "and_then x f = (case x of Some (Inr e) \<Rightarrow> f e | _ \<Rightarrow> x)"

definition put_field :: "u64 \<Rightarrow> u64 \<Rightarrow> u64 \<Rightarrow> u64 \<Rightarrow> u8 list \<times> nat \<times> u64 \<Rightarrow> enc option" where
  "put_field sz_hdr mask' c w = (\<lambda>(mem, buf, sz).
     if c AND mask' \<noteq> 0 then map_option (\<lambda>mem. sz_check sz_hdr mem (buf + 8) (sz + 8)) (st mem buf (le_bytes 8 (unat w)))
     else Some (Inr (mem, buf, sz)))"

text \<open>The cpu is written without moving to the next block.\<close>

definition put_cpu :: "u64 \<Rightarrow> u64 \<Rightarrow> u64 \<Rightarrow> u8 list \<times> nat \<times> u64 \<Rightarrow> enc option" where
  "put_cpu sz_hdr mask' w = (\<lambda>(mem, buf, sz).
     if PERF_SAMPLE_CPU AND mask' \<noteq> 0 then map_option (\<lambda>mem. sz_check sz_hdr mem buf (sz + 8)) (st mem buf (le_bytes 8 (unat w)))
     else Some (Inr (mem, buf, sz)))"

text \<open>\<^verbatim>\<open>memcpy\<close> of \<open>n\<close> bytes, from a source that may be shorter.\<close>

definition memcpy :: "u8 list \<Rightarrow> nat \<Rightarrow> u8 list \<Rightarrow> nat \<Rightarrow> u8 list option" where
  "memcpy mem off src n = (if n \<le> length src then st mem off (take n src) else None)"

definition put_read :: "u64 \<Rightarrow> u64 \<Rightarrow> perf_event_sample \<Rightarrow> u8 list \<times> nat \<times> u64 \<Rightarrow> enc option" where
  "put_read sz_hdr mask' s = (\<lambda>(mem, buf, sz).
     if PERF_SAMPLE_READ AND mask' \<noteq> 0
     then map_option (\<lambda>mem. sz_check sz_hdr mem (buf + 24) (sz + 24)) (memcpy mem buf (s_v s) 24)
     else Some (Inr (mem, buf, sz)))"

definition put_callchain :: "u64 \<Rightarrow> u64 \<Rightarrow> perf_event_sample \<Rightarrow> u8 list \<times> nat \<times> u64 \<Rightarrow> enc option" where
  "put_callchain sz_hdr mask' s = (\<lambda>e.
     if PERF_SAMPLE_CALLCHAIN AND mask' \<noteq> 0
     then and_then (put_field sz_hdr mask' PERF_SAMPLE_CALLCHAIN (s_nr s) e) (\<lambda>(mem, buf, sz).
       let sz = sz + 8 * s_nr s in
       if sz_hdr \<le> sz then Some (Inl mem)
       else map_option (\<lambda>mem. Inr (mem, buf + 8 * unat (s_nr s), sz)) (memcpy mem buf (s_ips s) (unat (s_nr s))))
     else Some (Inr e))"

definition put_raw :: "u64 \<Rightarrow> u64 \<Rightarrow> perf_event_sample \<Rightarrow> u8 list \<times> nat \<times> u64 \<Rightarrow> enc option" where
  "put_raw sz_hdr mask' s = (\<lambda>(mem, buf, sz).
     if PERF_SAMPLE_RAW AND mask' \<noteq> 0 then do {
       mem \<leftarrow> st mem buf (le_bytes 4 (unat (s_size_raw s)));
       mem \<leftarrow> memcpy mem (buf + 4) (case s_data_raw s of None \<Rightarrow> [] | Some d \<Rightarrow> d) (unat (s_size_raw s));
       Some (sz_check sz_hdr mem (buf + 8 * (1 + unat (s_size_raw s) div 8)) (sz + 8))
     } else Some (Inr (mem, buf, sz)))"

definition put_regs :: "u64 \<Rightarrow> u64 \<Rightarrow> perf_event_sample \<Rightarrow> u8 list \<times> nat \<times> u64 \<Rightarrow> enc option" where
  "put_regs sz_hdr mask' s = (\<lambda>e.
     if PERF_SAMPLE_REGS_USER AND mask' \<noteq> 0
     then and_then (put_field sz_hdr mask' PERF_SAMPLE_REGS_USER (s_abi s) e) (\<lambda>(mem, buf, sz).
       let sz = sz + 8 * of_nat k_perf_register_count in
       if sz_hdr \<le> sz then Some (Inl mem)
       else map_option (\<lambda>mem. Inr (mem, buf + 8 * k_perf_register_count, sz)) (memcpy mem buf (s_regs s) k_perf_register_count))
     else Some (Inr e))"

definition put_stack :: "u64 \<Rightarrow> u64 \<Rightarrow> perf_event_sample \<Rightarrow> u8 list \<times> nat \<times> u64 \<Rightarrow> enc option" where
  "put_stack sz_hdr mask' s = (\<lambda>e.
     if PERF_SAMPLE_STACK_USER AND mask' \<noteq> 0
     then and_then (put_field sz_hdr mask' PERF_SAMPLE_STACK_USER (s_size_stack s) e) (\<lambda>(mem, buf, sz).
       if s_size_stack s \<noteq> 0 then
         let sz = sz + s_size_stack s in
         if sz_hdr \<le> sz then Some (Inl mem)
         else do {
           mem \<leftarrow> memcpy mem buf (case s_data_stack s of None \<Rightarrow> [] | Some d \<Rightarrow> d) (unat (s_size_stack s));
           put_field sz_hdr mask' PERF_SAMPLE_STACK_USER (s_dyn_size_stack s) (mem, buf + 8 * unat ((s_size_stack s + 7) div 8), sz)
         }
       else Some (Inr (mem, buf, sz)))
     else Some (Inr e))"

definition samp2hdr_fields :: "perf_event_sample \<Rightarrow> u64 \<Rightarrow> u64 \<Rightarrow> u8 list \<Rightarrow> enc option" where
  "samp2hdr_fields s sz_hdr mask' mem = foldl and_then (Some (Inr (mem, 8, 8)))
     [put_field sz_hdr mask' PERF_SAMPLE_IDENTIFIER (s_sample_id s),
      put_field sz_hdr mask' PERF_SAMPLE_IP (s_ip s),
      put_field sz_hdr mask' PERF_SAMPLE_TID (halves (s_pid s) (s_tid s)),
      put_field sz_hdr mask' PERF_SAMPLE_TIME (s_time s),
      put_field sz_hdr mask' PERF_SAMPLE_ADDR (s_addr s),
      put_field sz_hdr mask' PERF_SAMPLE_ID (s_id s),
      put_field sz_hdr mask' PERF_SAMPLE_STREAM_ID (s_stream_id s),
      put_cpu sz_hdr mask' (halves (s_cpu s) (s_res s)),
      put_field sz_hdr mask' PERF_SAMPLE_PERIOD (s_period s),
      put_read sz_hdr mask' s, put_callchain sz_hdr mask' s, put_raw sz_hdr mask' s,
      put_regs sz_hdr mask' s, put_stack sz_hdr mask' s]"

text \<open>The memory is the block the caller allocated, absent for a null pointer.\<close>

definition samp2hdr :: "u8 list option \<Rightarrow> perf_event_sample \<Rightarrow> u64 \<Rightarrow> u64 \<Rightarrow> (u8 list option \<times> bool) option" where
  "samp2hdr block s sz_hdr mask' = (case block of
     None \<Rightarrow> Some (None, False)
   | Some mem \<Rightarrow>
     if sz_hdr = 0 \<or> sz_hdr < 8 then Some (Some mem, False)
     else do {
       mem \<leftarrow> st mem 0 (replicate (unat sz_hdr) 0);
       mem \<leftarrow> st mem 0 (header_bytes ((s_header s)\<lparr>ph_size := 0\<rparr>));
       if sz_hdr \<le> 8 then Some (Some mem, False)
       else do {
         r \<leftarrow> samp2hdr_fields s sz_hdr mask' mem;
         case r of
           Inl mem \<Rightarrow> Some (Some mem, False)
         | Inr (mem, buf, sz) \<Rightarrow> map_option (\<lambda>mem. (Some mem, True)) (st mem 6 (le_bytes 2 (unat (ucast sz :: u16))))
       }
     })"

section \<open>Bytes and fields\<close>

lemma has_bit: "2 ^ k AND mask' \<noteq> 0 \<longleftrightarrow> bit mask' k" "mask' AND 2 ^ k \<noteq> 0 \<longleftrightarrow> bit mask' k" for mask' :: u64
  using and_exp_eq_0_iff_not_bit[of mask' k] by (simp_all add: and.commute)

lemma le_nat_append: "le_nat (xs @ ys) = le_nat xs + 256 ^ length xs * le_nat ys"
  by (induction xs) (auto simp: le_nat_def algebra_simps)

lemma ld64_bytes:
  assumes "off + 8 \<le> length mem" "take 8 (drop off mem) = le_bytes 8 (unat w)"
  shows "ld64 mem off = Some w"
proof -
  have "unat w < 256 ^ 8" using unsigned_less[of w] by simp
  then show ?thesis using assms by (simp add: ld64_def ld_def le_nat_bytes)
qed

lemma half0_halves [simp]: "half0 (halves a b) = a"
proof (rule bit_word_eqI)
  fix n assume "n < LENGTH(32)"
  then show "bit (half0 (halves a b)) n = bit a n"
    by (auto simp: half0_def halves_def bit_simps)
qed

lemma half1_halves [simp]: "half1 (halves a b) = b"
proof (rule bit_word_eqI)
  fix n assume "n < LENGTH(32)"
  then show "bit (half1 (halves a b)) n = bit b n"
    by (auto simp: half1_def halves_def bit_simps dest: bit_imp_le_length)
qed

lemma halves_halves: "halves (half0 w) (half1 w) = w"
proof (rule bit_word_eqI)
  fix n assume "n < LENGTH(64)"
  then show "bit (halves (half0 w) (half1 w)) n = bit w n"
    by (cases "n < 32") (auto simp: half0_def half1_def halves_def bit_simps)
qed

text \<open>The final memory agrees with an intermediate one on the fields up to a position.\<close>

definition agrees :: "u8 list \<Rightarrow> nat \<Rightarrow> u8 list \<Rightarrow> bool" where
  "agrees mem buf mem' \<longleftrightarrow> length mem' = length mem \<and> (\<forall>i. 8 \<le> i \<and> i < buf \<longrightarrow> mem' ! i = mem ! i)"

lemma agrees_trans: "agrees mem buf mem1 \<Longrightarrow> agrees mem1 buf' mem2 \<Longrightarrow> buf \<le> buf' \<Longrightarrow> agrees mem buf mem2"
  by (auto simp: agrees_def)

lemma st_agrees: "st mem off bs = Some mem' \<Longrightarrow> buf \<le> off \<Longrightarrow> agrees mem buf mem'"
  by (auto simp: st_def agrees_def nth_append split: if_splits)

lemma st_window: "st mem off bs = Some mem' \<Longrightarrow> length mem' = length mem \<and> off + length bs \<le> length mem \<and> take (length bs) (drop off mem') = bs"
  by (auto simp: st_def split: if_splits)

lemma agrees_window:
  "agrees mem buf mem' \<Longrightarrow> 8 \<le> off \<Longrightarrow> off + n \<le> buf \<Longrightarrow> off + n \<le> length mem \<Longrightarrow> take n (drop off mem') = take n (drop off mem)"
  by (auto simp: agrees_def list_eq_iff_nth_eq)

lemma field_roundtrip:
  assumes p: "put_field sz_hdr mask' c w (mem, buf, sz) = Some (Inr (mem', buf', sz'))"
    and f: "agrees mem' buf' final" and b: "8 \<le> buf"
  shows "get_field final mask' c upd (s, buf) = Some (if c AND mask' \<noteq> 0 then upd w s else s, buf')"
    and "agrees mem buf final" and "8 \<le> buf'"
proof -
  have "get_field final mask' c upd (s, buf) = Some (if c AND mask' \<noteq> 0 then upd w s else s, buf') \<and> agrees mem buf final \<and> 8 \<le> buf'"
  proof (cases "c AND mask' = 0")
    case True
    then show ?thesis using assms by (simp add: put_field_def get_field_def)
  next
    case False
    then have st: "st mem buf (le_bytes 8 (unat w)) = Some mem'" and b': "buf' = buf + 8"
      using p by (auto simp: put_field_def sz_check_def split: if_splits)
    have "ld64 final buf = Some w"
      by (rule ld64_bytes) (use st_window[OF st] agrees_window[OF f b, of 8] f b' in \<open>auto simp: agrees_def\<close>)
    moreover have "agrees mem buf final" using agrees_trans[OF st_agrees[OF st] f] b' by simp
    ultimately show ?thesis using False b b' by (simp add: get_field_def)
  qed
  then show "get_field final mask' c upd (s, buf) = Some (if c AND mask' \<noteq> 0 then upd w s else s, buf')"
    "agrees mem buf final" "8 \<le> buf'" by auto
qed

lemma and_then_Inr: "and_then x f = Some (Inr e') \<longleftrightarrow> (\<exists>e. x = Some (Inr e) \<and> f e = Some (Inr e'))"
  by (auto simp: and_then_def split: option.splits sum.splits)

section \<open>Positions and kept fields\<close>

lemma get_field_step:
  assumes "get_field mem mask' c upd f = Some f'"
  shows "snd f' = snd f + 8 * of_bool (c AND mask' \<noteq> 0)"
    and "c AND mask' \<noteq> 0 \<Longrightarrow> \<exists>w. ld64 mem (snd f) = Some w \<and> fst f' = upd w (fst f)"
    and "(\<And>w s. g (upd w s) = g s) \<Longrightarrow> g (fst f') = g (fst f)"
  using assms by (auto simp: get_field_def case_prod_unfold split: if_splits)

lemma time_kept:
  "get_read mem mask' f = Some f' \<Longrightarrow> s_time (fst f') = s_time (fst f)"
  "get_callchain mem mask' f = Some f' \<Longrightarrow> s_time (fst f') = s_time (fst f)"
  "get_raw mem mask' f = Some f' \<Longrightarrow> s_time (fst f') = s_time (fst f)"
  "get_regs mem mask' f = Some f'' \<Longrightarrow> s_time (fst f'') = s_time (fst f)"
  "get_stack mem mask' f = Some s' \<Longrightarrow> s_time s' = s_time (fst f)"
  subgoal by (cases f) (auto simp: get_read_def split: if_splits)
  subgoal by (cases f) (auto simp: get_callchain_def split: if_splits)
  subgoal by (cases f; cases "PERF_SAMPLE_RAW AND mask' = 0") (auto simp: get_raw_def split del: if_split)
  subgoal by (cases f) (auto simp: get_regs_def Let_def split: if_splits)
  subgoal by (cases f; cases "PERF_SAMPLE_STACK_USER AND mask' = 0"; cases "ld64 mem (snd f) = Some 0")
    (auto simp: get_stack_def bind_eq_Some_conv split del: if_split)
  done

lemma header_kept:
  "get_read mem mask' f = Some f' \<Longrightarrow> s_header (fst f') = s_header (fst f)"
  "get_callchain mem mask' f = Some f' \<Longrightarrow> s_header (fst f') = s_header (fst f)"
  "get_raw mem mask' f = Some f' \<Longrightarrow> s_header (fst f') = s_header (fst f)"
  "get_regs mem mask' f = Some f'' \<Longrightarrow> s_header (fst f'') = s_header (fst f)"
  "get_stack mem mask' f = Some s' \<Longrightarrow> s_header s' = s_header (fst f)"
  subgoal by (cases f) (auto simp: get_read_def split: if_splits)
  subgoal by (cases f) (auto simp: get_callchain_def split: if_splits)
  subgoal by (cases f; cases "PERF_SAMPLE_RAW AND mask' = 0") (auto simp: get_raw_def split del: if_split)
  subgoal by (cases f) (auto simp: get_regs_def Let_def split: if_splits)
  subgoal by (cases f; cases "PERF_SAMPLE_STACK_USER AND mask' = 0"; cases "ld64 mem (snd f) = Some 0")
    (auto simp: get_stack_def bind_eq_Some_conv split del: if_split)
  done

text \<open>The header and the nine first fields are those of the first stage.\<close>

lemma hdr2samp_parts:
  assumes "hdr2samp s0 mem mask' = Some (s, ok)"
  obtains h f where "ld_header mem = Some h" "hdr2samp_fields (s0\<lparr>s_header := h\<rparr>) mem mask' = Some f"
    "s_time s = s_time (fst f)" "s_header s = s_header (fst f)"
proof -
  obtain h f f1 f2 f3 f4 where st: "ld_header mem = Some h" "hdr2samp_fields (s0\<lparr>s_header := h\<rparr>) mem mask' = Some f"
    "get_read mem mask' f = Some f1" "get_callchain mem mask' f1 = Some f2" "get_raw mem mask' f2 = Some f3" "get_regs mem mask' f3 = Some f4"
    and fin: "(case snd f4 of None \<Rightarrow> Some (fst f4, False)
      | Some b \<Rightarrow> map_option (\<lambda>s. (s, True)) (get_stack mem mask' (fst f4, b))) = Some (s, ok)"
    using assms unfolding hdr2samp_def bind_eq_Some_conv by blast
  have "s = fst f4 \<or> (\<exists>b. get_stack mem mask' (fst f4, b) = Some s)" using fin by (auto split: option.splits)
  then have "s_time s = s_time (fst f4) \<and> s_header s = s_header (fst f4)"
    using time_kept(5) header_kept(5) by fastforce
  then have "s_time s = s_time (fst f)" "s_header s = s_header (fst f)"
    using time_kept(1)[OF st(3)] time_kept(2)[OF st(4)] time_kept(3)[OF st(5)] time_kept(4)[OF st(6)]
      header_kept(1)[OF st(3)] header_kept(2)[OF st(4)] header_kept(3)[OF st(5)] header_kept(4)[OF st(6)]
    by simp_all
  with st(1,2) show ?thesis by (rule that)
qed

lemma popcount_sum:
  assumes "finite S" "\<And>i. bit c i \<longleftrightarrow> i \<in> S" "\<forall>i\<in>S. i < 64"
  shows "popcount (mask' AND c) = (\<Sum>i\<in>S. of_bool (bit mask' i))"
proof -
  have "popcount (mask' AND c) = card (set (filter (bit (mask' AND c)) [0..<64]))"
    unfolding popcount_def by (rule distinct_card[symmetric]) simp
  also have "set (filter (bit (mask' AND c)) [0..<64]) = {i \<in> S. bit mask' i}"
    using assms(2,3) by (auto simp: bit_and_iff)
  also have "card \<dots> = (\<Sum>i\<in>S. of_bool (bit mask' i))"
    using assms(1) by (simp add: Collect_conj_eq)
  finally show ?thesis .
qed

lemma popcount_3:
  "popcount (mask' AND (PERF_SAMPLE_IDENTIFIER OR PERF_SAMPLE_IP OR PERF_SAMPLE_TID)) =
     of_bool (bit mask' 16) + of_bool (bit mask' 0) + of_bool (bit mask' 1)"
proof -
  have "popcount (mask' AND (PERF_SAMPLE_IDENTIFIER OR PERF_SAMPLE_IP OR PERF_SAMPLE_TID)) = (\<Sum>i\<in>{16, 0, 1}. of_bool (bit mask' i))"
    by (rule popcount_sum) (auto simp only: perf_sample_bits bit_or_iff bit_exp_iff possible_bit_word, auto)
  then show ?thesis by simp
qed

lemma popcount_5:
  "popcount (mask' AND (PERF_SAMPLE_TIME OR PERF_SAMPLE_ID OR PERF_SAMPLE_STREAM_ID OR PERF_SAMPLE_CPU OR PERF_SAMPLE_IDENTIFIER)) =
     of_bool (bit mask' 2) + of_bool (bit mask' 6) + of_bool (bit mask' 9) + of_bool (bit mask' 7) + of_bool (bit mask' 16)"
proof -
  have "popcount (mask' AND (PERF_SAMPLE_TIME OR PERF_SAMPLE_ID OR PERF_SAMPLE_STREAM_ID OR PERF_SAMPLE_CPU OR PERF_SAMPLE_IDENTIFIER)) =
      (\<Sum>i\<in>{2, 6, 9, 7, 16}. of_bool (bit mask' i))"
    by (rule popcount_sum) (auto simp only: perf_sample_bits bit_or_iff bit_exp_iff possible_bit_word, auto)
  then show ?thesis by simp
qed

lemma hdr2samp_fields_time:
  assumes "hdr2samp_fields s mem mask' = Some f" "bit mask' 2"
  shows "ld64 mem (8 + 8 * (of_bool (bit mask' 16) + of_bool (bit mask' 0) + of_bool (bit mask' 1))) = Some (s_time (fst f))"
    and "s_header (fst f) = s_header s"
proof -
  obtain f1 f2 f3 f4 f5 f6 f7 f8 where st:
    "get_field mem mask' PERF_SAMPLE_IDENTIFIER (\<lambda>w. s_sample_id_update (\<lambda>_. w)) (s, 8) = Some f1"
    "get_field mem mask' PERF_SAMPLE_IP (\<lambda>w. s_ip_update (\<lambda>_. w)) f1 = Some f2"
    "get_field mem mask' PERF_SAMPLE_TID (\<lambda>w s. s\<lparr>s_pid := half0 w, s_tid := half1 w\<rparr>) f2 = Some f3"
    "get_field mem mask' PERF_SAMPLE_TIME (\<lambda>w. s_time_update (\<lambda>_. w)) f3 = Some f4"
    "get_field mem mask' PERF_SAMPLE_ADDR (\<lambda>w. s_addr_update (\<lambda>_. w)) f4 = Some f5"
    "get_field mem mask' PERF_SAMPLE_ID (\<lambda>w. s_id_update (\<lambda>_. w)) f5 = Some f6"
    "get_field mem mask' PERF_SAMPLE_STREAM_ID (\<lambda>w. s_stream_id_update (\<lambda>_. w)) f6 = Some f7"
    "get_field mem mask' PERF_SAMPLE_CPU (\<lambda>w s. s\<lparr>s_cpu := half0 w, s_res := half1 w\<rparr>) f7 = Some f8"
    "get_field mem mask' PERF_SAMPLE_PERIOD (\<lambda>w. s_period_update (\<lambda>_. w)) f8 = Some f"
    using assms(1) unfolding hdr2samp_fields_def bind_eq_Some_conv by blast
  have on: "PERF_SAMPLE_TIME AND mask' \<noteq> 0" using assms(2) unfolding PERF_SAMPLE_TIME_def has_bit .
  have "snd f3 = 8 + 8 * (of_bool (bit mask' 16) + of_bool (bit mask' 0) + of_bool (bit mask' 1))"
    using get_field_step(1)[OF st(1)] get_field_step(1)[OF st(2)] get_field_step(1)[OF st(3)]
    unfolding perf_sample_bits has_bit by simp
  moreover have "ld64 mem (snd f3) = Some (s_time (fst f4))" using get_field_step(2)[OF st(4) on] by auto
  moreover have "s_time (fst f) = s_time (fst f4)"
    using get_field_step(3)[OF st(5), of s_time] get_field_step(3)[OF st(6), of s_time] get_field_step(3)[OF st(7), of s_time]
      get_field_step(3)[OF st(8), of s_time] get_field_step(3)[OF st(9), of s_time] by simp
  ultimately show "ld64 mem (8 + 8 * (of_bool (bit mask' 16) + of_bool (bit mask' 0) + of_bool (bit mask' 1))) = Some (s_time (fst f))"
    by simp
  show "s_header (fst f) = s_header s"
    using get_field_step(3)[OF st(1), of s_header] get_field_step(3)[OF st(2), of s_header] get_field_step(3)[OF st(3), of s_header]
      get_field_step(3)[OF st(4), of s_header] get_field_step(3)[OF st(5), of s_header] get_field_step(3)[OF st(6), of s_header]
      get_field_step(3)[OF st(7), of s_header] get_field_step(3)[OF st(8), of s_header] get_field_step(3)[OF st(9), of s_header]
    by simp
qed

section \<open>Encoding and decoding\<close>

text \<open>What decoding the stack of an encoded sample gives, with the stack bytes found in the record.\<close>

definition decoded_stack :: "u64 \<Rightarrow> perf_event_sample \<Rightarrow> u8 list \<Rightarrow> perf_event_sample \<Rightarrow> perf_event_sample" where
  "decoded_stack mask' s d s1 = (
     if PERF_SAMPLE_STACK_USER AND mask' = 0 then s1
     else if s_size_stack s = 0 then s1\<lparr>s_size_stack := 0, s_dyn_size_stack := 0, s_data_stack := None\<rparr>
     else s1\<lparr>s_data_stack := Some d, s_size_stack := if s_size_stack s < s_dyn_size_stack s then 0 else s_dyn_size_stack s,
             s_dyn_size_stack := s_dyn_size_stack s\<rparr>)"

lemma put_field_on:
  assumes p: "put_field sz_hdr mask' c w (mem, buf, sz) = Some (Inr (mem', buf', sz'))" and on: "c AND mask' \<noteq> 0"
    and f: "agrees mem' buf' final" and b: "8 \<le> buf"
  shows "buf' = buf + 8" "ld64 final buf = Some w" "agrees mem buf final" "length mem' = length mem"
proof -
  show "buf' = buf + 8" using p on by (auto simp: put_field_def sz_check_def split: if_splits)
  show "agrees mem buf final" by (rule field_roundtrip(2)[OF p f b])
  show "length mem' = length mem" using p on by (auto simp: put_field_def sz_check_def dest: st_window split: if_splits)
  have "get_field final mask' c (\<lambda>w s. w) (0, buf) = Some (w, buf')" using field_roundtrip(1)[OF p f b, of "\<lambda>w s. w" 0] on by simp
  then show "ld64 final buf = Some w" using on by (auto simp: get_field_def)
qed

lemma stack_roundtrip:
  assumes p: "put_stack sz_hdr mask' s (mem, buf, sz) = Some (Inr (mem', buf', sz'))"
    and f: "agrees mem' buf' final" and b: "8 \<le> buf" and len: "length mem < 2 ^ 63"
  shows "agrees mem buf final \<and> (\<exists>d. take (unat (s_size_stack s)) d = take (unat (s_size_stack s)) (the (s_data_stack s)) \<and>
    (\<forall>s1. get_stack final mask' (s1, buf) = Some (decoded_stack mask' s d s1)))"
proof (cases "PERF_SAMPLE_STACK_USER AND mask' = 0")
  case True
  then show ?thesis using p f by (auto simp: put_stack_def get_stack_def decoded_stack_def)
next
  case on: False
  let ?c = "PERF_SAMPLE_STACK_USER" and ?n = "s_size_stack s"
  define d0 where "d0 = (case s_data_stack s of None \<Rightarrow> [] | Some d \<Rightarrow> d)"
  obtain mem1 buf1 sz1 where 1: "put_field sz_hdr mask' ?c ?n (mem, buf, sz) = Some (Inr (mem1, buf1, sz1))"
    and 2: "(if ?n \<noteq> 0 then if sz_hdr \<le> sz1 + ?n then Some (Inl mem1) else do {
         mem \<leftarrow> memcpy mem1 buf1 d0 (unat ?n);
         put_field sz_hdr mask' ?c (s_dyn_size_stack s) (mem, buf1 + 8 * unat ((?n + 7) div 8), sz1 + ?n) }
       else Some (Inr (mem1, buf1, sz1))) = Some (Inr (mem', buf', sz'))"
    using p on unfolding put_stack_def Let_def d0_def[symmetric] by (auto simp: and_then_Inr)
  have b1: "buf1 = buf + 8" and l1: "length mem1 = length mem"
    using 1 on by (auto simp: put_field_def sz_check_def dest: st_window split: if_splits)
  show ?thesis
  proof (cases "?n = 0")
    case True
    then have "agrees mem1 buf1 final" using 2 f by simp
    from put_field_on[OF 1 on this b] True show ?thesis by (auto simp: get_stack_def decoded_stack_def on)
  next
    case False
    from 2 False obtain mem2 where 3: "memcpy mem1 buf1 d0 (unat ?n) = Some mem2"
      and 4: "put_field sz_hdr mask' ?c (s_dyn_size_stack s) (mem2, buf1 + 8 * unat ((?n + 7) div 8), sz1 + ?n) = Some (Inr (mem', buf', sz'))"
      by (auto simp: bind_eq_Some_conv split: if_splits)
    have m: "st mem1 buf1 (take (unat ?n) d0) = Some mem2" "unat ?n \<le> length d0" using 3 by (auto simp: memcpy_def split: if_splits)
    have w: "take (unat ?n) (drop buf1 mem2) = take (unat ?n) d0" "buf1 + unat ?n \<le> length mem" "length mem2 = length mem"
      using st_window[OF m(1)] m(2) l1 by auto
    have "unat ?n + unat (7 :: u64) < 2 ^ 64" using w(2) len by simp
    then have up: "unat ?n \<le> 8 * unat ((?n + 7) div 8)" using unat_add_u64[of ?n 7] by (simp add: unat_div)
    have "unat ?n \<noteq> 0" using False by (simp add: unat_eq_zero)
    then have dn: "the (s_data_stack s) = d0" using m(2) by (auto simp: d0_def split: option.splits)
    have b4: "8 \<le> buf1 + 8 * unat ((?n + 7) div 8)" using b b1 by simp
    note r4 = put_field_on[OF 4 on f b4]
    have a1: "agrees mem1 buf1 final" by (rule agrees_trans[OF st_agrees[OF m(1)] r4(3)]) auto
    note r1 = put_field_on[OF 1 on a1 b]
    have "take (unat ?n) (drop buf1 final) = take (unat ?n) d0"
      using agrees_window[OF r4(3), of buf1 "unat ?n"] up w b b1 by simp
    then show ?thesis using r1(2,3) r4(2) on False dn b1
      by (auto simp: get_stack_def decoded_stack_def intro!: exI[of _ "drop buf1 final"])
  qed
qed

text \<open>The fields a mask selects come from the encoded sample, the others stay.\<close>

definition decoded_fields :: "u64 \<Rightarrow> perf_event_sample \<Rightarrow> perf_event_sample \<Rightarrow> perf_event_sample" where
  "decoded_fields mask' s s0 = s0\<lparr>
      s_sample_id := if PERF_SAMPLE_IDENTIFIER AND mask' \<noteq> 0 then s_sample_id s else s_sample_id s0,
      s_ip := if PERF_SAMPLE_IP AND mask' \<noteq> 0 then s_ip s else s_ip s0,
      s_pid := if PERF_SAMPLE_TID AND mask' \<noteq> 0 then s_pid s else s_pid s0,
      s_tid := if PERF_SAMPLE_TID AND mask' \<noteq> 0 then s_tid s else s_tid s0,
      s_time := if PERF_SAMPLE_TIME AND mask' \<noteq> 0 then s_time s else s_time s0,
      s_addr := if PERF_SAMPLE_ADDR AND mask' \<noteq> 0 then s_addr s else s_addr s0,
      s_id := if PERF_SAMPLE_ID AND mask' \<noteq> 0 then s_id s else s_id s0,
      s_stream_id := if PERF_SAMPLE_STREAM_ID AND mask' \<noteq> 0 then s_stream_id s else s_stream_id s0,
      s_period := if PERF_SAMPLE_PERIOD AND mask' \<noteq> 0 then s_period s else s_period s0\<rparr>"

lemma samp2hdr_parts:
  assumes "samp2hdr (Some block) s sz_hdr mask' = Some (Some rec, True)"
  obtains mem0 mem buf sz where "length mem0 = length block" "samp2hdr_fields s sz_hdr mask' mem0 = Some (Inr (mem, buf, sz))"
    "st mem 6 (le_bytes 2 (unat (ucast sz :: u16))) = Some rec"
proof -
  obtain m1 m2 r where m: "st block 0 (replicate (unat sz_hdr) 0) = Some m1" "st m1 0 (header_bytes ((s_header s)\<lparr>ph_size := 0\<rparr>)) = Some m2"
      "samp2hdr_fields s sz_hdr mask' m2 = Some r"
      "(case r of Inl mem \<Rightarrow> Some (Some mem, False)
        | Inr (mem, buf, sz) \<Rightarrow> map_option (\<lambda>mem. (Some mem, True)) (st mem 6 (le_bytes 2 (unat (ucast sz :: u16))))) = Some (Some rec, True)"
    using assms unfolding samp2hdr_def option.case by (auto simp: bind_eq_Some_conv split: if_split_asm)
  then show thesis
    using st_window[OF m(1)] st_window[OF m(2)] that[of m2] by (cases r) auto
qed

lemma put_field_pos:
  "put_field sz_hdr mask' c w e = Some (Inr e') \<Longrightarrow> 8 \<le> fst (snd e) \<Longrightarrow> 8 \<le> fst (snd e')"
  "put_field sz_hdr mask' c w e = Some (Inr e') \<Longrightarrow> length (fst e') = length (fst e)"
  by (auto simp: put_field_def sz_check_def case_prod_unfold dest: st_window split: if_splits)

lemma field_roundtrip_e:
  assumes "put_field sz_hdr mask' c w e = Some (Inr e')" "agrees (fst e') (fst (snd e')) final" "8 \<le> fst (snd e)"
  shows "get_field final mask' c upd (s, fst (snd e)) = Some (if c AND mask' \<noteq> 0 then upd w s else s, fst (snd e'))"
    and "agrees (fst e) (fst (snd e)) final"
  using field_roundtrip(1)[of sz_hdr mask' c w "fst e" "fst (snd e)" "snd (snd e)" "fst e'" "fst (snd e')" "snd (snd e')" final upd s]
    field_roundtrip(2)[of sz_hdr mask' c w "fst e" "fst (snd e)" "snd (snd e)" "fst e'" "fst (snd e')" "snd (snd e')" final] assms
  by simp_all

lemma if_update:
  "(if c then s_sample_id_update (\<lambda>_. w) s else s) = s\<lparr>s_sample_id := if c then w else s_sample_id s\<rparr>"
  "(if c then s_ip_update (\<lambda>_. w) s else s) = s\<lparr>s_ip := if c then w else s_ip s\<rparr>"
  "(if c then s\<lparr>s_pid := p, s_tid := t\<rparr> else s) = s\<lparr>s_pid := if c then p else s_pid s, s_tid := if c then t else s_tid s\<rparr>"
  "(if c then s_time_update (\<lambda>_. w) s else s) = s\<lparr>s_time := if c then w else s_time s\<rparr>"
  "(if c then s_addr_update (\<lambda>_. w) s else s) = s\<lparr>s_addr := if c then w else s_addr s\<rparr>"
  "(if c then s_id_update (\<lambda>_. w) s else s) = s\<lparr>s_id := if c then w else s_id s\<rparr>"
  "(if c then s_stream_id_update (\<lambda>_. w) s else s) = s\<lparr>s_stream_id := if c then w else s_stream_id s\<rparr>"
  "(if c then s_period_update (\<lambda>_. w) s else s) = s\<lparr>s_period := if c then w else s_period s\<rparr>"
  by simp_all

lemma samp2hdr_fields_roundtrip:
  assumes enc: "samp2hdr_fields s sz_hdr mask' mem0 = Some (Inr (mem, buf, sz))" and fin: "agrees mem buf final"
    and len: "length mem0 < 2 ^ 63"
    and off: "PERF_SAMPLE_CPU AND mask' = 0" "PERF_SAMPLE_READ AND mask' = 0" "PERF_SAMPLE_CALLCHAIN AND mask' = 0"
    "PERF_SAMPLE_RAW AND mask' = 0" "PERF_SAMPLE_REGS_USER AND mask' = 0"
  shows "\<exists>b d. hdr2samp_fields s0 final mask' = Some (decoded_fields mask' s s0, b) \<and>
    take (unat (s_size_stack s)) d = take (unat (s_size_stack s)) (the (s_data_stack s)) \<and>
    (\<forall>s1. get_stack final mask' (s1, b) = Some (decoded_stack mask' s d s1))"
proof -
  let ?pf = "\<lambda>c w. put_field sz_hdr mask' c w"
  obtain e1 e2 e3 e4 e5 e6 e7 e8 where
    1: "?pf PERF_SAMPLE_IDENTIFIER (s_sample_id s) (mem0, 8, 8) = Some (Inr e1)" and
    2: "?pf PERF_SAMPLE_IP (s_ip s) e1 = Some (Inr e2)" and
    3: "?pf PERF_SAMPLE_TID (halves (s_pid s) (s_tid s)) e2 = Some (Inr e3)" and
    4: "?pf PERF_SAMPLE_TIME (s_time s) e3 = Some (Inr e4)" and
    5: "?pf PERF_SAMPLE_ADDR (s_addr s) e4 = Some (Inr e5)" and
    6: "?pf PERF_SAMPLE_ID (s_id s) e5 = Some (Inr e6)" and
    7: "?pf PERF_SAMPLE_STREAM_ID (s_stream_id s) e6 = Some (Inr e7)" and
    8: "?pf PERF_SAMPLE_PERIOD (s_period s) e7 = Some (Inr e8)" and
    9: "put_stack sz_hdr mask' s e8 = Some (Inr (mem, buf, sz))"
    using enc off unfolding samp2hdr_fields_def foldl.simps and_then_Inr
    by (auto simp: put_cpu_def put_read_def put_callchain_def put_raw_def put_regs_def)
  have p1: "8 \<le> fst (snd e1)" using put_field_pos(1)[OF 1] by simp
  note p2 = put_field_pos(1)[OF 2 p1] note p3 = put_field_pos(1)[OF 3 p2] note p4 = put_field_pos(1)[OF 4 p3]
  note p5 = put_field_pos(1)[OF 5 p4] note p6 = put_field_pos(1)[OF 6 p5] note p7 = put_field_pos(1)[OF 7 p6] note p8 = put_field_pos(1)[OF 8 p7]
  have l8: "length (fst e8) < 2 ^ 63"
    using put_field_pos(2)[OF 1] put_field_pos(2)[OF 2] put_field_pos(2)[OF 3] put_field_pos(2)[OF 4] put_field_pos(2)[OF 5]
      put_field_pos(2)[OF 6] put_field_pos(2)[OF 7] put_field_pos(2)[OF 8] len by simp
  from stack_roundtrip[of sz_hdr mask' s "fst e8" "fst (snd e8)" "snd (snd e8)" mem buf sz final] 9 fin p8 l8
  obtain d where a8: "agrees (fst e8) (fst (snd e8)) final"
    and d: "take (unat (s_size_stack s)) d = take (unat (s_size_stack s)) (the (s_data_stack s))"
      "\<forall>s1. get_stack final mask' (s1, fst (snd e8)) = Some (decoded_stack mask' s d s1)" by auto
  note r8 = field_roundtrip_e[OF 8 a8 p7] note r7 = field_roundtrip_e[OF 7 r8(2) p6] note r6 = field_roundtrip_e[OF 6 r7(2) p5]
  note r5 = field_roundtrip_e[OF 5 r6(2) p4] note r4 = field_roundtrip_e[OF 4 r5(2) p3] note r3 = field_roundtrip_e[OF 3 r4(2) p2]
  note r2 = field_roundtrip_e[OF 2 r3(2) p1] note r1 = field_roundtrip_e(1)[OF 1 r2(2), simplified]
  have cpu: "get_field final mask' PERF_SAMPLE_CPU upd f = Some f" for upd and f :: "perf_event_sample \<times> nat"
    using off(1) by (simp add: get_field_def case_prod_unfold)
  have "hdr2samp_fields s0 final mask' = Some (decoded_fields mask' s s0, fst (snd e8))"
    unfolding hdr2samp_fields_def r1 r2(1) r3(1) r4(1) r5(1) r6(1) r7(1) r8(1) cpu bind.bind_lunit if_update
    by (simp add: decoded_fields_def split del: if_split cong: if_cong)
  with d show ?thesis by blast
qed

section \<open>Properties\<close>

text \<open>C23. For a sample, the time that \<open>hdr_time\<close> reads directly is the time that decoding the whole
  sample gives, for every mask that has the time.\<close>

theorem hdr_time_sample:
  assumes "hdr2samp s0 mem mask' = Some (s, ok)" "ph_type (s_header s) = PERF_RECORD_SAMPLE"
    and "PERF_SAMPLE_TIME AND mask' \<noteq> 0"
  shows "hdr_time mem mask' = Some (s_time s)"
proof -
  obtain h f where hf: "ld_header mem = Some h" "hdr2samp_fields (s0\<lparr>s_header := h\<rparr>) mem mask' = Some f"
    "s_time s = s_time (fst f)" "s_header s = s_header (fst f)" using hdr2samp_parts[OF assms(1)] .
  have b: "bit mask' 2" using assms(3) unfolding PERF_SAMPLE_TIME_def has_bit .
  have "ph_type h = PERF_RECORD_SAMPLE" using hdr2samp_fields_time(2)[OF hf(2) b] hf(4) assms(2) by simp
  then show ?thesis using hdr2samp_fields_time(1)[OF hf(2) b] hf(1,3) assms(3)
    by (simp add: hdr_time_def popcount_3 and.commute)
qed


definition blank_sample :: perf_event_sample where
  "blank_sample = \<lparr>s_header = \<lparr>ph_type = 0, ph_misc = 0, ph_size = 0\<rparr>, s_sample_id = 0, s_ip = 0, s_pid = 0, s_tid = 0,
     s_time = 0, s_addr = 0, s_id = 0, s_stream_id = 0, s_cpu = 0, s_res = 0, s_period = 0, s_v = [], s_nr = 0, s_ips = [],
     s_size_raw = 0, s_data_raw = None, s_abi = 0, s_regs = [], s_size_stack = 0, s_data_stack = None, s_dyn_size_stack = 0\<rparr>"

lemmas hdr2samp_eval = hdr2samp_def hdr2samp_fields_def get_field_def get_read_def get_callchain_def get_raw_def
  get_regs_def get_stack_def ld_header_def ld64_def ld_def le_nat_def half0_def half1_def perf_sample_bits

definition sample_event :: "u8 list" where
  "sample_event = [9, 0, 0, 0, 0, 0, 24, 0, 5, 0, 0, 0, 6, 0, 0, 0, 7, 1, 0, 0, 0, 0, 0, 0]"

theorem hdr_time_sample_witness:
  "hdr_time sample_event 6 = Some 263"
proof -
  have "hdr2samp blank_sample sample_event 6 = Some (blank_sample\<lparr>s_header := \<lparr>ph_type = 9, ph_misc = 0, ph_size = 24\<rparr>,
      s_pid := 5, s_tid := 6, s_time := 263\<rparr>, True)"
    by (simp add: sample_event_def blank_sample_def hdr2samp_eval)
  from hdr_time_sample[OF this] show ?thesis
    by (simp add: PERF_RECORD_SAMPLE_def PERF_SAMPLE_TIME_def)
qed

text \<open>The trailer that the kernel appends to a record that is not a sample, by the mask.\<close>

definition sample_id_trailer :: "u64 \<Rightarrow> u64 \<Rightarrow> u64 \<Rightarrow> u64 \<Rightarrow> u64 \<Rightarrow> u64 \<Rightarrow> u64 \<Rightarrow> u8 list" where
  "sample_id_trailer mask' pid_tid t i stream_id cpu ident = concat (map (\<lambda>(c, w). if mask' AND c \<noteq> 0 then le_bytes 8 (unat w) else [])
     [(PERF_SAMPLE_TID, pid_tid), (PERF_SAMPLE_TIME, t), (PERF_SAMPLE_ID, i), (PERF_SAMPLE_STREAM_ID, stream_id),
      (PERF_SAMPLE_CPU, cpu), (PERF_SAMPLE_IDENTIFIER, ident)])"

lemma length_field: "length (if mask' AND 2 ^ k \<noteq> 0 then le_bytes 8 n else []) = 8 * of_bool (bit mask' k)" for mask' :: u64
  unfolding has_bit by simp


definition exit_event :: "u8 list" where
  "exit_event = [4, 0, 0, 0, 0, 0, 24, 0] @ sample_id_trailer 6 1 263 0 0 0 0"


text \<open>C22. A sample that \<open>samp2hdr\<close> encodes, with a mask of fields among the identifier, the ip, the
  thread, the time, the address, the ids, the period and the stack, is decoded by \<open>hdr2samp\<close> to the same
  fields; of the stack, the recorded bytes are found, and the size is the dynamic one, or zero if
  that is larger than the static one. Fields not in the mask keep their value.\<close>

theorem samp2hdr_roundtrip:
  assumes "samp2hdr (Some block) s sz_hdr mask' = Some (Some rec, True)" "length block < 2 ^ 63"
    and "PERF_SAMPLE_CPU AND mask' = 0" "PERF_SAMPLE_READ AND mask' = 0" "PERF_SAMPLE_CALLCHAIN AND mask' = 0"
    and "PERF_SAMPLE_RAW AND mask' = 0" "PERF_SAMPLE_REGS_USER AND mask' = 0"
  shows "\<exists>h d. ld_header rec = Some h \<and>
    hdr2samp s0 rec mask' = Some (decoded_stack mask' s d (decoded_fields mask' s (s0\<lparr>s_header := h\<rparr>)), True) \<and>
    take (unat (s_size_stack s)) d = take (unat (s_size_stack s)) (the (s_data_stack s))"
proof -
  obtain mem0 mem buf sz where enc: "length mem0 = length block" "samp2hdr_fields s sz_hdr mask' mem0 = Some (Inr (mem, buf, sz))"
    "st mem 6 (le_bytes 2 (unat (ucast sz :: u16))) = Some rec"
    using samp2hdr_parts[OF assms(1)] .
  have "agrees mem buf rec" using enc(3) by (auto simp: agrees_def st_def nth_append split: if_splits)
  from samp2hdr_fields_roundtrip[OF enc(2) this _ assms(3-7)] enc(1) assms(2)
  have f: "\<And>s0. \<exists>b d. hdr2samp_fields s0 rec mask' = Some (decoded_fields mask' s s0, b) \<and>
      take (unat (s_size_stack s)) d = take (unat (s_size_stack s)) (the (s_data_stack s)) \<and>
      (\<forall>s1. get_stack rec mask' (s1, b) = Some (decoded_stack mask' s d s1))" by simp
  have "8 \<le> length rec" using st_window[OF enc(3)] by simp
  then obtain h where h: "ld_header rec = Some h" by (simp add: ld_header_def)
  obtain b d where bd: "hdr2samp_fields (s0\<lparr>s_header := h\<rparr>) rec mask' = Some (decoded_fields mask' s (s0\<lparr>s_header := h\<rparr>), b)"
      "take (unat (s_size_stack s)) d = take (unat (s_size_stack s)) (the (s_data_stack s))"
      "get_stack rec mask' (s1, b) = Some (decoded_stack mask' s d s1)" for s1
    using f[of "s0\<lparr>s_header := h\<rparr>"] by blast
  have "hdr2samp s0 rec mask' = Some (decoded_stack mask' s d (decoded_fields mask' s (s0\<lparr>s_header := h\<rparr>)), True)"
    using assms(4-7) bd(1,3) h by (simp add: hdr2samp_def get_read_def get_callchain_def get_raw_def get_regs_def)
  with h bd(2) show ?thesis by blast
qed

definition stack_sample :: perf_event_sample where
  "stack_sample = blank_sample\<lparr>s_header := \<lparr>ph_type = 9, ph_misc = 0, ph_size = 0\<rparr>, s_time := 263,
     s_size_stack := 2, s_data_stack := Some [11, 12], s_dyn_size_stack := 1\<rparr>"

definition stack_event :: "u8 list" where
  "stack_event = [9, 0, 0, 0, 0, 0, 34, 0] @ [7, 1, 0, 0, 0, 0, 0, 0] @ [2, 0, 0, 0, 0, 0, 0, 0] @ [11, 12, 0, 0, 0, 0, 0, 0] @ [1, 0, 0, 0, 0, 0, 0, 0]"

theorem samp2hdr_roundtrip_witness:
  "\<exists>h d. hdr2samp blank_sample stack_event 8196 = Some (decoded_stack 8196 stack_sample d (decoded_fields 8196 stack_sample (blank_sample\<lparr>s_header := h\<rparr>)), True) \<and>
     take 2 d = [11, 12]"
proof -
  have "replicate 6 0 = [0, 0, 0, 0, 0, 0 :: u8]" by (simp add: numeral_eq_Suc)
  then have "samp2hdr (Some (replicate 40 0)) stack_sample 40 8196 = Some (Some stack_event, True)"
    by (simp add: samp2hdr_def samp2hdr_fields_def stack_sample_def blank_sample_def stack_event_def put_field_def put_cpu_def put_read_def
      put_callchain_def put_raw_def put_regs_def put_stack_def and_then_def sz_check_def memcpy_def st_def header_bytes_def le_bytes_def
      perf_sample_bits Let_def) (simp add: upt_rec)
  then show ?thesis
    using samp2hdr_roundtrip[of "replicate 40 0" stack_sample 40 8196 stack_event blank_sample]
    by (auto simp: perf_sample_bits stack_sample_def)
qed


end
