(* ===== verification/Alloc_Tracker.thy ===== *)
theory Alloc_Tracker
  imports Mpsc_Ring Address_Set Perf_Sample
begin

text \<open>
  The allocation tracker of the profiling library (\<^verbatim>\<open>allocation_tracker.cc\<close>): it decides which
  allocations are sampled, keeps the set of sampled addresses, and writes allocation,
  deallocation and state events into the multi-producer ring. Each call is one thread's, on the
  operations of \<open>Mpsc_Ring\<close> and \<open>Address_Set\<close>; interleavings at the ring are in \<open>Mpsc_System\<close>. The
  answers of the system (lock in time, clock, write to the event descriptor, random draws) are
  arguments. \<^term>\<open>None\<close> is an access outside the ring, an invalid address table, a division by zero or
  a loop that does not end.
\<close>

section \<open>Results\<close>

datatype DD_RES_SEV = DD_SEV_OK | DD_SEV_NOTICE | DD_SEV_WARN | DD_SEV_ERROR

datatype DD_WHAT = DD_WHAT_NONE | DD_WHAT_UKNW | DD_WHAT_PERFRB | DD_WHAT_POLLERROR | DD_WHAT_MAINLOOP | DD_WHAT_PERFSAMP |
  DD_WHAT_EXPORTER | DD_WHAT_EXPORT_TIMEOUT

record DDRes =
  res_what :: DD_WHAT
  res_sev :: DD_RES_SEV

definition ddres_error :: "DD_WHAT \<Rightarrow> DDRes" where
  "ddres_error what = \<lparr>res_what = what, res_sev = DD_SEV_ERROR\<rparr>"

definition ddres_warn :: "DD_WHAT \<Rightarrow> DDRes" where
  "ddres_warn what = \<lparr>res_what = what, res_sev = DD_SEV_WARN\<rparr>"

definition ddres_init :: DDRes where
  "ddres_init = \<lparr>res_what = DD_WHAT_NONE, res_sev = DD_SEV_OK\<rparr>"

definition IsDDResOK :: "DDRes \<Rightarrow> bool" where
  "IsDDResOK r \<longleftrightarrow> res_sev r = DD_SEV_OK"

definition IsDDResFatal :: "DDRes \<Rightarrow> bool" where
  "IsDDResFatal r \<longleftrightarrow> res_sev r = DD_SEV_ERROR"

section \<open>State\<close>

text \<open>The state of a thread. The random generator has a type of its own.\<close>

record 'g TrackerThreadLocalState =
  tl_remaining_bytes :: u64
  tl_stack_begin :: u64
  tl_stack_end :: u64
  tl_gen :: 'g
  tl_tid :: int
  tl_reentry_guard :: bool
  tl_allocation_allowed :: bool
  tl_initialized :: bool

record IntervalTimerCheck =
  tc_callback :: bool
  tc_initial_delay :: int
  tc_interval :: int

definition tc_is_set :: "IntervalTimerCheck \<Rightarrow> bool" where
  "tc_is_set c \<longleftrightarrow> tc_callback c \<and> (0 < tc_initial_delay c \<or> 0 < tc_interval c)"

text \<open>What was committed to the ring or lost because there was no room or no lock.\<close>

datatype tracker_event =
    EvAlloc u64 u64
  | EvDealloc u64
  | EvClear
  | EvState u32 u32 u32 u32 u32
  | LostAlloc u64 u64
  | LostDealloc u64

text \<open>
  The tracker. \<open>at_instance\<close> says whether the static instance pointer is set; \<open>at_history\<close> is a history
  of the events, which no operation reads.
\<close>

record AllocationTracker =
  at_instance :: bool
  at_track_deallocations :: bool
  at_lost_alloc_count :: u64
  at_lost_dealloc_count :: u64
  at_failure_count :: u32
  at_address_conflict_count :: u32
  at_pid :: int
  at_next_check_time :: int
  at_sampling_interval :: u64
  at_stack_sample_size :: u32
  at_fd :: int
  at_mapfd :: int
  at_rb :: RingBuffer
  at_deterministic_sampling :: bool
  at_high_priority_area_size :: u64
  at_allocated_address_set :: AddressBitset
  at_interval_timer_check :: IntervalTimerCheck
  at_history :: "tracker_event list"

definition k_max_consecutive_failures :: u32 where "k_max_consecutive_failures = 5"

definition time_point_max :: int where "time_point_max = 2 ^ 63 - 1"

text \<open>
  What the system answers during one push: whether the lock was taken in time, the clock, whether
  the write to the event descriptor succeeded. For a push that may sleep and that may push the
  state too: per sleep, what others did to the ring meanwhile and whether the lock was taken; and
  the answers for the state. For an allocation: the stack pointer, the saved registers, the stack.
\<close>

record push_io =
  io_lock :: bool
  io_now :: int
  io_write :: bool

record push_env =
  pe_io :: push_io
  pe_retries :: "((RingBuffer \<Rightarrow> RingBuffer) \<times> bool) list"
  pe_state :: push_io
  pe_stack_base :: u64
  pe_regs :: "u64 list"
  pe_stack :: "u64 \<Rightarrow> u8"

section \<open>Events\<close>

definition sample_id_bytes :: "int \<Rightarrow> int \<Rightarrow> int \<Rightarrow> u8 list" where
  "sample_id_bytes pid tid time = le_bytes 4 (unat (of_int pid :: u32)) @ le_bytes 4 (unat (of_int tid :: u32)) @
     le_bytes 8 (unat (of_int time :: u64))"

definition event_header :: "u32 \<Rightarrow> u64 \<Rightarrow> u8 list" where
  "event_header t n = header_bytes \<lparr>ph_type = t, ph_misc = 0, ph_size = ucast n\<rparr>"

definition dealloc_event :: "int \<Rightarrow> int \<Rightarrow> int \<Rightarrow> u64 \<Rightarrow> u8 list" where
  "dealloc_event pid tid time addr = event_header PERF_CUSTOM_EVENT_DEALLOCATION 32 @ sample_id_bytes pid tid time @ le_bytes 8 (unat addr)"

definition clear_event :: "int \<Rightarrow> int \<Rightarrow> int \<Rightarrow> u8 list" where
  "clear_event pid tid time = event_header PERF_CUSTOM_EVENT_CLEAR_LIVE_ALLOCATION 24 @ sample_id_bytes pid tid time"

definition state_event :: "int \<Rightarrow> int \<Rightarrow> u32 \<Rightarrow> u32 \<Rightarrow> u32 \<Rightarrow> u32 \<Rightarrow> u32 \<Rightarrow> u8 list" where
  "state_event pid time tracked_count conflicts shards lost_alloc lost_dealloc =
     event_header PERF_CUSTOM_EVENT_ALLOCATION_TRACKER_STATE 48 @ sample_id_bytes pid 0 time @
     concat (map (\<lambda>w. le_bytes 4 (unat w)) [tracked_count, conflicts, shards, lost_alloc, lost_dealloc])"

text \<open>
  An allocation event: the fixed fields, the saved part of the stack, and the dynamic size behind
  the whole stack area. The bytes between are those the buffer had.
\<close>

definition sizeof_allocation_event :: "u32 \<Rightarrow> u64" where
  "sizeof_allocation_event stack_size = 216 + ucast stack_size + 8"

definition alloc_event_pieces :: "int \<Rightarrow> int \<Rightarrow> int \<Rightarrow> u64 \<Rightarrow> u64 \<Rightarrow> u64 list \<Rightarrow> u32 \<Rightarrow> u8 list \<Rightarrow> (nat \<times> u8 list) list" where
  "alloc_event_pieces pid tid time addr period regs stack_size saved =
     [(0, event_header PERF_RECORD_SAMPLE (sizeof_allocation_event stack_size) @ sample_id_bytes pid tid time @
          le_bytes 8 (unat addr) @ le_bytes 8 (unat period) @ le_bytes 8 (unat PERF_SAMPLE_REGS_ABI_64) @
          concat (map (\<lambda>w. le_bytes 8 (unat w)) regs) @ le_bytes 8 (unat stack_size) @ saved),
      (216 + unat stack_size, le_bytes 8 (length saved))]"

text \<open>The part of the stack that is saved, nothing if the stack pointer is outside the known stack.\<close>

definition save_stack :: "u64 \<Rightarrow> u64 \<Rightarrow> u64 \<Rightarrow> (u64 \<Rightarrow> u8) \<Rightarrow> nat \<Rightarrow> u8 list" where
  "save_stack stack_begin stack_end stack_ptr mem n = (
     if stack_ptr < stack_begin \<or> stack_end \<le> stack_ptr then []
     else map (\<lambda>i. mem (stack_ptr + of_nat i)) [0..<min n (unat (stack_end - stack_ptr))])"

text \<open>The position of the stack pointer among the saved registers.\<close>

definition PAM_X86_SP :: nat where "PAM_X86_SP = 7"

definition save_context :: "'g TrackerThreadLocalState \<Rightarrow> push_env \<Rightarrow> nat \<Rightarrow> u8 list" where
  "save_context tls env n = save_stack (tl_stack_begin tls) (tl_stack_end tls) (pe_regs env ! PAM_X86_SP) (pe_stack env) n"

section \<open>Reserving and committing\<close>

fun store_pieces :: "RingBuffer \<Rightarrow> nat \<Rightarrow> (nat \<times> u8 list) list \<Rightarrow> RingBuffer option" where
  "store_pieces rb base [] = Some rb"
| "store_pieces rb base ((off, bs) # ps) = (case rb_store rb (base + off) bs of None \<Rightarrow> None | Some rb \<Rightarrow> store_pieces rb base ps)"

fun retry_reserve :: "MPSCRingBufferWriter \<Rightarrow> u64 \<Rightarrow> bool \<Rightarrow> ((RingBuffer \<Rightarrow> RingBuffer) \<times> bool) list \<Rightarrow> RingBuffer \<Rightarrow>
    (RingBuffer \<times> (u64 \<times> u64) option \<times> bool) option" where
  "retry_reserve writer n timeout [] rb = Some (rb, None, timeout)"
| "retry_reserve writer n timeout ((others, lock) # attempts) rb = (
     case mw_reserve lock (others rb) writer n True of
       None \<Rightarrow> None
     | Some (rb, buffer, t) \<Rightarrow>
         if buffer \<noteq> None \<or> timeout \<or> t then Some (rb, buffer, timeout \<or> t)
         else retry_reserve writer n timeout attempts rb)"

definition k_max_sleep_attempts :: nat where "k_max_sleep_attempts = 5"

definition sleep_and_retry_reserve :: "MPSCRingBufferWriter \<Rightarrow> u64 \<Rightarrow> bool \<Rightarrow> ((RingBuffer \<Rightarrow> RingBuffer) \<times> bool) list \<Rightarrow> RingBuffer \<Rightarrow>
    (RingBuffer \<times> (u64 \<times> u64) option \<times> bool) option" where
  "sleep_and_retry_reserve writer n timeout attempts rb = retry_reserve writer n timeout (take k_max_sleep_attempts attempts) rb"

text \<open>The event is stored, committed, and the consumer notified when it has caught up.\<close>

definition commit_event :: "AllocationTracker \<Rightarrow> RingBuffer \<Rightarrow> MPSCRingBufferWriter \<Rightarrow> u64 \<times> u64 \<Rightarrow> (nat \<times> u8 list) list \<Rightarrow> tracker_event \<Rightarrow> bool \<Rightarrow>
    (AllocationTracker \<times> DDRes) option" where
  "commit_event t rb writer buffer pieces ev write_ok = (
     case store_pieces rb (unat (fst buffer)) pieces of
       None \<Rightarrow> None
     | Some rb \<Rightarrow> (case mw_commit rb writer buffer of
         None \<Rightarrow> None
       | Some (rb, writer, notify) \<Rightarrow>
           let t = t\<lparr>at_rb := rb, at_history := at_history t @ [ev]\<rparr>
           in Some (t, if notify \<and> \<not> write_ok then ddres_error DD_WHAT_PERFRB else ddres_init)))"

section \<open>Pushing events\<close>

definition push_allocation_tracker_state :: "AllocationTracker \<Rightarrow> push_io \<Rightarrow> (AllocationTracker \<times> DDRes) option" where
  "push_allocation_tracker_state t io = (
     let writer = mw_init (at_rb t) (at_high_priority_area_size t) in
     case mw_reserve (io_lock io) (at_rb t) writer 48 True of
       None \<Rightarrow> None
     | Some (rb, None, timeout) \<Rightarrow> Some (t\<lparr>at_rb := rb\<rparr>, if timeout then ddres_error DD_WHAT_PERFRB else ddres_warn DD_WHAT_PERFRB)
     | Some (rb, Some buffer, timeout) \<Rightarrow>
         let conflicts = at_address_conflict_count t;
             tracked_count = of_nat (bs_count (at_allocated_address_set t)) :: u32;
             shards = of_nat (active_shards (at_allocated_address_set t)) :: u32;
             lost_alloc = ucast (at_lost_alloc_count t) :: u32;
             lost_dealloc = ucast (at_lost_dealloc_count t) :: u32;
             t = t\<lparr>at_address_conflict_count := 0, at_lost_alloc_count := 0, at_lost_dealloc_count := 0\<rparr>
         in commit_event t rb writer buffer
              [(0, state_event (at_pid t) (io_now io) tracked_count conflicts shards lost_alloc lost_dealloc)]
              (EvState tracked_count conflicts shards lost_alloc lost_dealloc) (io_write io))"

definition update_timer :: "AllocationTracker \<Rightarrow> int \<Rightarrow> push_io \<Rightarrow> AllocationTracker option" where
  "update_timer t now io = (
     if now \<le> at_next_check_time t then Some t
     else if \<not> tc_is_set (at_interval_timer_check t) \<or> tc_interval (at_interval_timer_check t) = 0
     then Some (t\<lparr>at_next_check_time := time_point_max\<rparr>)
     else map_option fst (push_allocation_tracker_state
       (t\<lparr>at_next_check_time := now + tc_interval (at_interval_timer_check t) * 1000000\<rparr>) io))"

definition check_timer :: "AllocationTracker \<Rightarrow> 'g TrackerThreadLocalState \<Rightarrow> int \<Rightarrow> push_io \<Rightarrow> AllocationTracker option" where
  "check_timer t tls now io = (
     if tl_allocation_allowed tls \<and> at_next_check_time t < now then update_timer t now io else Some t)"

text \<open>After a commit: an error is returned at once, otherwise the timer is checked.\<close>

definition then_check_timer :: "(AllocationTracker \<times> DDRes) option \<Rightarrow> 'g TrackerThreadLocalState \<Rightarrow> push_env \<Rightarrow> (AllocationTracker \<times> DDRes) option" where
  "then_check_timer r tls env = (case r of
     None \<Rightarrow> None
   | Some (t, res) \<Rightarrow> if IsDDResOK res then map_option (\<lambda>t. (t, ddres_init)) (check_timer t tls (io_now (pe_io env)) (pe_state env))
                     else Some (t, res))"

definition push_clear_live_allocation :: "AllocationTracker \<Rightarrow> 'g TrackerThreadLocalState \<Rightarrow> push_env \<Rightarrow> (AllocationTracker \<times> DDRes) option" where
  "push_clear_live_allocation t tls env = (
     let writer = mw_init (at_rb t) (at_high_priority_area_size t) in
     case mw_reserve (io_lock (pe_io env)) (at_rb t) writer 24 True of
       None \<Rightarrow> None
     | Some (rb, None, timeout) \<Rightarrow> Some (t\<lparr>at_rb := rb\<rparr>, ddres_error DD_WHAT_PERFRB)
     | Some (rb, Some buffer, timeout) \<Rightarrow>
         then_check_timer (commit_event t rb writer buffer [(0, clear_event (at_pid t) (tl_tid tls) (io_now (pe_io env)))]
           EvClear (io_write (pe_io env))) tls env)"

definition push_dealloc_sample :: "AllocationTracker \<Rightarrow> 'g TrackerThreadLocalState \<Rightarrow> push_env \<Rightarrow> u64 \<Rightarrow> (AllocationTracker \<times> DDRes) option" where
  "push_dealloc_sample t tls env addr = (
     let writer = mw_init (at_rb t) (at_high_priority_area_size t) in
     case (case mw_reserve (io_lock (pe_io env)) (at_rb t) writer 32 True of
             None \<Rightarrow> None
           | Some (rb, None, timeout) \<Rightarrow> sleep_and_retry_reserve writer 32 timeout (pe_retries env) rb
           | Some r \<Rightarrow> Some r) of
       None \<Rightarrow> None
     | Some (rb, None, timeout) \<Rightarrow>
         Some (t\<lparr>at_rb := rb, at_lost_dealloc_count := at_lost_dealloc_count t + 1, at_history := at_history t @ [LostDealloc addr]\<rparr>,
               if timeout then ddres_error DD_WHAT_PERFRB else ddres_warn DD_WHAT_PERFRB)
     | Some (rb, Some buffer, timeout) \<Rightarrow>
         then_check_timer (commit_event t rb writer buffer [(0, dealloc_event (at_pid t) (tl_tid tls) (io_now (pe_io env)) addr)]
           (EvDealloc addr) (io_write (pe_io env))) tls env)"

definition k_stack_margin :: int where "k_stack_margin = 192"

definition sample_stack_size :: "AllocationTracker \<Rightarrow> 'g TrackerThreadLocalState \<Rightarrow> u64 \<Rightarrow> u32" where
  "sample_stack_size t tls stack_base = (
     let stack_size = uint (tl_stack_end tls) - uint stack_base
     in ucast (align_up (of_int (min (max (stack_size + k_stack_margin) 0) (uint (at_stack_sample_size t)))) 8))"

definition push_alloc_sample :: "AllocationTracker \<Rightarrow> 'g TrackerThreadLocalState \<Rightarrow> push_env \<Rightarrow> u64 \<Rightarrow> u64 \<Rightarrow> (AllocationTracker \<times> DDRes) option" where
  "push_alloc_sample t tls env addr allocated_size = (
     let writer = mw_init (at_rb t) (at_high_priority_area_size t);
         stack_size = sample_stack_size t tls (pe_stack_base env);
         event_size = sizeof_allocation_event stack_size in
     case mw_reserve (io_lock (pe_io env)) (at_rb t) writer event_size False of
       None \<Rightarrow> None
     | Some (rb, None, timeout) \<Rightarrow>
         Some (t\<lparr>at_rb := rb, at_lost_alloc_count := at_lost_alloc_count t + 1, at_history := at_history t @ [LostAlloc addr allocated_size]\<rparr>,
               if timeout then ddres_error DD_WHAT_PERFRB else ddres_warn DD_WHAT_PERFRB)
     | Some (rb, Some buffer, timeout) \<Rightarrow>
         then_check_timer (commit_event t rb writer buffer
           (alloc_event_pieces (at_pid t) (tl_tid tls) (io_now (pe_io env)) addr allocated_size (pe_regs env) stack_size
              (save_context tls env (unat stack_size)))
           (EvAlloc addr allocated_size) (io_write (pe_io env))) tls env)"

section \<open>Sampling\<close>

text \<open>
  \<open>draw\<close> gives the integer part of an exponential draw and the next state of the generator; the bounds
  of the interval are integers, so they may be applied to the integer part.
\<close>

definition kMaxSamplingMultiplier :: u64 where "kMaxSamplingMultiplier = 20"

definition next_sample_interval :: "('g \<Rightarrow> u64 \<times> 'g) \<Rightarrow> AllocationTracker \<Rightarrow> 'g \<Rightarrow> u64 \<times> 'g" where
  "next_sample_interval draw t gen = (
     if at_sampling_interval t = 1 then (1, gen)
     else if at_deterministic_sampling t then (at_sampling_interval t, gen)
     else let (v, gen) = draw gen
          in (max (min v (at_sampling_interval t * kMaxSamplingMultiplier)) 8, gen))"

partial_function (option) sample_loop :: "('g \<Rightarrow> u64 \<times> 'g) \<Rightarrow> AllocationTracker \<Rightarrow> u64 \<Rightarrow> u64 \<Rightarrow> 'g \<Rightarrow> (u64 \<times> u64 \<times> 'g) option" where
  "sample_loop draw t remaining_bytes nsamples gen = (
     let (interval, gen) = next_sample_interval draw t gen;
         remaining_bytes = remaining_bytes - interval;
         nsamples = nsamples + 1
     in if 0 \<le> sint remaining_bytes then sample_loop draw t remaining_bytes nsamples gen
        else Some (remaining_bytes, nsamples, gen))"

section \<open>The tracker\<close>

definition at_free :: "AllocationTracker \<Rightarrow> AllocationTracker" where
  "at_free t = t\<lparr>at_track_deallocations := False, at_instance := False\<rparr>"

definition free_on_consecutive_failures :: "AllocationTracker \<Rightarrow> bool \<Rightarrow> AllocationTracker" where
  "free_on_consecutive_failures t failure = (
     if failure then
       let t = t\<lparr>at_failure_count := at_failure_count t + 1\<rparr>
       in if k_max_consecutive_failures \<le> at_failure_count t then at_free t else t
     else if 0 < at_failure_count t then t\<lparr>at_failure_count := 0\<rparr> else t)"

text \<open>The number of samples an allocation accounts for, as a size, and the bytes left until the next one.\<close>

definition sampled_size :: "('g \<Rightarrow> u64 \<times> 'g) \<Rightarrow> AllocationTracker \<Rightarrow> 'g TrackerThreadLocalState \<Rightarrow> (u64 \<times> 'g TrackerThreadLocalState) option" where
  "sampled_size draw t tls = (
     let sampling_interval = at_sampling_interval t in
     if sampling_interval = 0 then None
     else map_option (\<lambda>(remaining_bytes, nsamples, gen).
         (nsamples * sampling_interval, tls\<lparr>tl_gen := gen, tl_remaining_bytes := remaining_bytes\<rparr>))
       (sample_loop draw t (tl_remaining_bytes tls mod sampling_interval) (tl_remaining_bytes tls div sampling_interval) (tl_gen tls)))"

definition track_allocation :: "('g \<Rightarrow> u64 \<times> 'g) \<Rightarrow> AllocationTracker \<Rightarrow> 'g TrackerThreadLocalState \<Rightarrow> push_env \<Rightarrow> u64 \<Rightarrow> bool \<Rightarrow>
    (AllocationTracker \<times> 'g TrackerThreadLocalState) option" where
  "track_allocation draw t tls env addr is_large_alloc = do {
     (total_size, tls) \<leftarrow> sampled_size draw t tls;
     (t, addr) \<leftarrow> (if at_track_deallocations t
        then map_option (\<lambda>(set, added). let t = t\<lparr>at_allocated_address_set := set\<rparr> in
               if added then (t, addr) else (t\<lparr>at_address_conflict_count := at_address_conflict_count t + 1\<rparr>, 0))
             (bs_add (at_allocated_address_set t) addr is_large_alloc)
        else Some (t, addr));
     (t, res) \<leftarrow> push_alloc_sample t tls env addr total_size;
     let t = free_on_consecutive_failures t (IsDDResFatal res);
     if \<not> IsDDResOK res \<and> at_track_deallocations t \<and> addr \<noteq> 0
     then map_option (\<lambda>(set, _). (t\<lparr>at_allocated_address_set := set\<rparr>, tls)) (bs_remove (at_allocated_address_set t) addr is_large_alloc)
     else Some (t, tls)
   }"

definition track_deallocation :: "AllocationTracker \<Rightarrow> 'g TrackerThreadLocalState \<Rightarrow> push_env \<Rightarrow> u64 \<Rightarrow> bool \<Rightarrow> AllocationTracker option" where
  "track_deallocation t tls env addr is_large_alloc = (
     if \<not> at_track_deallocations t then Some t
     else do {
       (set, removed) \<leftarrow> bs_remove (at_allocated_address_set t) addr is_large_alloc;
       let t = t\<lparr>at_allocated_address_set := set\<rparr>;
       if \<not> removed then Some t
       else do {
         (t, res) \<leftarrow> push_dealloc_sample t tls env addr;
         Some (free_on_consecutive_failures t (IsDDResFatal res))
       }
     })"

definition track_allocation_s :: "('g \<Rightarrow> u64 \<times> 'g) \<Rightarrow> AllocationTracker \<Rightarrow> 'g TrackerThreadLocalState \<Rightarrow> push_env \<Rightarrow> u64 \<Rightarrow> u64 \<Rightarrow> bool \<Rightarrow>
    (AllocationTracker \<times> 'g TrackerThreadLocalState) option" where
  "track_allocation_s draw t tls env addr n is_large_alloc = (
     if \<not> at_instance t then Some (t, tls)
     else
       let tls = tls\<lparr>tl_remaining_bytes := tl_remaining_bytes tls + n\<rparr> in
       if sint (tl_remaining_bytes tls) < 0 then Some (t, tls)
       else track_allocation draw t tls env addr is_large_alloc)"

definition track_deallocation_s :: "AllocationTracker \<Rightarrow> 'g TrackerThreadLocalState \<Rightarrow> push_env \<Rightarrow> u64 \<Rightarrow> bool \<Rightarrow> AllocationTracker option" where
  "track_deallocation_s t tls env addr is_large_alloc = (
     if \<not> at_instance t then Some t
     else if at_track_deallocations t then track_deallocation t tls env addr is_large_alloc
     else Some t)"

definition is_active :: "AllocationTracker \<Rightarrow> bool" where
  "is_active t = at_instance t"

definition is_deallocation_tracking_active :: "AllocationTracker \<Rightarrow> bool" where
  "is_deallocation_tracking_active t \<longleftrightarrow> at_instance t \<and> at_track_deallocations t"

section \<open>Start and stop\<close>

definition reset_pevent :: "AllocationTracker \<Rightarrow> AllocationTracker" where
  "reset_pevent t = (if at_mapfd t \<noteq> -1 then t\<lparr>at_fd := -1, at_mapfd := -1\<rparr> else t)"

definition init_tl_state_internal :: "('g \<Rightarrow> u64 \<times> 'g) \<Rightarrow> AllocationTracker \<Rightarrow> 'g \<Rightarrow> int \<Rightarrow> u64 \<times> u64 \<Rightarrow> 'g TrackerThreadLocalState" where
  "init_tl_state_internal draw t seed tid bounds = (
     let (interval, gen) = next_sample_interval draw t seed
     in \<lparr>tl_remaining_bytes = 0 - interval, tl_stack_begin = fst bounds, tl_stack_end = snd bounds, tl_gen = gen, tl_tid = tid,
         tl_reentry_guard = False, tl_allocation_allowed = True, tl_initialized = True\<rparr>)"

text \<open>
  The state of a thread, created on the first use. The result is absent when the state is not
  initialised and cannot be: there is no instance, or the thread is inside \<^verbatim>\<open>pthread_getattr_np\<close>.
\<close>

definition get_tl_state :: "('g \<Rightarrow> u64 \<times> 'g) \<Rightarrow> AllocationTracker \<Rightarrow> 'g TrackerThreadLocalState \<Rightarrow> bool \<Rightarrow> 'g \<Rightarrow> int \<Rightarrow> u64 \<times> u64 \<Rightarrow>
    'g TrackerThreadLocalState option" where
  "get_tl_state draw t tls init_if_not_initialized seed tid bounds = (
     if tl_initialized tls then Some tls
     else if init_if_not_initialized \<and> \<not> tl_reentry_guard tls \<and> at_instance t
     then Some (init_tl_state_internal draw t seed tid bounds)
     else None)"

definition notify_pthread_getattr_np :: "'g TrackerThreadLocalState \<Rightarrow> 'g TrackerThreadLocalState" where
  "notify_pthread_getattr_np tls = (if \<not> tl_initialized tls then tls\<lparr>tl_reentry_guard := True\<rparr> else tls)"

definition notify_pthread_getattr_np_end :: "'g TrackerThreadLocalState \<Rightarrow> 'g TrackerThreadLocalState" where
  "notify_pthread_getattr_np_end tls = (if \<not> tl_initialized tls then tls\<lparr>tl_reentry_guard := False\<rparr> else tls)"

text \<open>After a fork: the process of an active tracker and the thread are those of the child.\<close>

definition notify_fork :: "('g \<Rightarrow> u64 \<times> 'g) \<Rightarrow> AllocationTracker \<Rightarrow> 'g TrackerThreadLocalState \<Rightarrow> int \<Rightarrow> 'g \<Rightarrow> int \<Rightarrow> u64 \<times> u64 \<Rightarrow>
    AllocationTracker \<times> 'g TrackerThreadLocalState" where
  "notify_fork draw t tls pid seed tid bounds = (
     let t = (if at_instance t then t\<lparr>at_pid := pid\<rparr> else t)
     in case get_tl_state draw t tls True seed tid bounds of
          None \<Rightarrow> (t, tls)
        | Some tls \<Rightarrow> (t, tls\<lparr>tl_tid := tid\<rparr>))"

text \<open>
  The start. \<open>attached\<close> is the ring that attaching gives, absent on failure; the fraction of the ring for
  high-priority events is a tenth.
\<close>

record RingBufferInfo =
  ri_mem_size :: u64
  ri_ring_fd :: int
  ri_event_fd :: int
  ri_ring_buffer_type :: int

definition k_high_priority_event_count :: u64 where "k_high_priority_event_count = 10000"

definition tracker_init :: "AllocationTracker \<Rightarrow> u64 \<Rightarrow> bool \<Rightarrow> bool \<Rightarrow> u32 \<Rightarrow> RingBufferInfo \<Rightarrow> IntervalTimerCheck \<Rightarrow> RingBuffer option \<Rightarrow> int \<Rightarrow> int \<Rightarrow>
    AllocationTracker \<times> DDRes" where
  "tracker_init t interval deterministic track_deallocations stack_sample_size info timer attached now pid = (
     if ri_ring_buffer_type info \<noteq> 1 then (t, ddres_error DD_WHAT_PERFRB)
     else
       let t = (reset_pevent t)\<lparr>at_sampling_interval := interval, at_deterministic_sampling := deterministic,
                 at_stack_sample_size := stack_sample_size, at_high_priority_area_size := 0\<rparr>;
           t = (if track_deallocations
                then t\<lparr>at_allocated_address_set := bs_init 0,
                       at_high_priority_area_size := min (ri_mem_size info div 10) (k_high_priority_event_count * 40)\<rparr>
                else t);
           t = t\<lparr>at_fd := ri_event_fd info, at_mapfd := ri_ring_fd info\<rparr>
       in case attached of
            None \<Rightarrow> (t, ddres_error DD_WHAT_PERFRB)
          | Some rb \<Rightarrow>
              (t\<lparr>at_rb := rb, at_interval_timer_check := timer,
                 at_next_check_time := if tc_is_set timer
                   then now + (if tc_initial_delay timer \<noteq> 0 then tc_initial_delay timer else tc_interval timer) * 1000000
                   else time_point_max,
                 at_track_deallocations := track_deallocations, at_lost_alloc_count := 0, at_lost_dealloc_count := 0,
                 at_failure_count := 0, at_address_conflict_count := 0, at_pid := pid\<rparr>, ddres_init))"

definition kTrackDeallocations :: u32 where "kTrackDeallocations = 1"

definition kDeterministicSampling :: u32 where "kDeterministicSampling = 2"

definition allocation_tracking_init :: "AllocationTracker \<Rightarrow> u64 \<Rightarrow> u32 \<Rightarrow> u32 \<Rightarrow> RingBufferInfo \<Rightarrow> IntervalTimerCheck \<Rightarrow> RingBuffer option \<Rightarrow> int \<Rightarrow> int \<Rightarrow>
    AllocationTracker \<times> DDRes" where
  "allocation_tracking_init t rate flags stack_sample_size info timer attached now pid = (
     if at_instance t then (t, ddres_error DD_WHAT_UKNW)
     else
       let (t, res) = tracker_init t rate (flags AND kDeterministicSampling \<noteq> 0) (flags AND kTrackDeallocations \<noteq> 0)
             stack_sample_size info timer attached now pid
       in if IsDDResOK res then (t\<lparr>at_instance := True\<rparr>, ddres_init) else (t, res))"

definition allocation_tracking_free :: "AllocationTracker \<Rightarrow> AllocationTracker" where
  "allocation_tracking_free t = (if at_instance t then at_free t else t)"

definition tracker_destroy :: "AllocationTracker \<Rightarrow> push_io \<Rightarrow> AllocationTracker option" where
  "tracker_destroy t io = (if is_active t then map_option (at_free \<circ> fst) (push_allocation_tracker_state t io) else Some t)"

end
