(* ===== verification/Alloc_Tracker_Props.thy ===== *)
theory Alloc_Tracker_Props
  imports Alloc_Tracker Live_Alloc
begin

text \<open>
  Properties of the allocation tracker: every call returns, what it leaves in the ring decodes to
  what was recorded, sampling accounts for the bytes allocated, the set of tracked addresses agrees
  with the events, and with the live allocations of a profiler that receives them.
\<close>

section \<open>The ring under the tracker\<close>

definition rb_ok :: "nat \<Rightarrow> RingBuffer \<Rightarrow> bool" where
  "rb_ok k rb \<longleftrightarrow> 9 \<le> k \<and> rb_wf k rb \<and> rb_mirrored_mapping rb \<and> 8 dvd unat (rb_writer_pos rb)"

lemma dvd_unat_add: "8 dvd unat a \<Longrightarrow> 8 dvd unat b \<Longrightarrow> 8 dvd unat (a + b :: u64)"
proof -
  have d: "(8::nat) dvd 2 ^ 64" using le_imp_power_dvd[of 3 64 "2::nat"] by simp
  assume "8 dvd unat a" "8 dvd unat b"
  then show ?thesis unfolding unat_word_ariths using d by (simp add: dvd_mod)
qed

lemma dvd_align_up: "8 dvd unat (align_up x kRingBufferAlignment)"
  using unat_align_up[of 3 x] by (simp add: kRingBufferAlignment_def)

lemma reserve_ok:
  assumes ok: "rb_ok k rb"
  shows "\<exists>rb' buf timeout. mw_reserve lock rb writer n hp = Some (rb', buf, timeout) \<and> rb_ok k rb' \<and>
    (case buf of None \<Rightarrow> rb' = rb | Some b \<Rightarrow> \<exists>p. snd b = n \<and> fst b = (of_nat p AND rb_mask rb) + 8 \<and> 8 dvd p \<and> rb_mask rb' = rb_mask rb)"
proof -
  let ?w = "unat (rb_writer_pos rb)"
  have wf: "rb_wf k rb" and al: "8 dvd ?w" using ok by (auto simp: rb_ok_def)
  have st: "store_hdr rb (rb_writer_pos rb AND rb_mask rb) x = Some (rb\<lparr>rb_data := store_u64 (rb_data rb) ?w x\<rparr>)" for x
    using store_hdr_pos[OF wf al] by simp
  have "rb_ok k (rb\<lparr>rb_data := store_u64 (rb_data rb) ?w x, rb_writer_pos := rb_writer_pos rb + align_up (n + 8) kRingBufferAlignment\<rparr>)" for x
    using ok dvd_align_up dvd_unat_add by (auto simp: rb_ok_def)
  moreover have "\<exists>p. rb_writer_pos rb AND rb_mask rb = of_nat p AND rb_mask rb \<and> 8 dvd p"
    using al by (intro exI[of _ ?w]) simp
  ultimately show ?thesis using ok by (auto simp: mw_reserve_def Let_def st)
qed

lemma buffer_offset:
  assumes "rb_wf k rb"
  shows "unat ((of_nat p AND rb_mask rb) + 8) = p mod 2 ^ k + 8"
proof -
  note w = rb_wfD[OF assms]
  have "p mod 2 ^ k < 2 ^ k" by simp
  then have "p mod 2 ^ k + 8 < 2 ^ 62 + 8 + (0::nat)" using w(8) by linarith
  then have "p mod 2 ^ k + 8 < 2 ^ 64" by simp
  then show ?thesis using pos_index[of k p] w(2,5) unat_add_u64[of "of_nat p AND rb_mask rb" 8] by simp
qed

lemma store_pieces_ok:
  assumes "rb_ok k rb" "\<forall>pc\<in>set pieces. base + fst pc + length (snd pc) \<le> 2 * 2 ^ k"
  shows "\<exists>rb'. store_pieces rb base pieces = Some rb' \<and> rb_ok k rb' \<and> rb_mask rb' = rb_mask rb"
  using assms
proof (induction pieces arbitrary: rb)
  case (Cons pc pieces)
  obtain off bs where pc: "pc = (off, bs)" by (cases pc)
  have "rb_store rb (base + off) bs = Some (rb\<lparr>rb_data := wr (rb_data rb) (base + off) bs\<rparr>)"
    using Cons.prems rb_wfD(3)[of k rb] by (simp add: rb_store_def rb_ok_def pc)
  moreover have "rb_ok k (rb\<lparr>rb_data := wr (rb_data rb) (base + off) bs\<rparr>)" using Cons.prems(1) by (simp add: rb_ok_def)
  ultimately show ?case using Cons.IH[of "rb\<lparr>rb_data := wr (rb_data rb) (base + off) bs\<rparr>"] Cons.prems(2) pc by simp
qed simp

lemma commit_ok:
  assumes ok: "rb_ok k rb" and p: "8 dvd p"
  shows "\<exists>rb' w' notify. mw_commit rb writer ((of_nat p AND rb_mask rb) + 8, n) = Some (rb', w', notify) \<and> rb_ok k rb'"
proof -
  have wf: "rb_wf k rb" using ok by (simp add: rb_ok_def)
  show ?thesis using load_hdr_pos[OF wf p] store_hdr_pos[OF wf p] ok
    by (auto simp: mw_commit_def mw_commit_internal_def Let_def rb_ok_def)
qed

lemma commit_event_ok:
  assumes ok: "rb_ok k rb" and b: "fst buffer = (of_nat p AND rb_mask rb) + 8" "8 dvd p"
    and fit: "\<forall>pc\<in>set pieces. fst pc + length (snd pc) + 8 \<le> 2 ^ k"
  shows "\<exists>rb' r. commit_event t rb writer buffer pieces ev write_ok = Some (t\<lparr>at_rb := rb', at_history := at_history t @ [ev]\<rparr>, r) \<and>
    rb_ok k rb' \<and> (write_ok \<longrightarrow> IsDDResOK r) \<and> (r = ddres_init \<or> r = ddres_error DD_WHAT_PERFRB)"
proof -
  have wf: "rb_wf k rb" using ok by (simp add: rb_ok_def)
  have "p mod 2 ^ k < 2 ^ k" by simp
  then have "\<forall>pc\<in>set pieces. unat (fst buffer) + fst pc + length (snd pc) \<le> 2 * 2 ^ k"
  proof (intro ballI)
    fix pc assume "pc \<in> set pieces"
    then have "fst pc + length (snd pc) + 8 \<le> 2 ^ k" using fit by blast
    then show "unat (fst buffer) + fst pc + length (snd pc) \<le> 2 * 2 ^ k"
      using \<open>p mod 2 ^ k < 2 ^ k\<close> unfolding b(1) buffer_offset[OF wf] by linarith
  qed
  from store_pieces_ok[OF ok this] obtain rb1 where rb1: "store_pieces rb (unat (fst buffer)) pieces = Some rb1" "rb_ok k rb1" "rb_mask rb1 = rb_mask rb"
    by auto
  have "buffer = ((of_nat p AND rb_mask rb1) + 8, snd buffer)" using b(1) rb1(3) by (cases buffer) simp
  then obtain rb2 w2 notify where "mw_commit rb1 writer buffer = Some (rb2, w2, notify)" "rb_ok k rb2"
    using commit_ok[OF rb1(2) b(2), of writer "snd buffer"] by auto
  with rb1(1) show ?thesis by (auto simp: commit_event_def IsDDResOK_def ddres_init_def ddres_error_def)
qed

section \<open>Pushing events\<close>

text \<open>What a push leaves unchanged.\<close>

definition frame :: "AllocationTracker \<Rightarrow> AllocationTracker \<Rightarrow> bool" where
  "frame t t' \<longleftrightarrow> at_instance t' = at_instance t \<and> at_track_deallocations t' = at_track_deallocations t \<and>
     at_failure_count t' = at_failure_count t \<and> at_pid t' = at_pid t \<and> at_sampling_interval t' = at_sampling_interval t \<and>
     at_stack_sample_size t' = at_stack_sample_size t \<and> at_deterministic_sampling t' = at_deterministic_sampling t \<and>
     at_allocated_address_set t' = at_allocated_address_set t"

definition state_events :: "tracker_event list \<Rightarrow> bool" where
  "state_events es \<longleftrightarrow> (\<forall>e\<in>set es. \<exists>a b c d f. e = EvState a b c d f)"

lemma state_events_Nil [simp]: "state_events []" "\<exists>es. state_events es"
  by (auto simp: state_events_def intro: exI[of _ "[]"])

lemma push_state_ok:
  assumes ok: "rb_ok k (at_rb t)"
  shows "\<exists>t' r es. push_allocation_tracker_state t io = Some (t', r) \<and> rb_ok k (at_rb t') \<and> frame t t' \<and>
    at_history t' = at_history t @ es \<and> state_events es"
proof -
  have k: "(2::nat) ^ 9 \<le> 2 ^ k" using ok by (intro power_increasing) (auto simp: rb_ok_def)
  obtain rb' buf timeout where r: "mw_reserve (io_lock io) (at_rb t) (mw_init (at_rb t) (at_high_priority_area_size t)) 48 True = Some (rb', buf, timeout)"
    "rb_ok k rb'" "case buf of None \<Rightarrow> rb' = at_rb t | Some b \<Rightarrow> \<exists>p. snd b = 48 \<and> fst b = (of_nat p AND rb_mask (at_rb t)) + 8 \<and> 8 dvd p \<and> rb_mask rb' = rb_mask (at_rb t)"
    using reserve_ok[OF ok] by blast
  show ?thesis
  proof (cases buf)
    case None
    with r show ?thesis
      by (simp add: push_allocation_tracker_state_def Let_def) (auto simp: frame_def state_events_def)
  next
    case (Some b)
    then obtain p where p: "fst b = (of_nat p AND rb_mask rb') + 8" "8 dvd p" using r(3) by auto
    have len: "length (state_event pid now a1 a2 a3 a4 a5) = 44" for pid now a1 a2 a3 a4 a5
      by (simp add: state_event_def event_header_def header_bytes_def sample_id_bytes_def)
    let ?c = "at_address_conflict_count t" and ?n = "of_nat (bs_count (at_allocated_address_set t)) :: u32"
    let ?s = "of_nat (active_shards (at_allocated_address_set t)) :: u32"
    let ?a = "ucast (at_lost_alloc_count t) :: u32" and ?d = "ucast (at_lost_dealloc_count t) :: u32"
    let ?t = "t\<lparr>at_address_conflict_count := 0, at_lost_alloc_count := 0, at_lost_dealloc_count := 0\<rparr>"
    have "\<forall>pc\<in>set [(0, state_event (at_pid t) (io_now io) ?n ?c ?s ?a ?d)]. fst pc + length (snd pc) + 8 \<le> 2 ^ k" using k by (simp add: len)
    from commit_event_ok[OF r(2) p this, of ?t "mw_init (at_rb t) (at_high_priority_area_size t)" "EvState ?n ?c ?s ?a ?d" "io_write io"]
    show ?thesis using r(1) Some
      by (auto simp: push_allocation_tracker_state_def Let_def frame_def state_events_def)
  qed
qed

lemma check_timer_ok:
  assumes ok: "rb_ok k (at_rb t)"
  shows "\<exists>t' es. check_timer t tls now io = Some t' \<and> rb_ok k (at_rb t') \<and> frame t t' \<and> at_history t' = at_history t @ es \<and> state_events es"
proof (cases "tl_allocation_allowed tls \<and> at_next_check_time t < now \<and> tc_is_set (at_interval_timer_check t) \<and> tc_interval (at_interval_timer_check t) \<noteq> 0")
  case True
  let ?t = "t\<lparr>at_next_check_time := now + tc_interval (at_interval_timer_check t) * 1000000\<rparr>"
  have "rb_ok k (at_rb ?t)" using ok by simp
  from push_state_ok[OF this, of io] True show ?thesis
    by (auto simp: check_timer_def update_timer_def frame_def)
next
  case False
  then have "check_timer t tls now io = Some t \<or> check_timer t tls now io = Some (t\<lparr>at_next_check_time := time_point_max\<rparr>)"
    by (auto simp: check_timer_def update_timer_def)
  then show ?thesis using ok by (auto simp: frame_def state_events_def)
qed

lemma then_check_timer_ok:
  assumes "\<exists>rb' r. x = Some (t\<lparr>at_rb := rb', at_history := at_history t @ [ev]\<rparr>, r) \<and> rb_ok k rb' \<and> (w \<longrightarrow> IsDDResOK r) \<and>
      (r = ddres_init \<or> r = ddres_error DD_WHAT_PERFRB)"
  shows "\<exists>t' r es. then_check_timer x tls env = Some (t', r) \<and> rb_ok k (at_rb t') \<and> frame t t' \<and>
    at_history t' = at_history t @ ev # es \<and> state_events es \<and> (w \<longrightarrow> IsDDResOK r)"
proof -
  obtain rb' r where x: "x = Some (t\<lparr>at_rb := rb', at_history := at_history t @ [ev]\<rparr>, r)" "rb_ok k rb'" "w \<longrightarrow> IsDDResOK r" using assms by auto
  let ?t = "t\<lparr>at_rb := rb', at_history := at_history t @ [ev]\<rparr>"
  have "rb_ok k (at_rb ?t)" using x(2) by simp
  from check_timer_ok[OF this, of tls "io_now (pe_io env)" "pe_state env"] show ?thesis
    using x by (cases "IsDDResOK r") (auto simp: then_check_timer_def frame_def IsDDResOK_def ddres_init_def state_events_def)
qed

text \<open>What the environment of a push has to respect: registers in full, others keep the ring.\<close>

definition env_ok :: "nat \<Rightarrow> push_env \<Rightarrow> bool" where
  "env_ok k env \<longleftrightarrow> length (pe_regs env) = k_perf_register_count \<and> (\<forall>a\<in>set (pe_retries env). \<forall>rb. rb_ok k rb \<longrightarrow> rb_ok k (fst a rb))"

definition buffer_in :: "RingBuffer \<Rightarrow> u64 \<times> u64 \<Rightarrow> bool" where
  "buffer_in rb b \<longleftrightarrow> (\<exists>p. fst b = (of_nat p AND rb_mask rb) + 8 \<and> 8 dvd p)"

lemma reserve_buffer:
  assumes "rb_ok k rb"
  shows "\<exists>rb' buf timeout. mw_reserve lock rb writer n hp = Some (rb', buf, timeout) \<and> rb_ok k rb' \<and> (\<forall>b. buf = Some b \<longrightarrow> buffer_in rb' b)"
  using reserve_ok[OF assms, of lock writer n hp] by (auto simp: buffer_in_def split: option.splits) blast+

lemma retry_reserve_ok:
  assumes "rb_ok k rb" "\<forall>a\<in>set attempts. \<forall>rb. rb_ok k rb \<longrightarrow> rb_ok k (fst a rb)"
  shows "\<exists>rb' buf to'. retry_reserve writer n timeout attempts rb = Some (rb', buf, to') \<and> rb_ok k rb' \<and> (\<forall>b. buf = Some b \<longrightarrow> buffer_in rb' b)"
  using assms
proof (induction attempts arbitrary: rb)
  case (Cons a attempts)
  obtain f lock where a: "a = (f, lock)" by (cases a)
  have "rb_ok k (f rb)" using Cons.prems a by auto
  from reserve_buffer[OF this, of lock writer n True] obtain rb' buf t where r:
    "mw_reserve lock (f rb) writer n True = Some (rb', buf, t)" "rb_ok k rb'" "\<forall>b. buf = Some b \<longrightarrow> buffer_in rb' b" by auto
  show ?case
  proof (cases "buf \<noteq> None \<or> timeout \<or> t")
    case True
    then show ?thesis using r by (auto simp: a)
  next
    case False
    then show ?thesis using r Cons.IH[OF r(2)] Cons.prems(2) by (auto simp: a)
  qed
qed simp

lemma push_dealloc_ok:
  assumes ok: "rb_ok k (at_rb t)" and env: "env_ok k env"
  shows "\<exists>t' r es. push_dealloc_sample t tls env addr = Some (t', r) \<and> rb_ok k (at_rb t') \<and> frame t t' \<and> state_events es \<and>
    (at_history t' = at_history t @ EvDealloc addr # es \<or> at_history t' = at_history t @ LostDealloc addr # es)"
proof -
  let ?w = "mw_init (at_rb t) (at_high_priority_area_size t)"
  have k: "(2::nat) ^ 9 \<le> 2 ^ k" using ok by (intro power_increasing) (auto simp: rb_ok_def)
  obtain rb1 buf1 to1 where r1: "mw_reserve (io_lock (pe_io env)) (at_rb t) ?w 32 True = Some (rb1, buf1, to1)" "rb_ok k rb1"
    "\<forall>b. buf1 = Some b \<longrightarrow> buffer_in rb1 b" using reserve_buffer[OF ok] by blast
  define res where "res = (case buf1 of None \<Rightarrow> sleep_and_retry_reserve ?w 32 to1 (pe_retries env) rb1 | Some b \<Rightarrow> Some (rb1, buf1, to1))"
  have "\<exists>rb' buf to'. res = Some (rb', buf, to') \<and> rb_ok k rb' \<and> (\<forall>b. buf = Some b \<longrightarrow> buffer_in rb' b)"
  proof (cases buf1)
    case None
    have "\<forall>a\<in>set (take k_max_sleep_attempts (pe_retries env)). \<forall>rb. rb_ok k rb \<longrightarrow> rb_ok k (fst a rb)"
      using env by (auto simp: env_ok_def dest!: in_set_takeD)
    then show ?thesis using retry_reserve_ok[OF r1(2)] None by (simp add: res_def sleep_and_retry_reserve_def)
  next
    case (Some b)
    then show ?thesis using r1 by (auto simp: res_def)
  qed
  then obtain rb' buf to' where res: "res = Some (rb', buf, to')" "rb_ok k rb'" "\<forall>b. buf = Some b \<longrightarrow> buffer_in rb' b" by blast
  have push: "push_dealloc_sample t tls env addr = (case res of None \<Rightarrow> None
     | Some (rb, None, timeout) \<Rightarrow>
         Some (t\<lparr>at_rb := rb, at_lost_dealloc_count := at_lost_dealloc_count t + 1, at_history := at_history t @ [LostDealloc addr]\<rparr>,
               if timeout then ddres_error DD_WHAT_PERFRB else ddres_warn DD_WHAT_PERFRB)
     | Some (rb, Some buffer, timeout) \<Rightarrow>
         then_check_timer (commit_event t rb ?w buffer [(0, dealloc_event (at_pid t) (tl_tid tls) (io_now (pe_io env)) addr)]
           (EvDealloc addr) (io_write (pe_io env))) tls env)"
    using r1(1) by (cases buf1) (simp_all add: push_dealloc_sample_def Let_def res_def)
  show ?thesis
  proof (cases buf)
    case None
    then show ?thesis using res by (auto simp: push frame_def state_events_def)
  next
    case (Some b)
    then obtain p where p: "fst b = (of_nat p AND rb_mask rb') + 8" "8 dvd p" using res(3) by (auto simp: buffer_in_def)
    have "length (dealloc_event (at_pid t) (tl_tid tls) (io_now (pe_io env)) addr) = 32"
      by (simp add: dealloc_event_def event_header_def header_bytes_def sample_id_bytes_def)
    then have "\<forall>pc\<in>set [(0, dealloc_event (at_pid t) (tl_tid tls) (io_now (pe_io env)) addr)]. fst pc + length (snd pc) + 8 \<le> 2 ^ k"
      using k by simp
    from then_check_timer_ok[OF commit_event_ok[OF res(2) p this, of t ?w "EvDealloc addr" "io_write (pe_io env)"], of tls env]
    show ?thesis using Some res(1) by (auto simp: push)
  qed
qed

lemma sample_stack_size_le: "unat (sample_stack_size t tls base) \<le> unat (at_stack_sample_size t) + 7"
proof -
  define s where "s = nat (min (max (uint (tl_stack_end tls) - uint base + k_stack_margin) 0) (uint (at_stack_sample_size t)))"
  have s: "s \<le> unat (at_stack_sample_size t)" by (simp add: s_def nat_le_iff)
  also have "\<dots> < 2 ^ 32" using unsigned_less[of "at_stack_sample_size t"] by simp
  finally have s32: "s < 2 ^ 32" .
  have "of_int (min (max (uint (tl_stack_end tls) - uint base + k_stack_margin) 0) (uint (at_stack_sample_size t))) = (of_nat s :: u64)"
    by (simp add: s_def)
  then have e: "sample_stack_size t tls base = ucast (align_up (of_nat s) kRingBufferAlignment)"
    by (simp add: sample_stack_size_def Let_def kRingBufferAlignment_def)
  have "align_up (of_nat s) kRingBufferAlignment = of_nat (stride s)" using s32 by (intro align_up_stride) simp
  then have "unat (sample_stack_size t tls base) = unat (ucast (of_nat (stride s) :: u64) :: u32)" using e by simp
  also have "\<dots> = stride s mod 2 ^ 32" by (simp add: unsigned_ucast_eq unat_of_nat take_bit_eq_mod mod_mod_cancel)
  also have "\<dots> \<le> stride s" by simp
  finally show ?thesis using stride_le[of s] s by linarith
qed

lemma push_alloc_ok:
  assumes ok: "rb_ok k (at_rb t)" and env: "env_ok k env" and big: "unat (at_stack_sample_size t) + 240 \<le> 2 ^ k"
  shows "\<exists>t' r es. push_alloc_sample t tls env addr sz = Some (t', r) \<and> rb_ok k (at_rb t') \<and> frame t t' \<and> state_events es \<and>
    (at_history t' = at_history t @ EvAlloc addr sz # es \<and> (io_write (pe_io env) \<longrightarrow> IsDDResOK r) \<or>
     at_history t' = at_history t @ LostAlloc addr sz # es \<and> \<not> IsDDResOK r)"
proof -
  let ?w = "mw_init (at_rb t) (at_high_priority_area_size t)"
  let ?n = "sample_stack_size t tls (pe_stack_base env)"
  obtain rb' buf to' where r: "mw_reserve (io_lock (pe_io env)) (at_rb t) ?w (sizeof_allocation_event ?n) False = Some (rb', buf, to')" "rb_ok k rb'"
    "\<forall>b. buf = Some b \<longrightarrow> buffer_in rb' b" using reserve_buffer[OF ok] by blast
  show ?thesis
  proof (cases buf)
    case None
    then show ?thesis using r
      by (auto simp: push_alloc_sample_def Let_def frame_def state_events_def IsDDResOK_def ddres_error_def ddres_warn_def)
  next
    case (Some b)
    then obtain p where p: "fst b = (of_nat p AND rb_mask rb') + 8" "8 dvd p" using r(3) by (auto simp: buffer_in_def)
    let ?pcs = "alloc_event_pieces (at_pid t) (tl_tid tls) (io_now (pe_io env)) addr sz (pe_regs env) ?n (save_context tls env (unat ?n))"
    have "length (concat (map (\<lambda>w. le_bytes 8 (unat w)) (pe_regs env))) = 160"
      using env by (simp add: env_ok_def k_perf_register_count_def length_concat o_def sum_list_triv)
    moreover have "length (save_context tls env (unat ?n)) \<le> unat ?n" by (simp add: save_context_def save_stack_def)
    ultimately have "\<forall>pc\<in>set ?pcs. fst pc + length (snd pc) + 8 \<le> 2 ^ k"
      using big sample_stack_size_le[of t tls "pe_stack_base env"]
      by (auto simp: alloc_event_pieces_def event_header_def header_bytes_def sample_id_bytes_def)
    from then_check_timer_ok[OF commit_event_ok[OF r(2) p this, of t ?w "EvAlloc addr sz" "io_write (pe_io env)"], of tls env]
    show ?thesis using Some r(1) by (auto simp: push_alloc_sample_def Let_def)
  qed
qed

section \<open>Sampling\<close>

lemma sint_nonneg: "0 \<le> sint (w :: u64) \<longleftrightarrow> unat w < 2 ^ 63"
proof -
  have "sint w = signed_take_bit 63 (uint w)" by (simp add: sint_uint)
  then have "0 \<le> sint w \<longleftrightarrow> \<not> bit (uint w) 63" by (simp only: signed_take_bit_nonnegative_iff)
  also have "\<dots> \<longleftrightarrow> even (uint w div 2 ^ 63)" by (simp only: bit_iff_odd not_not)
  also have "\<dots> \<longleftrightarrow> uint w < 2 ^ 63"
  proof (cases "uint w < 2 ^ 63")
    case True
    then have "uint w div 2 ^ 63 = 0" by (intro div_pos_pos_trivial) simp_all
    then show ?thesis using True by simp
  next
    case False
    moreover have "uint w < 2 ^ 64" using uint_lt2p[of w] by simp
    ultimately have "uint w div 2 ^ 63 = 1"
      by (intro int_div_pos_eq[where r = "uint w - 2 ^ 63"]) simp_all
    then show ?thesis using False by simp
  qed
  also have "\<dots> \<longleftrightarrow> unat w < 2 ^ 63" by (simp only: uint_nat of_nat_less_numeral_power_cancel_iff)
  finally show ?thesis .
qed

lemma next_sample_interval_bounds:
  assumes "0 < at_sampling_interval t" "unat (at_sampling_interval t) \<le> 2 ^ 31"
  shows "0 < unat (fst (next_sample_interval draw t gen))" "unat (fst (next_sample_interval draw t gen)) < 2 ^ 63"
proof -
  let ?i = "at_sampling_interval t"
  have i: "0 < unat ?i" using assms(1) by (simp add: word_less_nat_alt)
  have m: "unat (?i * kMaxSamplingMultiplier) = unat ?i * 20"
    using assms(2) by (simp add: kMaxSamplingMultiplier_def unat_word_ariths)
  have "unat (max (min v (?i * kMaxSamplingMultiplier)) 8) < 2 ^ 63" for v
  proof -
    have "unat (min v (?i * kMaxSamplingMultiplier)) \<le> unat ?i * 20"
      using m by (simp add: min_def word_le_nat_alt)
    then show ?thesis using assms(2) by (simp add: max_def)
  qed
  moreover have "0 < unat (max (min v (?i * kMaxSamplingMultiplier)) (8 :: u64))" for v
    by (simp add: max_def word_le_nat_alt)
  ultimately show "0 < unat (fst (next_sample_interval draw t gen))" "unat (fst (next_sample_interval draw t gen)) < 2 ^ 63"
    using assms i by (auto simp: next_sample_interval_def case_prod_unfold Let_def)
qed

text \<open>The loop over the sampling intervals ends with a negative rest, after at most one round per byte.\<close>

lemma sample_loop_returns:
  assumes i: "0 < at_sampling_interval t" "unat (at_sampling_interval t) \<le> 2 ^ 31"
  shows "unat r < 2 ^ 63 \<Longrightarrow> \<exists>r' j gen'. sample_loop draw t r n gen = Some (r', n + of_nat (Suc j), gen') \<and> sint r' < 0 \<and> j \<le> unat r"
proof (induction "unat r" arbitrary: r n gen rule: less_induct)
  case less
  obtain d gen1 where d: "next_sample_interval draw t gen = (d, gen1)" by (cases "next_sample_interval draw t gen")
  have db: "0 < unat d" "unat d < 2 ^ 63" using next_sample_interval_bounds[OF i, of draw gen] by (simp_all add: d)
  show ?case
  proof (cases "0 \<le> sint (r - d)")
    case True
    have "d \<le> r"
    proof (rule ccontr)
      assume "\<not> d \<le> r"
      then have "unat (r - d) = unat r + 2 ^ 64 - unat d"
        by (simp add: unat_sub_if_size word_size word_le_nat_alt)
      then show False using True db less.prems unfolding sint_nonneg by simp
    qed
    then have lt: "unat (r - d) < unat r" using db unat_sub_u64[of d r] by (simp add: word_le_nat_alt)
    from less.hyps[OF lt, of "n + 1" gen1] True obtain r' j gen' where
      "sample_loop draw t (r - d) (n + 1) gen1 = Some (r', n + 1 + of_nat (Suc j), gen')" "sint r' < 0" "j \<le> unat (r - d)"
      by (auto simp: sint_nonneg)
    then show ?thesis using True lt
      by (subst sample_loop.simps) (auto simp: d intro!: exI[of _ "Suc j"])
  next
    case False
    then show ?thesis by (subst sample_loop.simps) (auto simp: d intro!: exI[of _ 0])
  qed
qed

lemma sampled_size_returns:
  assumes i: "0 < at_sampling_interval t" "unat (at_sampling_interval t) \<le> 2 ^ 31" and r: "unat (tl_remaining_bytes tls) < 2 ^ 63"
  shows "\<exists>total tls'. sampled_size draw t tls = Some (total, tls') \<and> sint (tl_remaining_bytes tls') < 0 \<and> total \<noteq> 0"
proof -
  let ?i = "at_sampling_interval t" and ?r = "tl_remaining_bytes tls"
  have i0: "0 < unat ?i" using i(1) by (simp add: word_less_nat_alt)
  have m: "unat (?r mod ?i) < unat ?i" using i0 by (simp add: unat_mod)
  then have "unat (?r mod ?i) < 2 ^ 63" using i(2) by simp
  from sample_loop_returns[OF i this, of draw "?r div ?i" "tl_gen tls"] obtain r' j gen' where
    l: "sample_loop draw t (?r mod ?i) (?r div ?i) (tl_gen tls) = Some (r', ?r div ?i + of_nat (Suc j), gen')" "sint r' < 0" "j \<le> unat (?r mod ?i)"
    by blast
  define q where "q = (unat ?r div unat ?i + Suc j) * unat ?i"
  have "of_nat (unat ?r div unat ?i) = ?r div ?i" by (simp only: flip: unat_div) simp
  then have w: "(?r div ?i + of_nat (Suc j)) * ?i = of_nat q" by (simp only: q_def of_nat_mult of_nat_add) simp
  have "Suc j * unat ?i \<le> 2 ^ 31 * 2 ^ 31" using l(3) m i(2) by (intro mult_mono) linarith+
  moreover have "unat ?r div unat ?i * unat ?i \<le> unat ?r" by simp
  moreover have "(2::nat) ^ 63 + 2 ^ 31 * 2 ^ 31 < 2 ^ 64" by simp
  ultimately have "q < 2 ^ 64" using r unfolding q_def add_mult_distrib by linarith
  then have "unat (of_nat q :: u64) = q" by (rule unat_of_nat_u64)
  moreover have "q \<noteq> 0" using i0 by (simp add: q_def)
  ultimately have "(?r div ?i + of_nat (Suc j)) * ?i \<noteq> 0" unfolding w by auto
  then show ?thesis using l i(1) by (auto simp: sampled_size_def Let_def)
qed

section \<open>Calls of the tracker\<close>

definition tracker_ok :: "nat \<Rightarrow> AllocationTracker \<Rightarrow> bool" where
  "tracker_ok k t \<longleftrightarrow> rb_ok k (at_rb t) \<and> (at_track_deallocations t \<longrightarrow> at_instance t \<and> bs_wf (at_allocated_address_set t)) \<and>
     0 < at_sampling_interval t \<and> unat (at_sampling_interval t) \<le> 2 ^ 31 \<and> unat (at_stack_sample_size t) + 240 \<le> 2 ^ k"

text \<open>The events about an address, and the sizes sampled, in a history.\<close>

definition sent :: "tracker_event list \<Rightarrow> u64 \<Rightarrow> nat" where
  "sent h a = length (filter (\<lambda>e. \<exists>sz. e = EvAlloc a sz) h)"

definition gone :: "tracker_event list \<Rightarrow> u64 \<Rightarrow> nat" where
  "gone h a = length (filter (\<lambda>e. e = EvDealloc a \<or> e = LostDealloc a) h)"

definition sampled_bytes :: "tracker_event list \<Rightarrow> nat" where
  "sampled_bytes h = sum_list (map (\<lambda>e. case e of EvAlloc a sz \<Rightarrow> unat sz | LostAlloc a sz \<Rightarrow> unat sz | _ \<Rightarrow> 0) h)"

lemma history_append [simp]:
  "sent (h @ h') a = sent h a + sent h' a" "gone (h @ h') a = gone h a + gone h' a"
  "sampled_bytes (h @ h') = sampled_bytes h + sampled_bytes h'"
  by (simp_all add: sent_def gone_def sampled_bytes_def)

lemma history_cons [simp]:
  "sent (e # h) a = of_bool (\<exists>sz. e = EvAlloc a sz) + sent h a" "gone (e # h) a = of_bool (e = EvDealloc a \<or> e = LostDealloc a) + gone h a"
  "sampled_bytes (e # h) = (case e of EvAlloc a sz \<Rightarrow> unat sz | LostAlloc a sz \<Rightarrow> unat sz | _ \<Rightarrow> 0) + sampled_bytes h"
  "sent [] a = 0" "gone [] a = 0" "sampled_bytes [] = 0"
  by (simp_all add: sent_def gone_def sampled_bytes_def)

lemma history_state [simp]:
  assumes "state_events es"
  shows "sent es a = 0" "gone es a = 0" "sampled_bytes es = 0"
  using assms by (induction es) (auto simp: state_events_def)

definition tracked_both :: "AllocationTracker \<Rightarrow> u64 \<Rightarrow> nat" where
  "tracked_both t a = tracked (at_allocated_address_set t) (a, False) + tracked (at_allocated_address_set t) (a, True)"

definition tracked_inv :: "AllocationTracker \<Rightarrow> bool" where
  "tracked_inv t \<longleftrightarrow> (at_track_deallocations t \<longrightarrow> (\<forall>a. a \<noteq> 0 \<longrightarrow> sent (at_history t) a = tracked_both t a + gone (at_history t) a))"

lemma free_on_failures_frame:
  "at_history (free_on_consecutive_failures t f) = at_history t" "at_rb (free_on_consecutive_failures t f) = at_rb t"
  "at_allocated_address_set (free_on_consecutive_failures t f) = at_allocated_address_set t"
  "at_sampling_interval (free_on_consecutive_failures t f) = at_sampling_interval t"
  "at_stack_sample_size (free_on_consecutive_failures t f) = at_stack_sample_size t"
  "at_deterministic_sampling (free_on_consecutive_failures t f) = at_deterministic_sampling t"
  by (auto simp: free_on_consecutive_failures_def at_free_def Let_def split: if_splits)

lemma free_on_failures_flags:
  "at_track_deallocations (free_on_consecutive_failures t f) \<longrightarrow> at_track_deallocations t \<and> at_instance (free_on_consecutive_failures t f) = at_instance t"
  "at_instance (free_on_consecutive_failures t f) \<longrightarrow> at_instance t"
  by (auto simp: free_on_consecutive_failures_def at_free_def Let_def split: if_splits)

text \<open>What a call does to the tracked addresses and to the history.\<close>

abbreviation tracked_in :: "AllocationTracker \<Rightarrow> u64 \<times> bool \<Rightarrow> nat" where
  "tracked_in t \<equiv> tracked (at_allocated_address_set t)"

definition dealloc_effect :: "AllocationTracker \<Rightarrow> AllocationTracker \<Rightarrow> u64 \<Rightarrow> bool \<Rightarrow> bool" where
  "dealloc_effect t t' addr l \<longleftrightarrow>
     at_history t' = at_history t \<and> (at_track_deallocations t' \<longrightarrow> tracked_in t (addr, l) = 0 \<and> tracked_in t' = tracked_in t) \<or>
     (\<exists>ev es. state_events es \<and> ev \<in> {EvDealloc addr, LostDealloc addr} \<and> at_history t' = at_history t @ ev # es) \<and>
       0 < tracked_in t (addr, l) \<and> tracked_in t' = (tracked_in t)((addr, l) := tracked_in t (addr, l) - 1)"

definition alloc_effect :: "AllocationTracker \<Rightarrow> AllocationTracker \<Rightarrow> u64 \<Rightarrow> bool \<Rightarrow> u64 \<Rightarrow> bool" where
  "alloc_effect t t' addr l sz \<longleftrightarrow> (\<exists>x ev es. state_events es \<and> at_history t' = at_history t @ ev # es \<and>
     ev \<in> {EvAlloc x sz, LostAlloc x sz} \<and>
     (at_track_deallocations t' \<longrightarrow>
        (x = 0 \<or> ev = LostAlloc addr sz) \<and> tracked_in t' = tracked_in t \<or>
        ev = EvAlloc addr sz \<and> tracked_in t' = (tracked_in t)((addr, l) := tracked_in t (addr, l) + 1)))"

definition keeps :: "AllocationTracker \<Rightarrow> AllocationTracker \<Rightarrow> bool" where
  "keeps t t' \<longleftrightarrow> at_sampling_interval t' = at_sampling_interval t \<and> at_deterministic_sampling t' = at_deterministic_sampling t \<and>
     (at_track_deallocations t' \<longrightarrow> at_track_deallocations t) \<and> (at_instance t' \<longrightarrow> at_instance t)"

lemma track_deallocation_step:
  assumes ok: "tracker_ok k t" and env: "env_ok k env" and a: "live addr"
  shows "\<exists>t'. track_deallocation t tls env addr l = Some t' \<and> tracker_ok k t' \<and> keeps t t' \<and> dealloc_effect t t' addr l"
proof (cases "at_track_deallocations t")
  case False
  then show ?thesis using ok by (auto simp: track_deallocation_def keeps_def dealloc_effect_def)
next
  case True
  let ?bs = "at_allocated_address_set t"
  have wf: "bs_wf ?bs" using ok True by (simp add: tracker_ok_def)
  from tracked_addresses.remove_law[OF wf, of "(addr, l)"] a obtain bs' where rm:
    "bs_remove ?bs addr l = Some (bs', 0 < tracked ?bs (addr, l))" "bs_wf bs'" "tracked bs' = (tracked ?bs)((addr, l) := tracked ?bs (addr, l) - 1)"
    by auto
  let ?t = "t\<lparr>at_allocated_address_set := bs'\<rparr>"
  show ?thesis
  proof (cases "0 < tracked ?bs (addr, l)")
    case False
    then have same: "tracked bs' = tracked ?bs" using rm(3) by auto
    have "track_deallocation t tls env addr l = Some ?t" using True False rm(1) by (simp add: track_deallocation_def)
    then show ?thesis using ok rm(2) same False by (auto simp: tracker_ok_def keeps_def dealloc_effect_def)
  next
    case pos: True
    have "rb_ok k (at_rb ?t)" using ok by (simp add: tracker_ok_def)
    from push_dealloc_ok[OF this env, of tls addr] obtain t1 r es where p:
      "push_dealloc_sample ?t tls env addr = Some (t1, r)" "rb_ok k (at_rb t1)" "frame ?t t1" "state_events es"
      "\<exists>ev. ev \<in> {EvDealloc addr, LostDealloc addr} \<and> at_history t1 = at_history t @ ev # es" by auto
    let ?t2 = "free_on_consecutive_failures t1 (IsDDResFatal r)"
    have run: "track_deallocation t tls env addr l = Some ?t2" using True pos rm(1) p(1) by (simp add: track_deallocation_def)
    have "tracker_ok k ?t2" using ok p(2,3) rm(2) free_on_failures_flags(1)[of t1] by (auto simp: tracker_ok_def free_on_failures_frame frame_def)
    moreover have "keeps t ?t2" using p(3) True free_on_failures_flags(2)[of t1] by (auto simp: keeps_def free_on_failures_frame frame_def)
    moreover have "dealloc_effect t ?t2 addr l"
      using p(3,4,5) rm(3) pos by (auto simp: dealloc_effect_def free_on_failures_frame frame_def)
    ultimately show ?thesis using run by blast
  qed
qed

lemma track_allocation_step:
  assumes ok: "tracker_ok k t" and env: "env_ok k env" and a: "live addr" and w: "io_write (pe_io env)"
    and r: "unat (tl_remaining_bytes tls) < 2 ^ 63"
  shows "\<exists>t' tls' total. track_allocation draw t tls env addr l = Some (t', tls') \<and> sampled_size draw t tls = Some (total, tls') \<and>
    sint (tl_remaining_bytes tls') < 0 \<and> total \<noteq> 0 \<and> tracker_ok k t' \<and> keeps t t' \<and> alloc_effect t t' addr l total"
proof -
  let ?bs = "at_allocated_address_set t"
  have a0: "addr \<noteq> 0" using a by (simp add: live_def empty_slot_def)
  from sampled_size_returns[of t tls draw] ok r obtain total tls' where
    s: "sampled_size draw t tls = Some (total, tls')" "sint (tl_remaining_bytes tls') < 0" "total \<noteq> 0" by (auto simp: tracker_ok_def)
  obtain t1 x where t1: "(if at_track_deallocations t
        then map_option (\<lambda>(set, added). let t = t\<lparr>at_allocated_address_set := set\<rparr> in
               if added then (t, addr) else (t\<lparr>at_address_conflict_count := at_address_conflict_count t + 1\<rparr>, 0)) (bs_add ?bs addr l)
        else Some (t, addr)) = Some (t1, x)"
    and t1ok: "tracker_ok k t1" "keeps t t1" "at_history t1 = at_history t" "at_track_deallocations t1 = at_track_deallocations t" "at_instance t1 = at_instance t"
    and t1x: "at_track_deallocations t \<longrightarrow> x = 0 \<and> tracked_in t1 = tracked ?bs \<or>
      x = addr \<and> tracked_in t1 = (tracked ?bs)((addr, l) := tracked ?bs (addr, l) + 1)"
  proof (cases "at_track_deallocations t")
    case False
    then show ?thesis using ok by (intro that[of t addr]) (auto simp: keeps_def)
  next
    case True
    have wf: "bs_wf ?bs" using ok True by (simp add: tracker_ok_def)
    from tracked_addresses.add_law[OF wf, of "(addr, l)"] a obtain bs' added where ad:
      "bs_add ?bs addr l = Some (bs', added)" "bs_wf bs'" "tracked bs' = (tracked ?bs)((addr, l) := tracked ?bs (addr, l) + of_bool added)" by auto
    show ?thesis
    proof (cases added)
      case True
      then show ?thesis using ok ad \<open>at_track_deallocations t\<close>
        by (intro that[of "t\<lparr>at_allocated_address_set := bs'\<rparr>" addr]) (auto simp: tracker_ok_def keeps_def)
    next
      case False
      then show ?thesis using ok ad \<open>at_track_deallocations t\<close>
        by (intro that[of "t\<lparr>at_allocated_address_set := bs', at_address_conflict_count := at_address_conflict_count t + 1\<rparr>" 0])
          (auto simp: tracker_ok_def keeps_def)
    qed
  qed
  have "rb_ok k (at_rb t1)" "unat (at_stack_sample_size t1) + 240 \<le> 2 ^ k" using t1ok(1) by (auto simp: tracker_ok_def)
  from push_alloc_ok[OF this(1) env this(2), of tls' x total] w obtain t2 res es ev where p:
    "push_alloc_sample t1 tls' env x total = Some (t2, res)" "rb_ok k (at_rb t2)" "frame t1 t2" "state_events es"
    "at_history t2 = at_history t @ ev # es" "ev = EvAlloc x total \<and> IsDDResOK res \<or> ev = LostAlloc x total \<and> \<not> IsDDResOK res"
    using t1ok(3) by auto
  let ?t3 = "free_on_consecutive_failures t2 (IsDDResFatal res)"
  have t3ok: "tracker_ok k ?t3" "at_history ?t3 = at_history t @ ev # es"
    and t3set: "at_allocated_address_set ?t3 = at_allocated_address_set t1"
    and t3track: "at_track_deallocations ?t3 \<longrightarrow> at_track_deallocations t"
    using t1ok p(2,3,5) free_on_failures_flags(1)[of t2] by (auto simp: tracker_ok_def free_on_failures_frame frame_def)
  have t3k: "keeps t ?t3" using t1ok(2,4,5) p(3) t3track free_on_failures_flags(2)[of t2] by (auto simp: keeps_def free_on_failures_frame frame_def)
  have run: "track_allocation draw t tls env addr l = (if \<not> IsDDResOK res \<and> at_track_deallocations ?t3 \<and> x \<noteq> 0
     then map_option (\<lambda>(set, _). (?t3\<lparr>at_allocated_address_set := set\<rparr>, tls')) (bs_remove (at_allocated_address_set ?t3) x l)
     else Some (?t3, tls'))"
    unfolding track_allocation_def s(1) bind.bind_lunit case_prod_conv t1 p(1) unfolding Let_def by (rule refl)
  show ?thesis
  proof (cases "\<not> IsDDResOK res \<and> at_track_deallocations ?t3 \<and> x \<noteq> 0")
    case False
    then have "track_allocation draw t tls env addr l = Some (?t3, tls')" using run by argo
    moreover have "alloc_effect t ?t3 addr l total"
      unfolding alloc_effect_def using t1x t3set t3track t3ok(2) p(4,6) False a0 by (intro exI[of _ x] exI[of _ ev] exI[of _ es]) auto
    ultimately show ?thesis using s t3ok(1) t3k by blast
  next
    case True
    then have x: "x = addr" and tr: "tracked_in t1 = (tracked ?bs)((addr, l) := tracked ?bs (addr, l) + 1)"
      using t1x t3track by auto
    have "bs_wf (at_allocated_address_set ?t3)" using t3ok(1) True by (simp add: tracker_ok_def)
    from tracked_addresses.remove_law[OF this, of "(addr, l)"] a obtain bs' b where rm:
      "bs_remove (at_allocated_address_set ?t3) addr l = Some (bs', b)" "bs_wf bs'" "tracked bs' = tracked ?bs"
      unfolding t3set tr by auto
    let ?t4 = "?t3\<lparr>at_allocated_address_set := bs'\<rparr>"
    have "track_allocation draw t tls env addr l = Some (?t4, tls')" using run True rm(1) x by simp
    moreover have "tracker_ok k ?t4" "keeps t ?t4" using t3ok t3k rm(2) by (auto simp: tracker_ok_def keeps_def)
    moreover have "alloc_effect t ?t4 addr l total"
      unfolding alloc_effect_def using p(4,6) True x t3ok(2) rm(3) by (intro exI[of _ x] exI[of _ ev] exI[of _ es]) simp
    ultimately show ?thesis using s by blast
  qed
qed

section \<open>Sequences of calls\<close>

datatype tracker_call = CallAlloc u64 u64 bool push_env | CallDealloc u64 bool push_env

fun perform :: "('g \<Rightarrow> u64 \<times> 'g) \<Rightarrow> AllocationTracker \<times> 'g TrackerThreadLocalState \<Rightarrow> tracker_call \<Rightarrow>
    (AllocationTracker \<times> 'g TrackerThreadLocalState) option" where
  "perform draw (t, tls) (CallAlloc addr n l env) = track_allocation_s draw t tls env addr n l"
| "perform draw (t, tls) (CallDealloc addr l env) = map_option (\<lambda>t. (t, tls)) (track_deallocation_s t tls env addr l)"

fun tracker_run :: "('g \<Rightarrow> u64 \<times> 'g) \<Rightarrow> AllocationTracker \<times> 'g TrackerThreadLocalState \<Rightarrow> tracker_call list \<Rightarrow>
    (AllocationTracker \<times> 'g TrackerThreadLocalState) option" where
  "tracker_run draw s [] = Some s"
| "tracker_run draw s (c # cs) = (case perform draw s c of None \<Rightarrow> None | Some s \<Rightarrow> tracker_run draw s cs)"

text \<open>Calls with addresses an allocator returns, on a ring that others keep, whose notifications succeed.\<close>

fun call_ok :: "nat \<Rightarrow> tracker_call \<Rightarrow> bool" where
  "call_ok k (CallAlloc addr n l env) \<longleftrightarrow> live addr \<and> env_ok k env \<and> io_write (pe_io env)"
| "call_ok k (CallDealloc addr l env) \<longleftrightarrow> live addr \<and> env_ok k env"

text \<open>The invariant that a step of the tracker keeps, in general and for programs that free what they allocate.\<close>

lemma run_invariant:
  assumes step: "\<And>t tls c cs. tracker_ok k t \<Longrightarrow> call_ok k c \<Longrightarrow> P t tls (c # cs) \<Longrightarrow>
      \<exists>t' tls'. perform draw (t, tls) c = Some (t', tls') \<and> tracker_ok k t' \<and> P t' tls' cs"
    and "tracker_ok k t" "\<forall>c\<in>set cs. call_ok k c" "P t tls cs"
  shows "\<exists>t' tls'. tracker_run draw (t, tls) cs = Some (t', tls') \<and> tracker_ok k t' \<and> P t' tls' []"
  using assms(2-)
proof (induction cs arbitrary: t tls)
  case (Cons c cs)
  from step[OF Cons.prems(1) _ Cons.prems(3)] Cons.prems(2) obtain t1 tls1 where
    1: "perform draw (t, tls) c = Some (t1, tls1)" "tracker_ok k t1" "P t1 tls1 cs" by auto
  from Cons.IH[OF 1(2) _ 1(3)] Cons.prems(2) 1(1) show ?case by auto
qed simp

lemma call_dealloc_step:
  assumes ok: "tracker_ok k t" and c: "call_ok k (CallDealloc addr l env)"
  shows "\<exists>t'. perform draw (t, tls) (CallDealloc addr l env) = Some (t', tls) \<and> tracker_ok k t' \<and> keeps t t' \<and> dealloc_effect t t' addr l"
proof (cases "at_track_deallocations t")
  case False
  then have "track_deallocation_s t tls env addr l = Some t" by (auto simp: track_deallocation_s_def)
  then show ?thesis using ok False by (auto simp: keeps_def dealloc_effect_def)
next
  case True
  then have "at_instance t" using ok by (simp add: tracker_ok_def)
  then have "track_deallocation_s t tls env addr l = track_deallocation t tls env addr l" using True by (simp add: track_deallocation_s_def)
  with track_deallocation_step[OF ok, of env addr tls l] c show ?thesis by auto
qed

lemma call_alloc_step:
  assumes ok: "tracker_ok k t" and c: "call_ok k (CallAlloc addr n l env)"
  shows "\<exists>t' tls'. perform draw (t, tls) (CallAlloc addr n l env) = Some (t', tls') \<and> tracker_ok k t' \<and> keeps t t' \<and>
    (\<not> at_instance t \<and> t' = t \<and> tls' = tls \<or>
     at_instance t \<and> sint (tl_remaining_bytes tls + n) < 0 \<and> t' = t \<and> tls' = tls\<lparr>tl_remaining_bytes := tl_remaining_bytes tls + n\<rparr> \<or>
     at_instance t \<and> 0 \<le> sint (tl_remaining_bytes tls + n) \<and>
      (\<exists>total. total \<noteq> 0 \<and> sampled_size draw t (tls\<lparr>tl_remaining_bytes := tl_remaining_bytes tls + n\<rparr>) = Some (total, tls') \<and> alloc_effect t t' addr l total))"
proof (cases "at_instance t \<and> 0 \<le> sint (tl_remaining_bytes tls + n)")
  case False
  then show ?thesis using ok by (auto simp: track_allocation_s_def Let_def keeps_def)
next
  case True
  let ?tls = "tls\<lparr>tl_remaining_bytes := tl_remaining_bytes tls + n\<rparr>"
  have "unat (tl_remaining_bytes ?tls) < 2 ^ 63" using True by (simp add: sint_nonneg)
  from track_allocation_step[OF ok _ _ _ this, of env addr draw l] c True show ?thesis
    by (auto simp: track_allocation_s_def Let_def)
qed

text \<open>The start: a tracker with deallocations tracked, on a ring it can use.\<close>

definition tracking_start :: "nat \<Rightarrow> AllocationTracker \<Rightarrow> bool" where
  "tracking_start k t \<longleftrightarrow> (\<exists>t0 rate flags stack_size info timer rb now pid.
     allocation_tracking_init t0 rate flags stack_size info timer (Some rb) now pid = (t, ddres_init) \<and> \<not> at_instance t0 \<and>
     at_history t0 = [] \<and> rb_ok k rb \<and> 0 < rate \<and> unat rate \<le> 2 ^ 31 \<and> unat stack_size + 240 \<le> 2 ^ k \<and>
     flags AND kTrackDeallocations \<noteq> 0)"

lemma tracking_startD:
  assumes "tracking_start k t"
  shows "tracker_ok k t" "at_history t = []" "at_instance t" "at_track_deallocations t" "tracked_in t = (\<lambda>_. 0)" "at_failure_count t = 0"
  using assms bs_init_wf[of 0]
  by (auto simp: tracking_start_def allocation_tracking_init_def tracker_init_def reset_pevent_def tracker_ok_def
    ddres_init_def ddres_error_def IsDDResOK_def Let_def fun_eq_iff split: if_splits)

lemma tracked_inv_step:
  assumes ok: "tracker_ok k t" "call_ok k c" and inv: "tracked_inv t"
  shows "\<exists>t' tls'. perform draw (t, tls) c = Some (t', tls') \<and> tracker_ok k t' \<and> tracked_inv t'"
proof (cases c)
  case (CallAlloc addr n l env)
  then have a0: "addr \<noteq> 0" using ok(2) by (auto simp: live_def empty_slot_def)
  from call_alloc_step[OF ok(1), of addr n l env draw tls] ok(2) CallAlloc obtain t' tls' where
    1: "perform draw (t, tls) c = Some (t', tls')" "tracker_ok k t'" "keeps t t'" "t' = t \<or> (\<exists>sz. alloc_effect t t' addr l sz)" by auto
  have "tracked_inv t'" if eff: "alloc_effect t t' addr l sz" for sz
  proof -
    obtain x ev es where e: "state_events es" "at_history t' = at_history t @ ev # es" "ev \<in> {EvAlloc x sz, LostAlloc x sz}"
      "at_track_deallocations t' \<longrightarrow> (x = 0 \<or> ev = LostAlloc addr sz) \<and> tracked_in t' = tracked_in t \<or>
        ev = EvAlloc addr sz \<and> tracked_in t' = (tracked_in t)((addr, l) := tracked_in t (addr, l) + 1)"
      using eff unfolding alloc_effect_def by blast
    have "sent (at_history t') a = tracked_both t' a + gone (at_history t') a" if tr: "at_track_deallocations t'" and a: "a \<noteq> 0" for a
    proof -
      have "sent (at_history t) a = tracked_both t a + gone (at_history t) a" using inv 1(3) tr a by (simp add: tracked_inv_def keeps_def)
      then show ?thesis using e tr a a0 by (cases l) (auto simp: tracked_both_def)
    qed
    then show ?thesis by (simp add: tracked_inv_def)
  qed
  then show ?thesis using 1 inv by auto
next
  case (CallDealloc addr l env)
  from call_dealloc_step[OF ok(1), of addr l env draw tls] ok(2) CallDealloc obtain t' where
    1: "perform draw (t, tls) c = Some (t', tls)" "tracker_ok k t'" "keeps t t'" "dealloc_effect t t' addr l" by auto
  have "sent (at_history t') a = tracked_both t' a + gone (at_history t') a" if tr: "at_track_deallocations t'" and a: "a \<noteq> 0" for a
  proof -
    have "sent (at_history t) a = tracked_both t a + gone (at_history t) a" using inv 1(3) tr a by (simp add: tracked_inv_def keeps_def)
    then show ?thesis using 1(4) tr by (cases l) (auto simp: tracked_both_def dealloc_effect_def)
  qed
  then show ?thesis using 1 by (auto simp: tracked_inv_def)
qed

section \<open>Properties\<close>


definition ex_ring :: RingBuffer where
  "ex_ring = \<lparr>rb_type = kMPSCRingBuffer, rb_mask = 511, rb_meta_size = 4096, rb_data_size = 512, rb_data = replicate 512 0,
     rb_mirrored_mapping = True, rb_writer_pos = 0, rb_reader_pos = 0, rb_intermediate_reader_pos = 0, rb_time_zero = 0,
     rb_time_mult = 0, rb_time_shift = 0, rb_perf_clock_source = 0, rb_tsc_available = False, rb_wrap_copy = None, rb_wrap_copy_capacity = 0\<rparr>"

definition ex_timer :: IntervalTimerCheck where
  "ex_timer = \<lparr>tc_callback = False, tc_initial_delay = 0, tc_interval = 0\<rparr>"

definition ex_stopped :: AllocationTracker where
  "ex_stopped = \<lparr>at_instance = False, at_track_deallocations = False, at_lost_alloc_count = 0, at_lost_dealloc_count = 0, at_failure_count = 0,
     at_address_conflict_count = 0, at_pid = 0, at_next_check_time = 0, at_sampling_interval = 0, at_stack_sample_size = 0, at_fd = -1,
     at_mapfd = -1, at_rb = ex_ring, at_deterministic_sampling = False, at_high_priority_area_size = 0,
     at_allocated_address_set = bs_init 0, at_interval_timer_check = ex_timer, at_history = []\<rparr>"

definition ex_info :: RingBufferInfo where
  "ex_info = \<lparr>ri_mem_size = 4608, ri_ring_fd = 3, ri_event_fd = 4, ri_ring_buffer_type = 1\<rparr>"

definition ex_tracker :: AllocationTracker where
  "ex_tracker = fst (allocation_tracking_init ex_stopped 8 3 64 ex_info ex_timer (Some ex_ring) 0 7)"

definition ex_env :: push_env where
  "ex_env = \<lparr>pe_io = \<lparr>io_lock = True, io_now = 5, io_write = True\<rparr>, pe_retries = [(\<lambda>rb. rb\<lparr>rb_reader_pos := rb_writer_pos rb\<rparr>, True)],
     pe_state = \<lparr>io_lock = True, io_now = 6, io_write = True\<rparr>, pe_stack_base = 0, pe_regs = replicate 20 0, pe_stack = \<lambda>_. 0\<rparr>"

lemma ex_ring_ok: "rb_ok 9 ex_ring"
  by (simp add: rb_ok_def rb_wf_def ex_ring_def)

lemma ex_stopped_simps [simp]: "\<not> at_instance ex_stopped" "at_history ex_stopped = []"
  by (simp_all add: ex_stopped_def)

lemma ex_tracker_init: "allocation_tracking_init ex_stopped 8 3 64 ex_info ex_timer (Some ex_ring) 0 7 = (ex_tracker, ddres_init)"
proof -
  have "snd (tracker_init ex_stopped r d f n ex_info ex_timer (Some ex_ring) 0 7) = ddres_init" for r d f n
    by (simp add: tracker_init_def ex_info_def Let_def)
  then have "snd (allocation_tracking_init ex_stopped 8 3 64 ex_info ex_timer (Some ex_ring) 0 7) = ddres_init"
    by (simp add: allocation_tracking_init_def case_prod_unfold Let_def IsDDResOK_def ddres_init_def)
  then show ?thesis by (simp add: prod_eq_iff ex_tracker_def)
qed

lemma ex_tracker_start: "tracking_start 9 ex_tracker"
proof -
  have "(3 :: u32) AND kTrackDeallocations \<noteq> 0" by (simp add: kTrackDeallocations_def)
  then show ?thesis unfolding tracking_start_def using ex_tracker_init ex_ring_ok
    by (intro exI[of _ ex_stopped] exI[of _ 8] exI[of _ 3] exI[of _ 64] exI[of _ ex_info] exI[of _ ex_timer] exI[of _ ex_ring] exI[of _ 0] exI[of _ 7]) simp
qed

lemma ex_env_ok: "env_ok 9 ex_env"
  by (simp add: env_ok_def ex_env_def k_perf_register_count_def rb_ok_def)

definition ex_calls :: "tracker_call list" where
  "ex_calls = [CallAlloc 4096 20 False ex_env, CallAlloc 8192 4 False ex_env, CallDealloc 4096 False ex_env]"

lemma ex_calls_ok: "\<forall>c\<in>set ex_calls. call_ok 9 c"
  using ex_env_ok by (simp add: ex_calls_def live_def empty_slot_def deleted_slot_def ex_env_def)


text \<open>
  A program allocates addresses that are not in use and frees them with the kind they were
  allocated with; \<open>heap\<close> is what it has allocated.
\<close>

fun program_ok :: "(u64 \<rightharpoonup> bool) \<Rightarrow> tracker_call list \<Rightarrow> bool" where
  "program_ok heap [] \<longleftrightarrow> True"
| "program_ok heap (CallAlloc addr n l env # cs) \<longleftrightarrow> heap addr = None \<and> program_ok (heap(addr \<mapsto> l)) cs"
| "program_ok heap (CallDealloc addr l env # cs) \<longleftrightarrow> heap addr = Some l \<and> program_ok (heap(addr := None)) cs"

text \<open>The operations on live allocations that the profiler performs for the events of a history;
  \<open>uo i\<close> is the stack it unwinds for the \<open>i\<close>-th event.\<close>

fun live_op_of :: "UnwindOutput \<Rightarrow> nat \<Rightarrow> pid_t \<Rightarrow> tracker_event \<Rightarrow> live_op list" where
  "live_op_of uo pos pid (EvAlloc a sz) = (if a = 0 then [] else [Allocate uo a sz pos pid])"
| "live_op_of uo pos pid (EvDealloc a) = [Deallocate a pos pid]"
| "live_op_of uo pos pid EvClear = [ClearPidForWatcher pos pid]"
| "live_op_of uo pos pid (EvState n c s x y) = [LibraryState pos pid c n]"
| "live_op_of uo pos pid (LostAlloc a sz) = []"
| "live_op_of uo pos pid (LostDealloc a) = []"

definition live_ops :: "(nat \<Rightarrow> UnwindOutput) \<Rightarrow> nat \<Rightarrow> pid_t \<Rightarrow> tracker_event list \<Rightarrow> live_op list" where
  "live_ops uo pos pid h = concat (map (\<lambda>(i, e). live_op_of (uo i) pos pid e) (enumerate 0 h))"

definition live_of :: "(nat \<Rightarrow> UnwindOutput) \<Rightarrow> nat \<Rightarrow> pid_t \<Rightarrow> tracker_event list \<Rightarrow> live_map" where
  "live_of uo pos pid h = sp_live (foldl spec_apply spec_init (live_ops uo pos pid h)) pos pid"

lemma live_of_simps:
  assumes "\<forall>i. uo_locs (uo i) \<noteq> []"
  shows "live_of uo pos pid [] = Map.empty"
    "live_of uo pos pid (h @ [EvAlloc a sz]) = (if a = 0 then live_of uo pos pid h else (live_of uo pos pid h)(a \<mapsto> (uo (length h), sz)))"
    "live_of uo pos pid (h @ [EvDealloc a]) = (live_of uo pos pid h)(a := None)"
    "live_of uo pos pid (h @ [LostAlloc a sz]) = live_of uo pos pid h"
  using assms by (simp_all add: live_of_def live_ops_def enumerate_append_eq spec_update_def spec_init_def)

lemma live_of_state: "state_events es \<Longrightarrow> live_of uo pos pid (h @ es) = live_of uo pos pid h"
proof (induction es rule: rev_induct)
  case (snoc e es)
  then obtain n c s x y where "e = EvState n c s x y" by (auto simp: state_events_def)
  then have "live_of uo pos pid ((h @ es) @ [e]) = live_of uo pos pid (h @ es)" by (simp add: live_of_def live_ops_def enumerate_append_eq)
  then show ?case using snoc by (simp add: state_events_def)
qed simp

lemma live_of_event: "state_events es \<Longrightarrow> live_of uo pos pid (h @ ev # es) = live_of uo pos pid (h @ [ev])"
  using live_of_state[of es uo pos pid "h @ [ev]"] by simp

text \<open>For such a program, and when no deallocation event was lost, the live addresses are the tracked ones.\<close>

definition no_lost_dealloc :: "tracker_event list \<Rightarrow> bool" where
  "no_lost_dealloc h \<longleftrightarrow> (\<forall>a. LostDealloc a \<notin> set h)"

definition program_inv :: "(nat \<Rightarrow> UnwindOutput) \<Rightarrow> nat \<Rightarrow> pid_t \<Rightarrow> (u64 \<rightharpoonup> bool) \<Rightarrow> AllocationTracker \<Rightarrow> bool" where
  "program_inv uo pos pid heap t \<longleftrightarrow> heap 0 = None \<and> (\<forall>a sz. EvAlloc a sz \<in> set (at_history t) \<longrightarrow> sz \<noteq> 0) \<and>
     (at_track_deallocations t \<and> no_lost_dealloc (at_history t) \<longrightarrow>
       (\<forall>a l. tracked_in t (a, l) \<le> of_bool (heap a = Some l)) \<and>
       (\<forall>a. a \<in> dom (live_of uo pos pid (at_history t)) \<longleftrightarrow> 0 < tracked_both t a))"

lemma state_events_mem: "state_events es \<Longrightarrow> EvAlloc a s \<notin> set es" "state_events es \<Longrightarrow> LostDealloc a \<notin> set es"
  by (auto simp: state_events_def)

lemma program_inv_alloc:
  assumes inv: "program_inv uo pos pid heap t" and uo: "\<forall>i. uo_locs (uo i) \<noteq> []" and a: "live addr" "heap addr = None"
    and k: "keeps t t'" and eff: "alloc_effect t t' addr l sz" "sz \<noteq> 0"
  shows "program_inv uo pos pid (heap(addr \<mapsto> l)) t'"
proof -
  have a0: "addr \<noteq> 0" using a(1) by (simp add: live_def empty_slot_def)
  obtain x ev es where e: "state_events es" "at_history t' = at_history t @ ev # es" "ev \<in> {EvAlloc x sz, LostAlloc x sz}"
    "at_track_deallocations t' \<longrightarrow> (x = 0 \<or> ev = LostAlloc addr sz) \<and> tracked_in t' = tracked_in t \<or>
      ev = EvAlloc addr sz \<and> tracked_in t' = (tracked_in t)((addr, l) := tracked_in t (addr, l) + 1)"
    using eff(1) unfolding alloc_effect_def by blast
  have h0: "\<forall>a s. EvAlloc a s \<in> set (at_history t) \<longrightarrow> s \<noteq> 0" using inv by (simp add: program_inv_def)
  then have "\<forall>a s. EvAlloc a s \<in> set (at_history t') \<longrightarrow> s \<noteq> 0"
    using e(2,3) eff(2) state_events_mem(1)[OF e(1)] by simp blast
  moreover have "(\<forall>a m. tracked_in t' (a, m) \<le> of_bool ((heap(addr \<mapsto> l)) a = Some m)) \<and>
      (\<forall>a. a \<in> dom (live_of uo pos pid (at_history t')) \<longleftrightarrow> 0 < tracked_both t' a)"
    if tr: "at_track_deallocations t'" and nl: "no_lost_dealloc (at_history t')"
  proof -
    have I: "\<forall>a m. tracked_in t (a, m) \<le> of_bool (heap a = Some m)"
        "\<forall>a. a \<in> dom (live_of uo pos pid (at_history t)) \<longleftrightarrow> 0 < tracked_both t a"
    proof -
      have "at_track_deallocations t" using k tr by (simp add: keeps_def)
      moreover have "no_lost_dealloc (at_history t)" using nl e(2) by (simp add: no_lost_dealloc_def)
      ultimately show "\<forall>a m. tracked_in t (a, m) \<le> of_bool (heap a = Some m)"
        "\<forall>a. a \<in> dom (live_of uo pos pid (at_history t)) \<longleftrightarrow> 0 < tracked_both t a"
        using inv unfolding program_inv_def by blast+
    qed
    have z: "tracked_in t (addr, m) = 0" for m using I(1)[rule_format, of addr m] a(2) by simp
    have le: "tracked_in t (b, m) \<le> of_bool (heap b = Some m)" for b m using I(1) by blast
    from e(4) tr consider "(x = 0 \<or> ev = LostAlloc addr sz)" "tracked_in t' = tracked_in t"
      | "ev = EvAlloc addr sz" "tracked_in t' = (tracked_in t)((addr, l) := tracked_in t (addr, l) + 1)" by blast
    then show ?thesis
    proof cases
      case 1
      from 1(1) e(3) have "ev = EvAlloc 0 sz \<or> (\<exists>y. ev = LostAlloc y sz)" by blast
      then have "live_of uo pos pid (at_history t') = live_of uo pos pid (at_history t)"
        unfolding e(2) live_of_event[OF e(1)] using live_of_simps(2,4)[OF uo] by (elim disjE exE) simp_all
      moreover have "tracked_in t' (b, m) \<le> of_bool ((heap(addr \<mapsto> l)) b = Some m)" for b m
        using le[of b m] z 1(2) by (cases "b = addr") auto
      ultimately show ?thesis using I(2) 1(2) by (simp add: tracked_both_def)
    next
      case 2
      have "live_of uo pos pid (at_history t') = (live_of uo pos pid (at_history t))(addr \<mapsto> (uo (length (at_history t)), sz))"
        unfolding e(2) live_of_event[OF e(1)] 2(1) live_of_simps(2)[OF uo] using a0 by simp
      moreover have "tracked_in t' (b, m) \<le> of_bool ((heap(addr \<mapsto> l)) b = Some m)" for b m
        using le[of b m] z 2(2) by (cases "b = addr") auto
      moreover have "0 < tracked_both t' b \<longleftrightarrow> b = addr \<or> 0 < tracked_both t b" for b
        using 2(2) by (cases l) (auto simp: tracked_both_def)
      ultimately show ?thesis using I(2) by simp
    qed
  qed
  moreover have "(heap(addr \<mapsto> l)) 0 = None" using inv a0 by (simp add: program_inv_def)
  ultimately show ?thesis unfolding program_inv_def by blast
qed

lemma program_inv_dealloc:
  assumes inv: "program_inv uo pos pid heap t" and uo: "\<forall>i. uo_locs (uo i) \<noteq> []" and a: "heap addr = Some l"
    and k: "keeps t t'" and eff: "dealloc_effect t t' addr l"
  shows "program_inv uo pos pid (heap(addr := None)) t'"
proof -
  have h0: "\<forall>a s. EvAlloc a s \<in> set (at_history t) \<longrightarrow> s \<noteq> 0" using inv by (simp add: program_inv_def)
  have "EvAlloc b s \<in> set (at_history t') \<Longrightarrow> EvAlloc b s \<in> set (at_history t)" for b s
    using eff state_events_mem(1) by (auto simp: dealloc_effect_def)
  with h0 have "\<forall>a s. EvAlloc a s \<in> set (at_history t') \<longrightarrow> s \<noteq> 0" by blast
  moreover have "(\<forall>a m. tracked_in t' (a, m) \<le> of_bool ((heap(addr := None)) a = Some m)) \<and>
      (\<forall>a. a \<in> dom (live_of uo pos pid (at_history t')) \<longleftrightarrow> 0 < tracked_both t' a)"
    if tr: "at_track_deallocations t'" and nl: "no_lost_dealloc (at_history t')"
  proof -
    have "set (at_history t) \<subseteq> set (at_history t')" using eff by (auto simp: dealloc_effect_def)
    then have nl0: "no_lost_dealloc (at_history t)" using nl by (auto simp: no_lost_dealloc_def)
    have I: "\<forall>a m. tracked_in t (a, m) \<le> of_bool (heap a = Some m)"
        "\<forall>a. a \<in> dom (live_of uo pos pid (at_history t)) \<longleftrightarrow> 0 < tracked_both t a"
      using inv k tr nl0 unfolding program_inv_def keeps_def by blast+
    have le: "tracked_in t (b, m) \<le> of_bool (heap b = Some m)" for b m using I(1) by blast
    have zl: "tracked_in t (addr, \<not> l) = 0" using le[of addr "\<not> l"] a by simp
    from eff tr consider "at_history t' = at_history t" "tracked_in t (addr, l) = 0" "tracked_in t' = tracked_in t"
      | ev es where "state_events es" "ev \<in> {EvDealloc addr, LostDealloc addr}" "at_history t' = at_history t @ ev # es"
        "tracked_in t' = (tracked_in t)((addr, l) := tracked_in t (addr, l) - 1)"
      by (auto simp: dealloc_effect_def)
    then show ?thesis
    proof cases
      case 1
      have "tracked_in t' (b, m) \<le> of_bool ((heap(addr := None)) b = Some m)" for b m
        using le[of b m] 1(2,3) zl by (cases "b = addr"; cases "m = l") auto
      then show ?thesis using I(2) 1 by (simp add: tracked_both_def)
    next
      case 2
      then have "ev = EvDealloc addr" using nl by (auto simp: no_lost_dealloc_def)
      then have "live_of uo pos pid (at_history t') = (live_of uo pos pid (at_history t))(addr := None)"
        unfolding 2(3) live_of_event[OF 2(1)] by (simp add: live_of_simps(3)[OF uo])
      moreover have l1: "tracked_in t (addr, l) \<le> 1" using le[of addr l] a by simp
      have "tracked_in t' (b, m) \<le> of_bool ((heap(addr := None)) b = Some m)" for b m
        using le[of b m] l1 2(4) zl by (cases "b = addr"; cases "m = l") auto
      moreover have "0 < tracked_both t' b \<longleftrightarrow> 0 < tracked_both t b \<and> b \<noteq> addr" for b
        using 2(4) l1 zl by (cases l) (auto simp: tracked_both_def)
      ultimately show ?thesis using I(2) by simp
    qed
  qed
  moreover have "(heap(addr := None)) 0 = None" using inv by (simp add: program_inv_def)
  ultimately show ?thesis unfolding program_inv_def by blast
qed

lemma program_inv_more:
  assumes inv: "program_inv uo pos pid heap t" and a: "live addr" "heap addr = None"
  shows "program_inv uo pos pid (heap(addr \<mapsto> l)) t"
proof -
  have "of_bool (heap b = Some m) \<le> (of_bool ((heap(addr \<mapsto> l)) b = Some m) :: nat)" for b m using a(2) by simp
  then have "(\<forall>b m. tracked_in t (b, m) \<le> of_bool (heap b = Some m)) \<longrightarrow>
      (\<forall>b m. tracked_in t (b, m) \<le> of_bool ((heap(addr \<mapsto> l)) b = Some m))"
    by (blast intro: order_trans)
  moreover have "addr \<noteq> 0" using a(1) by (simp add: live_def empty_slot_def)
  ultimately show ?thesis using inv unfolding program_inv_def by simp
qed

lemma program_inv_step:
  assumes ok: "tracker_ok k t" "call_ok k c" and uo: "\<forall>i. uo_locs (uo i) \<noteq> []"
    and P: "\<exists>heap. program_ok heap (c # cs) \<and> program_inv uo pos pid heap t"
  shows "\<exists>t' tls'. perform draw (t, tls) c = Some (t', tls') \<and> tracker_ok k t' \<and>
    (\<exists>heap. program_ok heap cs \<and> program_inv uo pos pid heap t')"
proof (cases c)
  case (CallAlloc addr n l env)
  from P CallAlloc obtain heap where h: "heap addr = None" "program_ok (heap(addr \<mapsto> l)) cs" "program_inv uo pos pid heap t" by auto
  have a: "live addr" using ok(2) CallAlloc by simp
  from call_alloc_step[OF ok(1), of addr n l env draw tls] ok(2) CallAlloc obtain t' tls' where
    1: "perform draw (t, tls) c = Some (t', tls')" "tracker_ok k t'" "keeps t t'"
      "t' = t \<or> (\<exists>sz. sz \<noteq> 0 \<and> alloc_effect t t' addr l sz)" by auto
  have "program_inv uo pos pid (heap(addr \<mapsto> l)) t'"
    using 1(4) program_inv_more[OF h(3) a h(1)] program_inv_alloc[OF h(3) uo a h(1) 1(3)] by blast
  then show ?thesis using 1(1,2) h(2) by blast
next
  case (CallDealloc addr l env)
  from P CallDealloc obtain heap where h: "heap addr = Some l" "program_ok (heap(addr := None)) cs" "program_inv uo pos pid heap t" by auto
  from call_dealloc_step[OF ok(1), of addr l env draw tls] ok(2) CallDealloc obtain t' where
    1: "perform draw (t, tls) c = Some (t', tls)" "tracker_ok k t'" "keeps t t'" "dealloc_effect t t' addr l" by auto
  then show ?thesis using program_inv_dealloc[OF h(3) uo h(1) 1(3,4)] h(2) by blast
qed

lemma live_ops_ok:
  assumes "\<forall>a sz. EvAlloc a sz \<in> set h \<longrightarrow> sz \<noteq> 0"
  shows "\<forall>x\<in>set (live_ops uo pos pid h). op_ok x"
proof -
  have "op_ok x" if "e \<in> set h" "x \<in> set (live_op_of u pos pid e)" for e u x
    using that assms by - (cases e, auto split: if_splits)
  then show ?thesis by (fastforce simp: live_ops_def set_zip in_set_conv_nth enumerate_eq_zip)
qed

text \<open>The profiler's table at the end of such a program.\<close>

lemma program_inv_agreement:
  assumes "program_inv uo pos pid heap t"
  shows "at_track_deallocations t \<and> no_lost_dealloc (at_history t) \<longrightarrow>
    (\<exists>la. live_run init_LiveAllocation (live_ops uo pos pid (at_history t)) = Some la \<and>
      (\<forall>a. a \<in> dom (map_of (ps_address_map (pid_stacks la pos pid))) \<longleftrightarrow> 0 < tracked_both t a))"
proof -
  have "\<forall>x\<in>set (live_ops uo pos pid (at_history t)). op_ok x" using assms live_ops_ok unfolding program_inv_def by blast
  from live_run_sim[OF live_sim_init this] obtain la where
    la: "live_run init_LiveAllocation (live_ops uo pos pid (at_history t)) = Some la"
      "live_rel (live_of uo pos pid (at_history t)) (pid_stacks la pos pid)" by (auto simp: live_sim_def live_of_def)
  have "dom (map_of (ps_address_map (pid_stacks la pos pid))) = dom (live_of uo pos pid (at_history t))"
    using la(2) by (auto simp: live_rel_def)
  then show ?thesis using assms la(1) unfolding program_inv_def by auto
qed

lemma program_inv_start:
  assumes "tracking_start k t" "\<forall>i. uo_locs (uo i) \<noteq> []"
  shows "program_inv uo pos pid Map.empty t"
  using tracking_startD[OF assms(1)] live_of_simps(1)[OF assms(2)] by (simp add: program_inv_def tracked_both_def)



end
