(* ===== verification/Alloc_Sampling.thy ===== *)
theory Alloc_Sampling
  imports Alloc_Tracker_Props
begin

text \<open>
  What the tracker samples, and how it fails: with deterministic sampling the sampled sizes
  account for every byte allocated up to one interval; the tracker stops exactly after a run of
  consecutive failures; and waiting for room in the ring cannot help.
\<close>

section \<open>Deterministic sampling\<close>

lemma sint_word_of_int: "- (2 ^ 63) \<le> x \<Longrightarrow> x < 2 ^ 63 \<Longrightarrow> sint (word_of_int x :: u64) = x"
  by (simp add: sint_uint unsigned_of_int signed_take_bit_take_bit signed_take_bit_int_eq_self)

lemma sint_difference: "a < 2 ^ 63 \<Longrightarrow> b \<le> a + 2 ^ 63 \<Longrightarrow> sint (word_of_int (int a - int b) :: u64) = int a - int b"
  by (rule sint_word_of_int) simp_all

lemma unat_word_of_int: "0 \<le> x \<Longrightarrow> x < 2 ^ 63 \<Longrightarrow> unat (word_of_int x :: u64) = nat x"
  by (simp add: unsigned_of_int take_bit_int_eq_self)

fun alloc_bytes :: "tracker_call list \<Rightarrow> nat" where
  "alloc_bytes [] = 0"
| "alloc_bytes (CallAlloc addr n l env # cs) = unat n + alloc_bytes cs"
| "alloc_bytes (CallDealloc addr l env # cs) = alloc_bytes cs"

text \<open>After \<open>bytes\<close> bytes, \<open>q\<close> whole intervals were sampled and the counter is at the distance to the next.\<close>

definition sampling_inv :: "nat \<Rightarrow> nat \<Rightarrow> AllocationTracker \<Rightarrow> 'g TrackerThreadLocalState \<Rightarrow> bool" where
  "sampling_inv i bytes t tls \<longleftrightarrow> unat (at_sampling_interval t) = i \<and> at_deterministic_sampling t \<and>
     (at_instance t \<longrightarrow> (\<exists>q. sampled_bytes (at_history t) = q * i \<and> q * i \<le> bytes \<and> bytes < (q + 1) * i \<and>
       tl_remaining_bytes tls = word_of_int (int bytes - int ((q + 1) * i))))"

lemma next_sample_interval_deterministic:
  "at_deterministic_sampling t \<Longrightarrow> next_sample_interval draw t gen = (at_sampling_interval t, gen)"
  by (simp add: next_sample_interval_def)

lemma sampled_size_deterministic:
  assumes d: "at_deterministic_sampling t" and i: "0 < at_sampling_interval t" "unat (at_sampling_interval t) \<le> 2 ^ 31"
    and r: "unat (tl_remaining_bytes tls) = x" "x < 2 ^ 63" and s: "sampled_size draw t tls = Some (sz, tls')"
  shows "unat sz = (x div unat (at_sampling_interval t) + 1) * unat (at_sampling_interval t)"
    "tl_remaining_bytes tls' = word_of_int (int (x mod unat (at_sampling_interval t)) - int (unat (at_sampling_interval t)))"
proof -
  let ?i = "at_sampling_interval t" and ?r = "tl_remaining_bytes tls"
  have i0: "0 < unat ?i" using i(1) by (simp add: word_less_nat_alt)
  have m: "unat (?r mod ?i) = x mod unat ?i" using r(1) by (simp add: unat_mod)
  have lt: "x mod unat ?i < unat ?i" using i0 by simp
  have w: "?r mod ?i - ?i = word_of_int (int (x mod unat ?i) - int (unat ?i))"
    by (simp flip: m add: of_nat_diff)
  have "sint (?r mod ?i - ?i) = int (x mod unat ?i) - int (unat ?i)"
    unfolding w using lt i(2) by (intro sint_difference) simp_all
  then have "sint (?r mod ?i - ?i) < 0" using lt by linarith
  then have l: "sample_loop draw t (?r mod ?i) (?r div ?i) (tl_gen tls) = Some (?r mod ?i - ?i, ?r div ?i + 1, tl_gen tls)"
    by (subst sample_loop.simps) (simp add: next_sample_interval_deterministic[OF d])
  then have e: "sz = (?r div ?i + 1) * ?i" "tl_remaining_bytes tls' = ?r mod ?i - ?i"
    using s i(1) by (auto simp: sampled_size_def Let_def word_gt_0)
  show "tl_remaining_bytes tls' = word_of_int (int (x mod unat ?i) - int (unat ?i))" using e(2) w by simp
  have "of_nat (x div unat ?i) = ?r div ?i" by (simp only: flip: unat_div r(1)) simp
  then have "(?r div ?i + 1) * ?i = of_nat ((x div unat ?i + 1) * unat ?i)" by (simp add: algebra_simps)
  moreover have "(x div unat ?i + 1) * unat ?i < 2 ^ 64"
  proof -
    have "x div unat ?i * unat ?i \<le> x" "(2::nat) ^ 63 + 2 ^ 31 < 2 ^ 64" by simp_all
    then show ?thesis using r(2) i(2) unfolding add_mult_distrib by linarith
  qed
  ultimately show "unat sz = (x div unat ?i + 1) * unat ?i" unfolding e(1) by (metis unat_of_nat_u64)
qed

lemma sampling_inv_alloc:
  assumes ok: "tracker_ok k t" "call_ok k (CallAlloc addr n l env)" and inv: "sampling_inv i bytes t tls"
    and b: "bytes + unat n < 2 ^ 63" and i: "0 < i"
  shows "\<exists>t' tls'. perform draw (t, tls) (CallAlloc addr n l env) = Some (t', tls') \<and> tracker_ok k t' \<and> sampling_inv i (bytes + unat n) t' tls'"
proof -
  have ib: "unat (at_sampling_interval t) \<le> 2 ^ 31" "at_deterministic_sampling t" "unat (at_sampling_interval t) = i"
    using ok(1) inv by (auto simp: tracker_ok_def sampling_inv_def)
  then have i1: "0 < at_sampling_interval t" using i by (simp add: word_less_nat_alt)
  from call_alloc_step[OF ok, of draw tls] obtain t' tls' where
    1: "perform draw (t, tls) (CallAlloc addr n l env) = Some (t', tls')" "tracker_ok k t'" "keeps t t'" and
    2: "\<not> at_instance t \<and> t' = t \<and> tls' = tls \<or>
     at_instance t \<and> sint (tl_remaining_bytes tls + n) < 0 \<and> t' = t \<and> tls' = tls\<lparr>tl_remaining_bytes := tl_remaining_bytes tls + n\<rparr> \<or>
     at_instance t \<and> 0 \<le> sint (tl_remaining_bytes tls + n) \<and>
      (\<exists>sz. sz \<noteq> 0 \<and> sampled_size draw t (tls\<lparr>tl_remaining_bytes := tl_remaining_bytes tls + n\<rparr>) = Some (sz, tls') \<and> alloc_effect t t' addr l sz)"
    by blast
  have keep: "unat (at_sampling_interval t') = i" "at_deterministic_sampling t'" using 1(3) ib by (auto simp: keeps_def)
  have "\<exists>q. sampled_bytes (at_history t') = q * i \<and> q * i \<le> bytes + unat n \<and> bytes + unat n < (q + 1) * i \<and>
       tl_remaining_bytes tls' = word_of_int (int (bytes + unat n) - int ((q + 1) * i))" if a: "at_instance t'"
  proof -
    have a0: "at_instance t" using a 1(3) by (simp add: keeps_def)
    then obtain q where q: "sampled_bytes (at_history t) = q * i" "q * i \<le> bytes" "bytes < (q + 1) * i"
      "tl_remaining_bytes tls = word_of_int (int bytes - int ((q + 1) * i))" using inv by (auto simp: sampling_inv_def)
    let ?y = "int (bytes + unat n) - int ((q + 1) * i)"
    have s: "tl_remaining_bytes tls + n = word_of_int ?y" unfolding q(4) by simp
    have qi: "(q + 1) * i \<le> bytes + i" using q(2) by simp
    have sy: "sint (word_of_int ?y :: u64) = ?y" using b ib(1,3) qi by (intro sint_difference) simp_all
    from 2 a0 consider "?y < 0" "t' = t" "tls' = tls\<lparr>tl_remaining_bytes := word_of_int ?y\<rparr>"
      | sz where "0 \<le> ?y" "sampled_size draw t (tls\<lparr>tl_remaining_bytes := word_of_int ?y\<rparr>) = Some (sz, tls')" "alloc_effect t t' addr l sz"
      unfolding s sy by blast
    then show ?thesis
    proof cases
      case 1
      from 1(1) have "bytes + unat n < (q + 1) * i" by linarith
      then show ?thesis using 1 q by (intro exI[of _ q]) simp
    next
      case 2
      define x where "x = bytes + unat n - (q + 1) * i"
      have "(q + 1) * i \<le> bytes + unat n" using 2(1) by linarith
      then have x: "?y = int x" "x < 2 ^ 63" "bytes + unat n = x + (q + 1) * i" using b by (simp_all only: x_def of_nat_diff)
      have u: "unat (tl_remaining_bytes (tls\<lparr>tl_remaining_bytes := word_of_int ?y\<rparr>)) = x"
        unfolding x(1) using x(2) unat_word_of_int[of "int x"] by simp
      note d = sampled_size_deterministic[OF ib(2) i1 ib(1) u x(2) 2(2), unfolded ib(3)]
      have "sampled_bytes (at_history t') = sampled_bytes (at_history t) + unat sz"
        using 2(3) by (auto simp: alloc_effect_def)
      moreover have "bytes + unat n = (q + x div i + 1) * i + x mod i" unfolding x(3) by (simp add: algebra_simps)
      moreover have "int ((q + x div i + 1) * i + x mod i) - int ((q + x div i + 1 + 1) * i) = int (x mod i) - int i"
        by (simp only: of_nat_add of_nat_mult) (simp add: algebra_simps)
      moreover have "x < x div i * i + i" using mod_less_divisor[OF i, of x] div_mult_mod_eq[of x i] by linarith
      ultimately show ?thesis using d q(1)
        by (intro exI[of _ "q + x div i + 1"]) (simp only: add_mult_distrib, simp)
    qed
  qed
  then show ?thesis using 1(1,2) keep by (auto simp: sampling_inv_def)
qed

lemma sampling_inv_step:
  assumes i: "0 < i" and ok: "tracker_ok k t" "call_ok k c"
    and P: "\<exists>b. sampling_inv i b t tls \<and> b + alloc_bytes (c # cs) = bytes \<and> bytes < 2 ^ 63"
  shows "\<exists>t' tls'. perform draw (t, tls) c = Some (t', tls') \<and> tracker_ok k t' \<and>
    (\<exists>b. sampling_inv i b t' tls' \<and> b + alloc_bytes cs = bytes \<and> bytes < 2 ^ 63)"
proof (cases c)
  case (CallAlloc addr n l env)
  from P obtain b where b: "sampling_inv i b t tls" "b + unat n + alloc_bytes cs = bytes" "bytes < 2 ^ 63" using CallAlloc by auto
  then have "b + unat n < 2 ^ 63" by linarith
  from sampling_inv_alloc[OF ok(1) ok(2)[unfolded CallAlloc] b(1) this i] b(2,3) show ?thesis unfolding CallAlloc by blast
next
  case (CallDealloc addr l env)
  from P obtain b where b: "sampling_inv i b t tls" "b + alloc_bytes cs = bytes" "bytes < 2 ^ 63" using CallDealloc by auto
  from call_dealloc_step[OF ok(1) ok(2)[unfolded CallDealloc], of draw tls] obtain t' where
    t': "perform draw (t, tls) c = Some (t', tls)" "tracker_ok k t'" "keeps t t'" "dealloc_effect t t' addr l" unfolding CallDealloc by blast
  have "sampled_bytes (at_history t') = sampled_bytes (at_history t)" using t'(4) by (auto simp: dealloc_effect_def)
  then have "sampling_inv i b t' tls" using b(1) t'(3) by (auto simp: sampling_inv_def keeps_def)
  then show ?thesis using t'(1,2) b(2,3) by blast
qed

text \<open>C14. With deterministic sampling, the sizes of the samples of a thread add up to the bytes
  the thread allocated, rounded down to a multiple of the sampling interval, whatever the sizes of
  the allocations, as long as the tracker has not stopped itself; nothing is counted twice and
  less than one interval is missing.\<close>

theorem deterministic_sampling_accounts:
  assumes "tracking_start k t" "at_deterministic_sampling t" "\<forall>c\<in>set cs. call_ok k c" "alloc_bytes cs < 2 ^ 63"
    "tls = init_tl_state_internal draw t seed tid bounds"
  shows "\<exists>t' tls'. tracker_run draw (t, tls) cs = Some (t', tls') \<and>
    (at_instance t' \<longrightarrow> sampled_bytes (at_history t') =
       alloc_bytes cs div unat (at_sampling_interval t) * unat (at_sampling_interval t))"
proof -
  let ?i = "unat (at_sampling_interval t)"
  note s = tracking_startD[OF assms(1)]
  have i: "0 < ?i" using s(1) by (simp add: tracker_ok_def word_less_nat_alt)
  have "tl_remaining_bytes tls = word_of_int (int 0 - int ((0 + 1) * ?i))"
    using assms(2,5) by (simp add: init_tl_state_internal_def next_sample_interval_deterministic)
  then have "sampling_inv ?i 0 t tls" using s(2) assms(2) i by (auto simp: sampling_inv_def intro: exI[of _ 0])
  then have "\<exists>b. sampling_inv ?i b t tls \<and> b + alloc_bytes cs = alloc_bytes cs \<and> alloc_bytes cs < 2 ^ 63" using assms(4) by auto
  from run_invariant[where P = "\<lambda>t tls' cs'. \<exists>b. sampling_inv ?i b t tls' \<and> b + alloc_bytes cs' = alloc_bytes cs \<and> alloc_bytes cs < 2 ^ 63",
      OF sampling_inv_step[OF i] s(1) assms(3) this, of draw]
  obtain t' tls' where r: "tracker_run draw (t, tls) cs = Some (t', tls')" "sampling_inv ?i (alloc_bytes cs) t' tls'" by auto
  have "q * ?i = b div ?i * ?i" if "q * ?i \<le> b" "b < (q + 1) * ?i" for q b
  proof -
    have "b div ?i = q" using that by (intro div_nat_eqI) (simp_all add: mult.commute)
    then show ?thesis by simp
  qed
  then show ?thesis using r by (fastforce simp: sampling_inv_def)
qed

lemma ex_tracker_deterministic: "at_deterministic_sampling ex_tracker" "at_sampling_interval ex_tracker = 8"
  by (simp_all add: ex_tracker_def allocation_tracking_init_def tracker_init_def reset_pevent_def ex_info_def Let_def
    kDeterministicSampling_def kTrackDeallocations_def case_prod_unfold IsDDResOK_def ddres_init_def)

theorem deterministic_sampling_accounts_witness:
  "\<exists>t' tls'. tracker_run (\<lambda>g. (8, g)) (ex_tracker, init_tl_state_internal (\<lambda>g. (8, g)) ex_tracker () 1 (0, 0)) ex_calls = Some (t', tls') \<and>
    (at_instance t' \<longrightarrow> sampled_bytes (at_history t') = 24)"
proof -
  have "alloc_bytes ex_calls = 24" by (simp add: ex_calls_def)
  then show ?thesis
    using deterministic_sampling_accounts[OF ex_tracker_start ex_tracker_deterministic(1) ex_calls_ok _ refl, of "\<lambda>g. (8, g)" "()" 1 "(0, 0)"]
    by (simp add: ex_tracker_deterministic)
qed

section \<open>Failures\<close>

text \<open>The length of the run of failures at the end of a sequence of outcomes.\<close>

definition failure_run :: "bool list \<Rightarrow> nat" where
  "failure_run fs = length (takeWhile id (rev fs))"

lemma failure_run_simps [simp]: "failure_run [] = 0" "failure_run (fs @ [f]) = (if f then failure_run fs + 1 else 0)"
  by (simp_all add: failure_run_def)

lemma failure_run_le: "failure_run fs \<le> length fs"
  unfolding failure_run_def by (metis length_rev length_takeWhile_le)

lemma failures_count:
  assumes "at_failure_count t = 0" "length fs < 2 ^ 32"
  shows "unat (at_failure_count (foldl free_on_consecutive_failures t fs)) = failure_run fs"
  using assms(2)
proof (induction fs rule: rev_induct)
  case (snoc f fs)
  let ?t = "foldl free_on_consecutive_failures t fs"
  have IH: "unat (at_failure_count ?t) = failure_run fs" using snoc by simp
  have "failure_run fs + 1 < 2 ^ 32" using failure_run_le[of fs] snoc.prems by simp
  then have "unat (at_failure_count ?t + 1) = failure_run fs + 1"
    using IH unat_add_lem[of "at_failure_count ?t" 1] by simp
  then show ?case using IH by (cases f) (simp_all add: free_on_consecutive_failures_def[of ?t] at_free_def Let_def unat_eq_0 word_gt_0)
qed (simp add: assms(1))

lemma failures_stop:
  assumes "at_instance t" "at_failure_count t = 0" "length fs < 2 ^ 32"
  shows "at_instance (foldl free_on_consecutive_failures t fs) \<longleftrightarrow> (\<forall>n \<le> length fs. failure_run (take n fs) < 5)"
  using assms(3)
proof (induction fs rule: rev_induct)
  case (snoc f fs)
  let ?t = "foldl free_on_consecutive_failures t fs"
  have IH: "at_instance ?t \<longleftrightarrow> (\<forall>n \<le> length fs. failure_run (take n fs) < 5)" using snoc by simp
  have "at_instance (foldl free_on_consecutive_failures t (fs @ [f])) \<longleftrightarrow> at_instance ?t \<and> failure_run (fs @ [f]) < 5"
  proof (cases f)
    case True
    have "unat (at_failure_count (free_on_consecutive_failures ?t f)) = failure_run (fs @ [f])"
      using failures_count[OF assms(2) snoc.prems] by simp
    moreover have "at_failure_count (free_on_consecutive_failures ?t f) = at_failure_count ?t + 1"
      using True by (simp add: free_on_consecutive_failures_def[of ?t] at_free_def Let_def)
    ultimately have "k_max_consecutive_failures \<le> at_failure_count ?t + 1 \<longleftrightarrow> 5 \<le> failure_run (fs @ [f])"
      by (simp add: k_max_consecutive_failures_def word_le_nat_alt del: failure_run_simps)
    then show ?thesis using True
      by (simp add: free_on_consecutive_failures_def[of ?t] at_free_def Let_def del: failure_run_simps)
  qed (simp add: free_on_consecutive_failures_def[of ?t])
  moreover have "(\<forall>n \<le> length (fs @ [f]). failure_run (take n (fs @ [f])) < 5) \<longleftrightarrow>
      (\<forall>n \<le> length fs. failure_run (take n fs) < 5) \<and> failure_run (fs @ [f]) < 5"
    by (auto simp: le_Suc_eq simp del: failure_run_simps)
  ultimately show ?case using IH by blast
qed (simp add: assms(1))

text \<open>C29. The tracker counts the failures since the last success, and it has stopped exactly when
  somewhere in the sequence of outcomes five consecutive operations failed; a success in
  between starts the count again, and a stopped tracker does not resume.\<close>

theorem stops_after_consecutive_failures:
  assumes "at_instance t" "at_failure_count t = 0" "length fs < 2 ^ 32"
  shows "unat (at_failure_count (foldl free_on_consecutive_failures t fs)) = failure_run fs \<and>
    (at_instance (foldl free_on_consecutive_failures t fs) \<longleftrightarrow> (\<forall>n \<le> length fs. failure_run (take n fs) < 5))"
  using failures_count[OF assms(2,3)] failures_stop[OF assms] by blast

lemma ex_tracker_running: "at_instance ex_tracker" "at_failure_count ex_tracker = 0"
  using tracking_startD[OF ex_tracker_start] by simp_all

theorem stops_after_consecutive_failures_witness:
  "\<not> at_instance (foldl free_on_consecutive_failures ex_tracker [True, False, True, True, True, True, True]) \<and>
   at_instance (foldl free_on_consecutive_failures ex_tracker [True, True, True, True, False, True])"
proof
  let ?xs = "[True, False, True, True, True, True, True]" and ?ys = "[True, True, True, True, False, True]"
  have "failure_run (take 7 ?xs) = 5" by (simp add: failure_run_def)
  then have "\<not> (\<forall>n \<le> length ?xs. failure_run (take n ?xs) < 5)" by (intro notI, drule_tac x = 7 in spec) simp
  moreover have "length ?xs < 2 ^ 32" "length ?ys < 2 ^ 32" by simp_all
  ultimately show "\<not> at_instance (foldl free_on_consecutive_failures ex_tracker ?xs)"
    using stops_after_consecutive_failures[OF ex_tracker_running, of ?xs] by blast
  have "failure_run (take n ?ys) < 5" for n
    by (cases "n \<le> 4") (auto simp: failure_run_def le_Suc_eq numeral_eq_Suc take_Cons' intro: le_less_trans[OF length_takeWhile_le])
  then show "at_instance (foldl free_on_consecutive_failures ex_tracker ?ys)"
    using stops_after_consecutive_failures[OF ex_tracker_running, of ?ys] \<open>length ?ys < 2 ^ 32\<close> by blast
qed

section \<open>Waiting for room\<close>

text \<open>
  What happens in other threads and in the consumer while this thread sleeps: the mask stays, and
  the write position only advances (by less than half of the position space).
\<close>

definition writers_advance :: "MPSCRingBufferWriter \<Rightarrow> (RingBuffer \<Rightarrow> RingBuffer) \<Rightarrow> bool" where
  "writers_advance w others \<longleftrightarrow> (\<forall>rb. rb_mask (others rb) = rb_mask rb \<and>
     (unat (rb_writer_pos rb - mw_tail w) < 2 ^ 63 \<longrightarrow>
       rb_writer_pos rb - mw_tail w \<le> rb_writer_pos (others rb) - mw_tail w \<and>
       unat (rb_writer_pos (others rb) - mw_tail w) < 2 ^ 63))"

lemma mw_reserve_full:
  assumes "align_up (n + 8) kRingBufferAlignment \<noteq> 0"
    "rb_mask rb < rb_writer_pos rb + align_up (n + 8) kRingBufferAlignment - mw_tail w"
  shows "mw_reserve lock rb w n True = Some (rb, None, \<not> lock)"
  using assms by (simp add: mw_reserve_def Let_def)

lemma full_stays:
  assumes f: "rb_mask rb < rb_writer_pos rb + n - mw_tail w" and w: "writers_advance w others"
    and n: "unat n < 2 ^ 63" and b: "unat (rb_writer_pos rb - mw_tail w) < 2 ^ 63"
  shows "rb_mask (others rb) < rb_writer_pos (others rb) + n - mw_tail w" "unat (rb_writer_pos (others rb) - mw_tail w) < 2 ^ 63"
proof -
  let ?a = "rb_writer_pos rb - mw_tail w" and ?b = "rb_writer_pos (others rb) - mw_tail w"
  have b': "unat ?b < 2 ^ 63" and le: "unat ?a \<le> unat ?b" and m: "rb_mask (others rb) = rb_mask rb"
    using w b by (auto simp: writers_advance_def word_le_nat_alt)
  have "unat (?a + n) = unat ?a + unat n" "unat (?b + n) = unat ?b + unat n"
    using b b' n by (auto intro!: unat_add_u64)
  moreover have "rb_mask rb < ?a + n" using f by (simp add: algebra_simps)
  ultimately have "rb_mask rb < ?b + n" using le by (simp add: word_less_nat_alt)
  then show "rb_mask (others rb) < rb_writer_pos (others rb) + n - mw_tail w" using m by (simp add: algebra_simps)
  show "unat ?b < 2 ^ 63" by (rule b')
qed

lemma retry_reserve_full:
  assumes n: "align_up (n + 8) kRingBufferAlignment \<noteq> 0" "unat (align_up (n + 8) kRingBufferAlignment) < 2 ^ 63"
    and "rb_mask rb < rb_writer_pos rb + align_up (n + 8) kRingBufferAlignment - mw_tail w"
    "unat (rb_writer_pos rb - mw_tail w) < 2 ^ 63" "\<forall>x\<in>set attempts. writers_advance w (fst x)"
  shows "\<exists>rb' t. retry_reserve w n timeout attempts rb = Some (rb', None, t)"
  using assms(3-)
proof (induction attempts arbitrary: rb)
  case (Cons x attempts)
  obtain others lock where x: "x = (others, lock)" by (cases x)
  have o: "writers_advance w others" using Cons.prems(3) x by simp
  note s = full_stays[OF Cons.prems(1) o n(2) Cons.prems(2)]
  from Cons.IH[OF s] Cons.prems(3) show ?case by (auto simp: x mw_reserve_full[OF n(1) s(1)])
qed simp

text \<open>C30. Once a deallocation event does not fit, none of the retries finds room, whatever the
  consumer reads in the meantime: the retries use the tail that the writer read before the first
  attempt.\<close>

theorem retry_never_helps:
  assumes "mw_reserve True rb w 32 True = Some (rb, None, False)" "unat (rb_writer_pos rb - mw_tail w) < 2 ^ 63"
    "\<forall>x\<in>set attempts. writers_advance w (fst x)"
  shows "\<exists>rb' t. sleep_and_retry_reserve w 32 False attempts rb = Some (rb', None, t)"
proof -
  have n: "align_up (32 + 8) kRingBufferAlignment = (40 :: u64)" by (simp add: align_up_def kRingBufferAlignment_def)
  have "rb_mask rb < rb_writer_pos rb + align_up (32 + 8) kRingBufferAlignment - mw_tail w"
    using assms(1) n by (auto simp: mw_reserve_def Let_def split: if_splits)
  moreover have "\<forall>x\<in>set (take k_max_sleep_attempts attempts). writers_advance w (fst x)"
    using assms(3) by (meson in_set_takeD)
  ultimately show ?thesis unfolding sleep_and_retry_reserve_def
    by (intro retry_reserve_full assms(2)) (simp_all only: n, simp_all)
qed

definition ex_full_ring :: RingBuffer where "ex_full_ring = ex_ring\<lparr>rb_writer_pos := 512\<rparr>"

definition ex_drain :: "RingBuffer \<Rightarrow> RingBuffer" where "ex_drain rb = rb\<lparr>rb_reader_pos := rb_writer_pos rb\<rparr>"

lemma ex_drained: "rb_mask (ex_drain ex_full_ring) = 511" "rb_writer_pos (ex_drain ex_full_ring) = 512" "rb_reader_pos (ex_drain ex_full_ring) = 512"
  by (simp_all add: ex_drain_def ex_full_ring_def ex_ring_def)

theorem retry_never_helps_witness:
  "(\<exists>rb' t. sleep_and_retry_reserve (mw_init ex_full_ring 0) 32 False (replicate 5 (ex_drain, True)) ex_full_ring = Some (rb', None, t)) \<and>
   mw_reserve True (ex_drain ex_full_ring) (mw_init (ex_drain ex_full_ring) 0) 32 True \<noteq>
     Some (ex_drain ex_full_ring, None, False)"
proof
  have f: "mw_reserve True ex_full_ring (mw_init ex_full_ring 0) 32 True = Some (ex_full_ring, None, False)"
    by (simp add: mw_reserve_def mw_init_def ex_full_ring_def ex_ring_def align_up_def kRingBufferAlignment_def)
  show "\<exists>rb' t. sleep_and_retry_reserve (mw_init ex_full_ring 0) 32 False (replicate 5 (ex_drain, True)) ex_full_ring = Some (rb', None, t)"
    by (rule retry_never_helps[OF f]) (simp_all add: mw_init_def ex_full_ring_def ex_ring_def writers_advance_def ex_drain_def)
  show "mw_reserve True (ex_drain ex_full_ring) (mw_init (ex_drain ex_full_ring) 0) 32 True \<noteq> Some (ex_drain ex_full_ring, None, False)"
    using ex_drained by (auto simp: mw_reserve_def mw_init_def align_up_def kRingBufferAlignment_def Let_def)
qed

end
