(* ===== verification/Elf_Hash.thy ===== *)
theory Elf_Hash
  imports Ddprof_Prelude "HOL-Library.Monad_Syntax"
begin

text \<open>
  Lookup of a symbol in the hash tables of a loaded library (\<^verbatim>\<open>src/src/lib/elfutils.cc\<close>). A table is
  the list of the 32-bit words from its address on, the string table the characters from its
  address on, the symbol table the symbols from its address on; \<^term>\<open>None\<close> is an access outside of
  what is there, or a walk that does not end.
\<close>

section \<open>Symbols\<close>

record ElfSym =
  st_name :: u32
  st_info :: u8
  st_shndx :: u16
  st_value :: u64
  st_size :: u64

definition SHN_ABS :: u16 where "SHN_ABS = 0xfff1"

definition STT_TLS :: nat where "STT_TLS = 6"

definition cstr_at :: "string \<Rightarrow> nat \<Rightarrow> string option" where
  "cstr_at strtab n = (if n < length strtab then Some (takeWhile (\<lambda>c. c \<noteq> CHR 0x00) (drop n strtab)) else None)"

definition check_sym :: "ElfSym \<Rightarrow> string \<Rightarrow> string \<Rightarrow> bool" where
  "check_sym esym symname name = (
     let stt = unat (st_info esym AND 0xf) in
     if st_value esym = 0 \<and> st_shndx esym \<noteq> SHN_ABS \<and> stt \<noteq> STT_TLS then False
     else if stt \<notin> {0, 1, 2, 5, 6, 10} then False
     else name = symname)"

section \<open>Hash functions\<close>

text \<open>A \<^verbatim>\<open>char\<close> is signed where the library runs: its value is extended with its sign.\<close>

definition char_value :: "char \<Rightarrow> u32" where
  "char_value c = (let n = (of_char c :: nat) in if n < 128 then of_nat n else of_nat n - 256)"

definition gnu_hash :: "string \<Rightarrow> u32" where
  "gnu_hash name = foldl (\<lambda>h c. push_bit 5 h + h + char_value c) 5381 name"

definition elf_hash :: "string \<Rightarrow> u32" where
  "elf_hash name = foldl (\<lambda>h c. let h = push_bit 4 h + char_value c; g = h AND 0xf0000000 in h XOR drop_bit 24 g) 0 name AND 0x0fffffff"

section \<open>The table of the old format\<close>

definition word_at :: "u32 list \<Rightarrow> int \<Rightarrow> u32 option" where
  "word_at tbl i = (if 0 \<le> i \<and> i < int (length tbl) then Some (tbl ! nat i) else None)"

definition sym_at :: "ElfSym list \<Rightarrow> u32 \<Rightarrow> ElfSym option" where
  "sym_at symtab i = (if unat i < length symtab then Some (symtab ! unat i) else None)"

partial_function (option) elf_chain :: "string \<Rightarrow> ElfSym list \<Rightarrow> u32 list \<Rightarrow> int \<Rightarrow> string \<Rightarrow> u32 \<Rightarrow> ElfSym option option" where
  "elf_chain strtab symtab hashtab chain symname symidx = (
     if symidx = 0 then Some None
     else do {
       esym \<leftarrow> sym_at symtab symidx;
       name \<leftarrow> cstr_at strtab (unat (st_name esym));
       (if check_sym esym name symname then Some (Some esym)
        else do {
          next_idx \<leftarrow> word_at hashtab (chain + uint symidx);
          elf_chain strtab symtab hashtab chain symname next_idx
        })
     })"

definition elf_hash_lookup :: "string \<Rightarrow> ElfSym list \<Rightarrow> u32 list \<Rightarrow> string \<Rightarrow> ElfSym option option" where
  "elf_hash_lookup strtab symtab hashtab symname = do {
     nbuckets \<leftarrow> word_at hashtab 0;
     symidx \<leftarrow> (if nbuckets = 0 then None else word_at hashtab (2 + uint (elf_hash symname mod nbuckets)));
     elf_chain strtab symtab hashtab (2 + uint nbuckets) symname symidx
   }"

definition elf_hash_symbol_count :: "u32 list \<Rightarrow> u32 option" where
  "elf_hash_symbol_count hashtab = word_at hashtab 1"

section \<open>The table of the GNU format\<close>

partial_function (option) gnu_chain :: "string \<Rightarrow> ElfSym list \<Rightarrow> u32 list \<Rightarrow> int \<Rightarrow> u32 \<Rightarrow> string \<Rightarrow> u32 \<Rightarrow> ElfSym option option" where
  "gnu_chain strtab symtab hashtab chain_zero hash symname symidx = do {
     h \<leftarrow> word_at hashtab (chain_zero + uint symidx);
     found \<leftarrow> (if drop_bit 1 (h XOR hash) = 0
       then do {
         esym \<leftarrow> sym_at symtab symidx;
         name \<leftarrow> cstr_at strtab (unat (st_name esym));
         Some (if check_sym esym name symname then Some esym else None)
       } else Some None);
     (case found of
        Some esym \<Rightarrow> Some (Some esym)
      | None \<Rightarrow> if h AND 1 \<noteq> 0 then Some None
                else gnu_chain strtab symtab hashtab chain_zero hash symname (symidx + 1))
   }"

definition bloom_word :: "u32 list \<Rightarrow> u32 \<Rightarrow> u64 option" where
  "bloom_word hashtab i = do {
     low \<leftarrow> word_at hashtab (4 + 2 * uint i);
     high \<leftarrow> word_at hashtab (5 + 2 * uint i);
     Some (ucast low OR push_bit 32 (ucast high))
   }"

definition gnu_hash_lookup :: "string \<Rightarrow> ElfSym list \<Rightarrow> u32 list \<Rightarrow> string \<Rightarrow> ElfSym option option" where
  "gnu_hash_lookup strtab symtab hashtab symname = do {
     nbuckets \<leftarrow> word_at hashtab 0;
     symbias \<leftarrow> word_at hashtab 1;
     bloom_size \<leftarrow> word_at hashtab 2;
     bloom_shift \<leftarrow> word_at hashtab 3;
     let buckets = 4 + 2 * uint bloom_size;
     let chain_zero = buckets + uint nbuckets - uint symbias;
     (if nbuckets = 0 then Some None
      else do {
        let hash = gnu_hash symname;
        bitmask_word \<leftarrow> bloom_word hashtab ((hash div 64) AND (bloom_size - 1));
        let hashbit1 = unat (hash AND 63);
        let hashbit2 = unat (drop_bit (unat bloom_shift) hash AND 63);
        (if \<not> (bit bitmask_word hashbit1 \<and> bit bitmask_word hashbit2) then Some None
         else do {
           symidx \<leftarrow> word_at hashtab (buckets + uint (hash mod nbuckets));
           (if symidx = 0 then Some None
            else gnu_chain strtab symtab hashtab chain_zero hash symname symidx)
         })
      })
   }"

partial_function (option) chain_end :: "u32 list \<Rightarrow> int \<Rightarrow> u32 \<Rightarrow> u32 option" where
  "chain_end hashtab chain_zero idx = do {
     h \<leftarrow> word_at hashtab (chain_zero + uint idx);
     (if h AND 1 = 0 then chain_end hashtab chain_zero (idx + 1) else Some idx)
   }"

definition gnu_hash_symbol_count :: "u32 list \<Rightarrow> u32 option" where
  "gnu_hash_symbol_count hashtab = do {
     nbuckets \<leftarrow> word_at hashtab 0;
     symbias \<leftarrow> word_at hashtab 1;
     bloom_size \<leftarrow> word_at hashtab 2;
     let buckets = nat (4 + 2 * uint bloom_size);
     let chain_zero = int buckets + uint nbuckets - uint symbias;
     (if nbuckets = 0 then Some 0
      else if length hashtab < buckets + unat nbuckets then None
      else do {
        idx \<leftarrow> chain_end hashtab chain_zero (Max (set (take (unat nbuckets) (drop buckets hashtab))));
        Some (idx + 1)
      })
   }"

section \<open>Tables a linker writes\<close>

text \<open>The hash of the format, on unsigned characters; both functions agree on names in ASCII.\<close>

definition std_gnu_hash :: "string \<Rightarrow> u32" where
  "std_gnu_hash name = foldl (\<lambda>h c. push_bit 5 h + h + of_nat (of_char c)) 5381 name"

definition ascii :: "string \<Rightarrow> bool" where
  "ascii s \<longleftrightarrow> (\<forall>c\<in>set s. (of_char c :: nat) < 128)"

lemma gnu_hash_ascii: "ascii name \<Longrightarrow> gnu_hash name = std_gnu_hash name"
  unfolding gnu_hash_def std_gnu_hash_def
  by (rule foldl_cong) (auto simp: ascii_def char_value_def)

lemma gnu_hash_not_ascii: "gnu_hash [CHR 0xE9] \<noteq> std_gnu_hash [CHR 0xE9]"
  by (simp add: gnu_hash_def std_gnu_hash_def char_value_def)

definition sym_name :: "string \<Rightarrow> ElfSym list \<Rightarrow> nat \<Rightarrow> string" where
  "sym_name strtab symtab i = the (cstr_at strtab (unat (st_name (symtab ! i))))"

record gnu_header =
  gh_nbuckets :: nat
  gh_symbias :: nat
  gh_bloom_size :: nat
  gh_bloom_shift :: nat

definition gh_bucket :: "gnu_header \<Rightarrow> string \<Rightarrow> ElfSym list \<Rightarrow> nat \<Rightarrow> nat" where
  "gh_bucket g strtab symtab i = unat (std_gnu_hash (sym_name strtab symtab i)) mod gh_nbuckets g"

definition gh_chain :: "gnu_header \<Rightarrow> nat \<Rightarrow> nat" where
  "gh_chain g i = 4 + 2 * gh_bloom_size g + gh_nbuckets g + (i - gh_symbias g)"

definition bloom_bits :: "gnu_header \<Rightarrow> u32 list \<Rightarrow> u32 \<Rightarrow> bool" where
  "bloom_bits g tbl h \<longleftrightarrow> (\<exists>w. bloom_word tbl ((h div 64) AND (of_nat (gh_bloom_size g) - 1)) = Some w \<and>
     bit w (unat (h AND 63)) \<and> bit w (unat (drop_bit (gh_bloom_shift g) h AND 63)))"

definition gnu_table_ok :: "gnu_header \<Rightarrow> string \<Rightarrow> ElfSym list \<Rightarrow> u32 list \<Rightarrow> bool" where
  "gnu_table_ok g strtab symtab tbl \<longleftrightarrow>
     0 < gh_nbuckets g \<and> 0 < gh_symbias g \<and> gh_symbias g \<le> length symtab \<and>
     length tbl = gh_chain g (length symtab) \<and> length tbl < 2 ^ 31 \<and> length symtab < 2 ^ 31 \<and>
     tbl ! 0 = of_nat (gh_nbuckets g) \<and> tbl ! 1 = of_nat (gh_symbias g) \<and> tbl ! 2 = of_nat (gh_bloom_size g) \<and>
     tbl ! 3 = of_nat (gh_bloom_shift g) \<and> gh_bloom_shift g < 32 \<and> (\<exists>j. gh_bloom_size g = 2 ^ j) \<and>
     (\<forall>i < length symtab. cstr_at strtab (unat (st_name (symtab ! i))) \<noteq> None) \<and>
     (\<forall>i j. gh_symbias g \<le> i \<and> i \<le> j \<and> j < length symtab \<longrightarrow> gh_bucket g strtab symtab i \<le> gh_bucket g strtab symtab j) \<and>
     (\<forall>i. gh_symbias g \<le> i \<and> i < length symtab \<longrightarrow>
        drop_bit 1 (tbl ! gh_chain g i) = drop_bit 1 (std_gnu_hash (sym_name strtab symtab i)) \<and>
        (bit (tbl ! gh_chain g i) 0 \<longleftrightarrow> i + 1 = length symtab \<or> gh_bucket g strtab symtab (i + 1) \<noteq> gh_bucket g strtab symtab i) \<and>
        bloom_bits g tbl (std_gnu_hash (sym_name strtab symtab i))) \<and>
     (\<forall>b < gh_nbuckets g. tbl ! (4 + 2 * gh_bloom_size g + b) =
        (case List.find (\<lambda>i. gh_bucket g strtab symtab i = b) [gh_symbias g..<length symtab] of None \<Rightarrow> 0 | Some i \<Rightarrow> of_nat i))"

text \<open>What the lookup should find: the first hashed symbol that passes the check.\<close>

definition find_symbol :: "string \<Rightarrow> ElfSym list \<Rightarrow> string \<Rightarrow> nat \<Rightarrow> ElfSym option" where
  "find_symbol strtab symtab symname i =
     map_option ((!) symtab) (List.find (\<lambda>i. check_sym (symtab ! i) (sym_name strtab symtab i) symname) [i..<length symtab])"

lemma check_symD: "check_sym s symname name \<Longrightarrow> symname = name"
  by (auto simp: check_sym_def Let_def split: if_splits)

lemma and_one_bit: "(w :: u32) AND 1 \<noteq> 0 \<longleftrightarrow> bit w 0"
  by (simp add: and_one_eq odd_iff_mod_2_eq_one bit_0)

lemma unat_of_nat_u32: "n < 2 ^ 32 \<Longrightarrow> unat (of_nat n :: u32) = n"
  by (simp add: unsigned_of_nat take_bit_nat_eq_self)

lemma uint_of_nat_u32: "n < 2 ^ 32 \<Longrightarrow> uint (of_nat n :: u32) = int n"
  by (simp add: unsigned_of_nat take_bit_nat_eq_self unsigned_of_int flip: of_nat_take_bit)

lemma word_at_nat: "k < length tbl \<Longrightarrow> word_at tbl (int k) = Some (tbl ! k)"
  by (simp add: word_at_def)

lemma gnu_chain_walk:
  assumes ok: "gnu_table_ok g strtab symtab tbl" and h: "hash = std_gnu_hash symname"
    and cz: "chain_zero = int (4 + 2 * gh_bloom_size g + gh_nbuckets g) - int (gh_symbias g)"
  shows "gh_symbias g \<le> i \<Longrightarrow> i < length symtab \<Longrightarrow> gh_bucket g strtab symtab i = unat hash mod gh_nbuckets g \<Longrightarrow>
    gnu_chain strtab symtab tbl chain_zero hash symname (of_nat i) = Some (find_symbol strtab symtab symname i)"
proof (induction "length symtab - i" arbitrary: i)
  case (Suc n)
  let ?P = "\<lambda>i. check_sym (symtab ! i) (sym_name strtab symtab i) symname"
  let ?h = "tbl ! gh_chain g i"
  have i32: "i < 2 ^ 32" using ok Suc.prems(2) by (simp add: gnu_table_ok_def)
  have u: "unat (of_nat i :: u32) = i" "uint (of_nat i :: u32) = int i" using i32 by (simp_all add: unat_of_nat_u32 uint_of_nat_u32)
  have ci: "chain_zero + uint (of_nat i :: u32) = int (gh_chain g i)" "gh_chain g i < gh_chain g (length symtab)"
    using Suc.prems(1,2) by (simp_all add: u cz gh_chain_def)
  have w: "word_at tbl (chain_zero + uint (of_nat i :: u32)) = Some ?h"
    unfolding ci(1) using ok ci(2) by (intro word_at_nat) (simp add: gnu_table_ok_def)
  have chain: "drop_bit 1 ?h = drop_bit 1 (std_gnu_hash (sym_name strtab symtab i))"
    "bit ?h 0 \<longleftrightarrow> i + 1 = length symtab \<or> gh_bucket g strtab symtab (i + 1) \<noteq> gh_bucket g strtab symtab i"
    using ok Suc.prems(1,2) unfolding gnu_table_ok_def by blast+
  have name: "cstr_at strtab (unat (st_name (symtab ! i))) = Some (sym_name strtab symtab i)"
    using ok Suc.prems(2) by (auto simp: gnu_table_ok_def sym_name_def)
  have found: "(if drop_bit 1 (?h XOR hash) = 0 then do {
         esym \<leftarrow> sym_at symtab (of_nat i);
         name \<leftarrow> cstr_at strtab (unat (st_name esym));
         Some (if check_sym esym name symname then Some esym else None)
       } else Some None) = Some (if ?P i then Some (symtab ! i) else None)"
  proof (cases "?P i")
    case True
    then have "drop_bit 1 (?h XOR hash) = 0" using chain(1) check_symD[OF True] h by (simp add: drop_bit_xor)
    then show ?thesis using True Suc.prems(2) name by (simp add: sym_at_def u)
  qed (use Suc.prems(2) name in \<open>simp add: sym_at_def u\<close>)
  have step: "gnu_chain strtab symtab tbl chain_zero hash symname (of_nat i) =
      (if ?P i then Some (Some (symtab ! i)) else if bit ?h 0 then Some None
       else gnu_chain strtab symtab tbl chain_zero hash symname (of_nat (i + 1)))"
    by (subst gnu_chain.simps) (simp only: w Option.bind.simps found, simp add: and_one_bit add.commute)
  have upt: "[i..<length symtab] = i # [i + 1..<length symtab]" using Suc.prems(2) by (simp add: upt_rec)
  show ?case
  proof (cases "?P i \<or> \<not> bit ?h 0")
    case True
    have "gnu_chain strtab symtab tbl chain_zero hash symname (of_nat (i + 1)) = Some (find_symbol strtab symtab symname (i + 1))"
      if "\<not> bit ?h 0" using that chain(2) Suc.prems Suc.hyps(2) by (intro Suc.hyps(1)) auto
    then show ?thesis using True unfolding step by (auto simp: find_symbol_def upt)
  next
    case False
    have "\<not> ?P j" if j: "i + 1 \<le> j" "j < length symtab" for j
    proof
      assume "?P j"
      from check_symD[OF this] have "gh_bucket g strtab symtab j = gh_bucket g strtab symtab i"
        using Suc.prems(3) h by (simp add: gh_bucket_def)
      moreover have "gh_bucket g strtab symtab i \<le> gh_bucket g strtab symtab (i + 1)"
        "gh_bucket g strtab symtab (i + 1) \<le> gh_bucket g strtab symtab j"
        using ok Suc.prems(1) j unfolding gnu_table_ok_def by auto
      ultimately show False using chain(2) False j by auto
    qed
    then have "List.find ?P [i + 1..<length symtab] = None" by (auto simp: find_None_iff)
    then show ?thesis using False unfolding step by (simp add: find_symbol_def upt)
  qed
qed simp

lemma find_append: "List.find P (xs @ ys) = (case List.find P xs of None \<Rightarrow> List.find P ys | Some x \<Rightarrow> Some x)"
  by (induction xs) auto

lemma find_upt_first:
  assumes "List.find Q [a..<n] = Some f" "\<And>i. P i \<Longrightarrow> Q i"
  shows "List.find P [a..<n] = List.find P [f..<n]" "a \<le> f" "f < n" "Q f"
proof -
  from assms(1) obtain k where k: "k < n - a" "Q (a + k)" "f = a + k" "\<forall>j<k. \<not> Q (a + j)"
    by (auto simp: find_Some_iff)
  show "a \<le> f" "f < n" "Q f" using k by auto
  have nq: "\<not> Q j" if "a \<le> j" "j < f" for j using that k(3,4) by (metis le_Suc_ex nat_add_left_cancel_less)
  have "[a..<n] = [a..<f] @ [f..<n]" using k upt_add_eq_append[of a f "n - f"] by simp
  moreover have "List.find P [a..<f] = None" using nq assms(2) by (auto simp: find_None_iff)
  ultimately show "List.find P [a..<n] = List.find P [f..<n]" by (simp add: find_append)
qed

lemma div_and_less: "unat ((h :: u32) AND (of_nat (2 ^ j) - 1)) < 2 ^ j" if "j < 32"
proof -
  have "(of_nat (2 ^ j) - 1 :: u32) = mask j" by (simp add: mask_eq_exp_minus_1)
  then have "unat (h AND (of_nat (2 ^ j) - 1)) = take_bit j (unat h)"
    by (simp add: unsigned_take_bit_eq flip: take_bit_eq_mask)
  then show ?thesis by simp
qed

lemma gnu_table_length: "gnu_table_ok g strtab symtab tbl \<Longrightarrow> 4 + 2 * gh_bloom_size g + gh_nbuckets g \<le> length tbl"
proof -
  assume "gnu_table_ok g strtab symtab tbl"
  then have "length tbl = gh_chain g (length symtab)" by (simp add: gnu_table_ok_def)
  then show ?thesis unfolding gh_chain_def by linarith
qed

lemma gnu_table_words:
  assumes ok: "gnu_table_ok g strtab symtab tbl"
  shows "word_at tbl 0 = Some (of_nat (gh_nbuckets g))" "word_at tbl 1 = Some (of_nat (gh_symbias g))"
    "word_at tbl 2 = Some (of_nat (gh_bloom_size g))" "word_at tbl 3 = Some (of_nat (gh_bloom_shift g))"
    "uint (of_nat (gh_nbuckets g) :: u32) = int (gh_nbuckets g)" "uint (of_nat (gh_symbias g) :: u32) = int (gh_symbias g)"
    "uint (of_nat (gh_bloom_size g) :: u32) = int (gh_bloom_size g)" "unat (of_nat (gh_bloom_shift g) :: u32) = gh_bloom_shift g"
    "(of_nat (gh_nbuckets g) :: u32) \<noteq> 0" "unat (of_nat (gh_nbuckets g) :: u32) = gh_nbuckets g"
    "gh_bloom_size g < 2 ^ 31"
proof -
  have l: "gh_nbuckets g < length tbl" "gh_symbias g \<le> length symtab" "gh_bloom_size g < length tbl" "3 < length tbl"
    using ok by (auto simp: gnu_table_ok_def gh_chain_def)
  have b: "gh_nbuckets g < 2 ^ 32" "gh_symbias g < 2 ^ 32" "gh_bloom_size g < 2 ^ 31" "gh_bloom_shift g < 2 ^ 32"
    using ok l by (auto simp: gnu_table_ok_def)
  show "word_at tbl 0 = Some (of_nat (gh_nbuckets g))" "word_at tbl 1 = Some (of_nat (gh_symbias g))"
    "word_at tbl 2 = Some (of_nat (gh_bloom_size g))" "word_at tbl 3 = Some (of_nat (gh_bloom_shift g))"
    using ok l(4) word_at_nat[of 0 tbl] word_at_nat[of 1 tbl] word_at_nat[of 2 tbl] word_at_nat[of 3 tbl]
    by (simp_all add: gnu_table_ok_def)
  show "uint (of_nat (gh_nbuckets g) :: u32) = int (gh_nbuckets g)" "uint (of_nat (gh_symbias g) :: u32) = int (gh_symbias g)"
    "uint (of_nat (gh_bloom_size g) :: u32) = int (gh_bloom_size g)" using b by (intro uint_of_nat_u32; simp)+
  show n: "unat (of_nat (gh_nbuckets g) :: u32) = gh_nbuckets g" using b by (intro unat_of_nat_u32)
  show "unat (of_nat (gh_bloom_shift g) :: u32) = gh_bloom_shift g" using b by (intro unat_of_nat_u32)
  show "(of_nat (gh_nbuckets g) :: u32) \<noteq> 0" 
  proof
    assume "(of_nat (gh_nbuckets g) :: u32) = 0"
    then have "gh_nbuckets g = 0" using n by simp
    then show False using ok by (simp add: gnu_table_ok_def)
  qed
  show "gh_bloom_size g < 2 ^ 31" by (rule b(3))
qed

lemma gnu_bloom_defined:
  assumes ok: "gnu_table_ok g strtab symtab tbl"
  shows "\<exists>w. bloom_word tbl ((h div 64) AND (of_nat (gh_bloom_size g) - 1)) = Some w"
proof -
  obtain j where j: "gh_bloom_size g = 2 ^ j" using ok by (auto simp: gnu_table_ok_def)
  have "(2::nat) ^ j < 2 ^ 31" using gnu_table_words(11)[OF ok] j by simp
  then have "j < 31" by (rule power_less_imp_less_exp[rotated]) simp
  then have "j < 32" by simp
  let ?i = "(h div 64) AND (of_nat (gh_bloom_size g) - 1 :: u32)"
  have "unat ?i < gh_bloom_size g" using div_and_less[OF \<open>j < 32\<close>] j by simp
  then have l: "5 + 2 * unat ?i < length tbl" using gnu_table_length[OF ok] by linarith
  have e: "4 + 2 * uint ?i = int (4 + 2 * unat ?i)" "5 + 2 * uint ?i = int (5 + 2 * unat ?i)" by simp_all
  show ?thesis unfolding bloom_word_def e using l by (simp add: word_at_nat del: of_nat_add of_nat_mult)
qed

lemma find_symbol_none:
  assumes "\<And>i. gh_symbias g \<le> i \<Longrightarrow> i < length symtab \<Longrightarrow> \<not> check_sym (symtab ! i) (sym_name strtab symtab i) symname"
  shows "find_symbol strtab symtab symname (gh_symbias g) = None"
  using assms by (auto simp: find_symbol_def find_None_iff)

lemma gnu_bucket_walk:
  assumes ok: "gnu_table_ok g strtab symtab tbl" and h: "hash = std_gnu_hash symname"
    and f: "List.find (\<lambda>i. gh_bucket g strtab symtab i = unat hash mod gh_nbuckets g) [gh_symbias g..<length symtab] = fi"
  shows "(let symidx = (case fi of None \<Rightarrow> 0 | Some i \<Rightarrow> of_nat i)
      in if symidx = 0 then Some None else gnu_chain strtab symtab tbl
        (int (4 + 2 * gh_bloom_size g + gh_nbuckets g) - int (gh_symbias g)) hash symname symidx) =
    Some (find_symbol strtab symtab symname (gh_symbias g))"
proof -
  let ?P = "\<lambda>i. check_sym (symtab ! i) (sym_name strtab symtab i) symname"
  have pq: "gh_bucket g strtab symtab i = unat hash mod gh_nbuckets g" if "?P i" for i
    using check_symD[OF that] h by (simp add: gh_bucket_def)
  show ?thesis
  proof (cases fi)
    case None
    then have "\<not> ?P i" if "gh_symbias g \<le> i" "i < length symtab" for i using f that pq by (auto simp: find_None_iff)
    then show ?thesis using None find_symbol_none[of g symtab strtab symname] by simp
  next
    case (Some i)
    note w = find_upt_first[where P = ?P, OF f[unfolded Some] pq]
    have i32: "0 < i" "i < 2 ^ 32" using w(2,3) ok by (auto simp: gnu_table_ok_def)
    then have nz: "(of_nat i :: u32) \<noteq> 0" using unat_of_nat_u32[of i] by (metis less_irrefl unsigned_0)
    have "find_symbol strtab symtab symname (gh_symbias g) = find_symbol strtab symtab symname i"
      using w(1) by (simp add: find_symbol_def)
    then show ?thesis using gnu_chain_walk[OF ok h refl w(2,3,4)] nz Some by simp
  qed
qed

text \<open>C21. For a table as linkers write it and a name in ASCII, the lookup returns, and it returns
  the first hashed symbol of that name that is defined and of a callable or data type; the filter,
  the buckets and the chains hide no symbol and invent none.\<close>

theorem gnu_hash_lookup_finds:
  assumes "gnu_table_ok g strtab symtab tbl" "ascii symname"
  shows "gnu_hash_lookup strtab symtab tbl symname = Some (find_symbol strtab symtab symname (gh_symbias g))"
proof -
  note ok = assms(1)
  note words = gnu_table_words[OF ok]
  let ?h = "std_gnu_hash symname"
  let ?bk = "4 + 2 * gh_bloom_size g" and ?b = "unat ?h mod gh_nbuckets g"
  have cz: "4 + 2 * int (gh_bloom_size g) + int (gh_nbuckets g) - int (gh_symbias g) =
      int (4 + 2 * gh_bloom_size g + gh_nbuckets g) - int (gh_symbias g)" by simp
  from gnu_bloom_defined[OF ok, of ?h] obtain w where w: "bloom_word tbl ((?h div 64) AND (of_nat (gh_bloom_size g) - 1)) = Some w" by blast
  let ?bits = "bit w (unat (?h AND 63)) \<and> bit w (unat (drop_bit (gh_bloom_shift g) ?h AND 63))"
  have bl: "?b < gh_nbuckets g" using ok by (simp add: gnu_table_ok_def)
  have bi: "4 + 2 * int (gh_bloom_size g) + uint (?h mod of_nat (gh_nbuckets g)) = int (?bk + ?b)"
  proof -
    have u: "unat (?h mod of_nat (gh_nbuckets g)) = ?b" using words(10) by (simp add: unat_mod)
    show ?thesis unfolding uint_nat[of "?h mod of_nat (gh_nbuckets g)"] u by simp
  qed
  have "?bk + ?b < length tbl" using gnu_table_length[OF ok] bl by linarith
  then have bw: "word_at tbl (4 + 2 * int (gh_bloom_size g) + uint (?h mod of_nat (gh_nbuckets g))) = Some (tbl ! (?bk + ?b))"
    unfolding bi by (rule word_at_nat)
  have b: "tbl ! (?bk + ?b) = (case List.find (\<lambda>i. gh_bucket g strtab symtab i = ?b) [gh_symbias g..<length symtab] of None \<Rightarrow> 0 | Some i \<Rightarrow> of_nat i)"
    using ok bl unfolding gnu_table_ok_def by blast
  have unf: "gnu_hash_lookup strtab symtab tbl symname = (if \<not> ?bits then Some None
      else let symidx = tbl ! (?bk + ?b) in if symidx = 0 then Some None else gnu_chain strtab symtab tbl
        (int (4 + 2 * gh_bloom_size g + gh_nbuckets g) - int (gh_symbias g)) ?h symname symidx)"
    unfolding gnu_hash_lookup_def gnu_hash_ascii[OF assms(2)] words(1-4) Option.bind.simps Let_def words(5-8) w bw cz
    using words(9) by simp
  show ?thesis
  proof (cases ?bits)
    case True
    then show ?thesis unfolding unf b using gnu_bucket_walk[OF ok refl refl, of symname] by simp
  next
    case False
    have "\<not> check_sym (symtab ! i) (sym_name strtab symtab i) symname" if i: "gh_symbias g \<le> i" "i < length symtab" for i
    proof
      assume "check_sym (symtab ! i) (sym_name strtab symtab i) symname"
      from check_symD[OF this] have "bloom_bits g tbl ?h" using ok i unfolding gnu_table_ok_def by metis
      then show False using False w by (simp add: bloom_bits_def)
    qed
    then show ?thesis unfolding unf using False find_symbol_none[of g symtab strtab symname] by simp
  qed
qed

definition ex_strtab :: string where
  "ex_strtab = CHR 0x00 # ''malloc'' @ [CHR 0x00]"

definition ex_malloc :: ElfSym where
  "ex_malloc = \<lparr>st_name = 1, st_info = 0x12, st_shndx = 12, st_value = 4096, st_size = 64\<rparr>"

definition ex_symtab :: "ElfSym list" where
  "ex_symtab = [\<lparr>st_name = 0, st_info = 0, st_shndx = 0, st_value = 0, st_size = 0\<rparr>, ex_malloc]"

definition ex_gnu_table :: "u32 list" where
  "ex_gnu_table = [1, 1, 1, 6, 0xffffffff, 0xffffffff, 1, 221883709]"

definition ex_gnu_header :: gnu_header where
  "ex_gnu_header = \<lparr>gh_nbuckets = 1, gh_symbias = 1, gh_bloom_size = 1, gh_bloom_shift = 6\<rparr>"

lemma ex_header: "gh_nbuckets ex_gnu_header = 1" "gh_symbias ex_gnu_header = 1" "gh_bloom_size ex_gnu_header = 1" "gh_bloom_shift ex_gnu_header = 6"
  by (simp_all add: ex_gnu_header_def)

lemma ex_names: "sym_name ex_strtab ex_symtab 0 = []" "sym_name ex_strtab ex_symtab (Suc 0) = ''malloc''"
  by (simp_all add: sym_name_def cstr_at_def ex_strtab_def ex_symtab_def ex_malloc_def)

lemma ex_hash: "std_gnu_hash ''malloc'' = 221883709"
  by (simp add: std_gnu_hash_def)

lemma ex_gnu_table_ok: "gnu_table_ok ex_gnu_header ex_strtab ex_symtab ex_gnu_table"
proof -
  have l: "length ex_symtab = 2" by (simp add: ex_symtab_def)
  have i: "Suc 0 \<le> i \<and> i < 2 \<longleftrightarrow> i = Suc 0" "i < 2 \<longleftrightarrow> i = 0 \<or> i = Suc 0" for i :: nat by auto
  have names: "cstr_at ex_strtab (unat (st_name (ex_symtab ! 0))) \<noteq> None" "cstr_at ex_strtab (unat (st_name (ex_symtab ! 1))) \<noteq> None"
    by (simp_all add: cstr_at_def ex_strtab_def ex_symtab_def ex_malloc_def)
  have b: "gh_bucket ex_gnu_header ex_strtab ex_symtab j = 0" for j by (simp add: gh_bucket_def ex_gnu_header_def)
  have bb: "bloom_bits ex_gnu_header ex_gnu_table h" for h
  proof -
    have w: "bloom_word ex_gnu_table (x AND (of_nat (gh_bloom_size ex_gnu_header) - 1)) = Some (- 1)" for x
      by (simp add: bloom_word_def word_at_def ex_gnu_table_def ex_gnu_header_def)
    have "unat (x AND 63 :: u32) < 64" for x
    proof -
      have "x AND 63 = take_bit 6 x" by (simp add: take_bit_eq_mask mask_numeral)
      then have "unat (x AND 63) = take_bit 6 (unat x)" by (simp add: unsigned_take_bit_eq)
      then show ?thesis using take_bit_nat_less_exp[of 6 "unat x"] by simp
    qed
    then show ?thesis unfolding bloom_bits_def w by (simp add: possible_bit_def)
  qed
  have p: "\<exists>j. Suc 0 = 2 ^ j" by (rule exI[of _ 0]) simp
  show ?thesis unfolding gnu_table_ok_def l
    using names bb by (auto simp: p b i ex_names ex_hash ex_header gh_chain_def ex_gnu_table_def less_Suc_eq upt_rec)
qed

lemma ex_sym: "ex_symtab ! Suc 0 = ex_malloc"
  by (simp add: ex_symtab_def)

lemma ex_check: "check_sym ex_malloc symname name \<longleftrightarrow> name = symname"
  by (simp add: check_sym_def ex_malloc_def)

theorem gnu_hash_lookup_finds_witness:
  "gnu_hash_lookup ex_strtab ex_symtab ex_gnu_table ''malloc'' = Some (Some ex_malloc) \<and>
   gnu_hash_lookup ex_strtab ex_symtab ex_gnu_table ''free'' = Some None"
proof -
  have a: "ascii ''malloc''" "ascii ''free''" by (simp_all add: ascii_def)
  have u: "[gh_symbias ex_gnu_header..<length ex_symtab] = [Suc 0]" by (simp add: ex_gnu_header_def ex_symtab_def)
  show ?thesis
    using gnu_hash_lookup_finds[OF ex_gnu_table_ok a(1)] gnu_hash_lookup_finds[OF ex_gnu_table_ok a(2)]
    unfolding find_symbol_def u by (simp add: ex_names ex_sym ex_check)
qed

text \<open>The table of a library with no hashed symbol: counting its symbols reads past its end.\<close>

lemma empty_table_count: "gnu_hash_symbol_count [1, 1, 1, 0, 0, 0, 0] = None"
proof -
  have "chain_end [1, 1, 1, 0, 0, 0, 0] 6 1 = None"
    by (subst chain_end.simps) (simp add: word_at_def)
  then have "chain_end [1, 1, 1, 0, 0, 0, 0] 6 0 = None"
    by (subst chain_end.simps) (simp add: word_at_def)
  then show ?thesis by (simp add: gnu_hash_symbol_count_def word_at_def)
qed

end
