(* ===== verification/Elf_Overrides.thy ===== *)
theory Elf_Overrides
  imports Elf_Hash Ring_Mem
begin

text \<open>
  The replacement of functions in the loaded libraries (\<^verbatim>\<open>src/src/lib/elfutils.cc\<close>): what a loaded
  library says about itself, lookup over all libraries, and the class \<^verbatim>\<open>SymbolOverrides\<close>, which
  writes the address of a hook over the entries of the libraries and can put them back.
\<close>

section \<open>Memory\<close>

type_synonym memory = "u64 \<Rightarrow> u8"

definition load64 :: "memory \<Rightarrow> u64 \<Rightarrow> u64" where
  "load64 m a = of_nat (le_nat (map (\<lambda>i. m (a + of_nat i)) [0..<8]))"

definition write64 :: "memory \<Rightarrow> u64 \<Rightarrow> u64 \<Rightarrow> memory" where
  "write64 m a v = (\<lambda>b. if b - a < 8 then le_bytes 8 (unat v) ! unat (b - a) else m b)"

text \<open>
  The memory of the process, the pages it may write, and the variables \<^verbatim>\<open>ref\<close> of the hooks.
  Writing to a page that is not writable ends the process: \<^term>\<open>None\<close>.
\<close>

record proc =
  pr_mem :: memory
  pr_writable :: "u64 \<Rightarrow> bool"
  pr_refs :: "u64 \<Rightarrow> u64"

definition page_of :: "u64 \<Rightarrow> u64 \<Rightarrow> u64" where
  "page_of page_size a = a AND NOT (page_size - 1)"

definition store64 :: "u64 \<Rightarrow> proc \<Rightarrow> u64 \<Rightarrow> u64 \<Rightarrow> proc option" where
  "store64 page_size p a v = (
     if pr_writable p (page_of page_size a) \<and> pr_writable p (page_of page_size (a + 7))
     then Some (p\<lparr>pr_mem := write64 (pr_mem p) a v\<rparr>) else None)"

section \<open>What a library says about itself\<close>

record ElfReloc =
  r_offset :: u64
  r_info :: u64

record DynamicInfo =
  di_strtab :: string
  di_strtab_size :: u64
  di_symtab :: "ElfSym list"
  di_sym_count :: u32
  di_rels :: "ElfReloc list"
  di_relas :: "ElfReloc list"
  di_jmprels :: "ElfReloc list"
  di_elf_hash :: "u32 list option"
  di_gnu_hash :: "u32 list option"
  di_base_address :: u64

text \<open>What lies at an address of the process, read as each of the kinds of table.\<close>

record elf_view =
  ev_strings :: "u64 \<Rightarrow> string"
  ev_symbols :: "u64 \<Rightarrow> ElfSym list"
  ev_relocs :: "u64 \<Rightarrow> ElfReloc list"
  ev_words :: "u64 \<Rightarrow> u32 list"
  ev_dynamic :: "u64 \<Rightarrow> (u64 \<times> u64) list"

record elf_phdr =
  p_type :: u32
  p_flags :: u32
  p_vaddr :: u64
  p_memsz :: u64

record dl_phdr_info =
  dlpi_addr :: u64
  dlpi_name :: string
  dlpi_phdr :: "elf_phdr list"
  dlpi_adds :: u64

definition DT_NULL :: u64 where "DT_NULL = 0"
definition DT_PLTRELSZ :: u64 where "DT_PLTRELSZ = 2"
definition DT_STRTAB :: u64 where "DT_STRTAB = 5"
definition DT_SYMTAB :: u64 where "DT_SYMTAB = 6"
definition DT_RELA :: u64 where "DT_RELA = 7"
definition DT_RELASZ :: u64 where "DT_RELASZ = 8"
definition DT_STRSZ :: u64 where "DT_STRSZ = 10"
definition DT_REL :: u64 where "DT_REL = 17"
definition DT_RELSZ :: u64 where "DT_RELSZ = 18"
definition DT_PLTREL :: u64 where "DT_PLTREL = 20"
definition DT_JMPREL :: u64 where "DT_JMPREL = 23"
definition DT_GNU_HASH :: u64 where "DT_GNU_HASH = 0x6ffffef5"

definition PT_LOAD :: u32 where "PT_LOAD = 1"
definition PT_DYNAMIC :: u32 where "PT_DYNAMIC = 2"
definition PF_X :: u32 where "PF_X = 1"

definition correct_address :: "u64 \<Rightarrow> u64 \<Rightarrow> u64" where
  "correct_address base_address ptr = (if ptr > base_address then ptr else base_address + ptr)"

text \<open>The addresses and sizes gathered while walking the dynamic section; zero stands for a null pointer.\<close>

record dyn_scan =
  ds_strtab :: u64
  ds_strtab_size :: u64
  ds_symtab :: u64
  ds_rels :: u64
  ds_rels_size :: u64
  ds_relas :: u64
  ds_relas_size :: u64
  ds_jmprels :: u64
  ds_jmprels_size :: u64
  ds_gnu_hash :: u64
  ds_pltrel_type :: u64

definition dyn_scan_init :: dyn_scan where
  "dyn_scan_init = \<lparr>ds_strtab = 0, ds_strtab_size = 0, ds_symtab = 0, ds_rels = 0, ds_rels_size = 0, ds_relas = 0,
     ds_relas_size = 0, ds_jmprels = 0, ds_jmprels_size = 0, ds_gnu_hash = 0, ds_pltrel_type = 0\<rparr>"

definition dyn_entry :: "u64 \<Rightarrow> u64 \<times> u64 \<Rightarrow> dyn_scan \<Rightarrow> dyn_scan" where
  "dyn_entry base e s = (
     let tag = fst e; v = snd e in
     if tag = DT_STRTAB then s\<lparr>ds_strtab := correct_address base v\<rparr>
     else if tag = DT_STRSZ then s\<lparr>ds_strtab_size := v\<rparr>
     else if tag = DT_SYMTAB then s\<lparr>ds_symtab := correct_address base v\<rparr>
     else if tag = DT_GNU_HASH then s\<lparr>ds_gnu_hash := correct_address base v\<rparr>
     else if tag = DT_REL then s\<lparr>ds_rels := correct_address base v\<rparr>
     else if tag = DT_RELA then s\<lparr>ds_relas := correct_address base v\<rparr>
     else if tag = DT_JMPREL then s\<lparr>ds_jmprels := correct_address base v\<rparr>
     else if tag = DT_RELSZ then s\<lparr>ds_rels_size := v\<rparr>
     else if tag = DT_RELASZ then s\<lparr>ds_relas_size := v\<rparr>
     else if tag = DT_PLTRELSZ then s\<lparr>ds_jmprels_size := v\<rparr>
     else if tag = DT_PLTREL then s\<lparr>ds_pltrel_type := v\<rparr>
     else s)"

definition span :: "'a list \<Rightarrow> u64 \<Rightarrow> u64 \<Rightarrow> 'a list" where
  "span xs bytes sz = take (unat (bytes div sz)) xs"

definition retrieve_dynamic_section :: "elf_view \<Rightarrow> (u64 \<times> u64) list \<Rightarrow> u64 \<Rightarrow> DynamicInfo option" where
  "retrieve_dynamic_section view dyn base = (
     let s = foldl (\<lambda>s e. dyn_entry base e s) dyn_scan_init (takeWhile (\<lambda>e. fst e \<noteq> DT_NULL) dyn);
         s = (if ds_pltrel_type s \<noteq> DT_RELA then s\<lparr>ds_jmprels := 0, ds_jmprels_size := 0\<rparr> else s);
         gnu = (if ds_gnu_hash s = 0 then None else Some (ev_words view (ds_gnu_hash s)))
     in case (case gnu of None \<Rightarrow> Some 0 | Some tbl \<Rightarrow> gnu_hash_symbol_count tbl) of
          None \<Rightarrow> None
        | Some sym_count \<Rightarrow> Some \<lparr>di_strtab = ev_strings view (ds_strtab s), di_strtab_size = ds_strtab_size s,
            di_symtab = ev_symbols view (ds_symtab s), di_sym_count = sym_count,
            di_rels = span (ev_relocs view (ds_rels s)) (ds_rels_size s) 16,
            di_relas = span (ev_relocs view (ds_relas s)) (ds_relas_size s) 24,
            di_jmprels = span (ev_relocs view (ds_jmprels s)) (ds_jmprels_size s) 24,
            di_elf_hash = None, di_gnu_hash = gnu, di_base_address = base\<rparr>)"

text \<open>
  \<open>self_addr\<close> is the address of the code itself. The inner option is \<^verbatim>\<open>std::optional\<close>, the outer one
  the access outside of a table.
\<close>

fun scan_phdrs :: "u64 \<Rightarrow> bool \<Rightarrow> u64 \<Rightarrow> elf_phdr list \<Rightarrow> elf_phdr option \<Rightarrow> elf_phdr option option" where
  "scan_phdrs self_addr exclude_self addr [] dyn = Some dyn"
| "scan_phdrs self_addr exclude_self addr (ph # phs) dyn = (
     let dyn = (if p_type ph = PT_DYNAMIC then Some ph else dyn) in
     if exclude_self \<and> p_type ph = PT_LOAD \<and> p_flags ph AND PF_X \<noteq> 0 \<and>
        p_vaddr ph + addr \<le> self_addr \<and> self_addr < p_vaddr ph + addr + p_memsz ph
     then None
     else scan_phdrs self_addr exclude_self addr phs dyn)"

definition retrieve_dynamic_info :: "elf_view \<Rightarrow> u64 \<Rightarrow> dl_phdr_info \<Rightarrow> bool \<Rightarrow> DynamicInfo option option" where
  "retrieve_dynamic_info view self_addr info exclude_self = (
     case scan_phdrs self_addr exclude_self (dlpi_addr info) (dlpi_phdr info) None of
       Some (Some phdr_dynamic) \<Rightarrow>
         map_option (\<lambda>di. if di_strtab_size di = 0 \<or> di_sym_count di = 0 \<or> di_elf_hash di = None \<and> di_gnu_hash di = None
                          then None else Some di)
           (retrieve_dynamic_section view (ev_dynamic view (dlpi_addr info + p_vaddr phdr_dynamic)) (dlpi_addr info))
     | _ \<Rightarrow> Some None)"

section \<open>Lookup over all libraries\<close>

definition lookup_in_library :: "DynamicInfo \<Rightarrow> string \<Rightarrow> bool \<Rightarrow> u64 \<Rightarrow> ElfSym option option" where
  "lookup_in_library di symname accept_null_sized_symbol not_sym = do {
     s \<leftarrow> (case di_gnu_hash di of
            Some tbl \<Rightarrow> gnu_hash_lookup (di_strtab di) (di_symtab di) tbl symname
          | None \<Rightarrow> (case di_elf_hash di of
              Some tbl \<Rightarrow> elf_hash_lookup (di_strtab di) (di_symtab di) tbl symname
            | None \<Rightarrow> Some None));
     Some (case s of
       Some s \<Rightarrow> if (accept_null_sized_symbol \<or> st_size s > 0) \<and> st_value s + di_base_address di \<noteq> not_sym
                 then Some (s\<lparr>st_value := st_value s + di_base_address di\<rparr>) else None
     | None \<Rightarrow> None)
   }"

definition empty_symbol :: ElfSym where
  "empty_symbol = \<lparr>st_name = 0, st_info = 0, st_shndx = 0, st_value = 0, st_size = 0\<rparr>"

fun lookup_symbol :: "elf_view \<Rightarrow> u64 \<Rightarrow> dl_phdr_info list \<Rightarrow> string \<Rightarrow> bool \<Rightarrow> u64 \<Rightarrow> (ElfSym \<times> string) option" where
  "lookup_symbol view self_addr [] name acc not_this = Some (empty_symbol, [])"
| "lookup_symbol view self_addr (info # libs) name acc not_this = do {
     di \<leftarrow> retrieve_dynamic_info view self_addr info False;
     found \<leftarrow> (case di of None \<Rightarrow> Some None | Some di \<Rightarrow> lookup_in_library di name acc not_this);
     (case found of Some s \<Rightarrow> Some (s, dlpi_name info) | None \<Rightarrow> lookup_symbol view self_addr libs name acc not_this)
   }"

definition count_loaded_libraries :: "dl_phdr_info list \<Rightarrow> int" where
  "count_loaded_libraries libs = (case libs of [] \<Rightarrow> 0 | info # _ \<Rightarrow> sint (ucast (dlpi_adds info) :: u32))"

section \<open>Overriding one symbol everywhere\<close>

definition elf64_r_sym :: "u64 \<Rightarrow> u32" where
  "elf64_r_sym info = ucast (drop_bit 32 info)"

definition reloc_symname :: "DynamicInfo \<Rightarrow> ElfReloc \<Rightarrow> string option" where
  "reloc_symname di reloc = do {
     s \<leftarrow> sym_at (di_symtab di) (elf64_r_sym (r_info reloc));
     cstr_at (di_strtab di) (unat (st_name s))
   }"

definition override_entry :: "u64 \<Rightarrow> (u64 \<Rightarrow> bool) \<Rightarrow> proc \<Rightarrow> u64 \<Rightarrow> u64 \<Rightarrow> proc option" where
  "override_entry page_size mprotect p entry_addr new_value = (
     let aligned_addr = page_of page_size entry_addr in
     if mprotect aligned_addr
     then store64 page_size (p\<lparr>pr_writable := (pr_writable p)(aligned_addr := True)\<rparr>) entry_addr new_value
     else Some p)"

fun override_relocations :: "u64 \<Rightarrow> (u64 \<Rightarrow> bool) \<Rightarrow> string \<Rightarrow> u64 \<Rightarrow> u64 \<Rightarrow> DynamicInfo \<Rightarrow> ElfReloc list \<Rightarrow> proc \<Rightarrow> proc option" where
  "override_relocations page_size mprotect name new_symbol do_not_override di [] p = Some p"
| "override_relocations page_size mprotect name new_symbol do_not_override di (reloc # relocs) p = do {
     symname \<leftarrow> reloc_symname di reloc;
     let addr = r_offset reloc + di_base_address di;
     p \<leftarrow> (if symname = name \<and> addr \<noteq> do_not_override then override_entry page_size mprotect p addr new_symbol else Some p);
     override_relocations page_size mprotect name new_symbol do_not_override di relocs p
   }"

definition contains_substr :: "string \<Rightarrow> string \<Rightarrow> bool" where
  "contains_substr s pat \<longleftrightarrow> (\<exists>i \<le> length s. take (length pat) (drop i s) = pat)"

definition excluded_library :: "string \<Rightarrow> bool" where
  "excluded_library name \<longleftrightarrow> contains_substr name ''linux-vdso'' \<or> contains_substr name ''/ld-linux''"

fun override_symbol :: "u64 \<Rightarrow> (u64 \<Rightarrow> bool) \<Rightarrow> elf_view \<Rightarrow> u64 \<Rightarrow> bool \<Rightarrow> dl_phdr_info list \<Rightarrow> string \<Rightarrow> u64 \<Rightarrow> u64 \<Rightarrow> proc \<Rightarrow> proc option" where
  "override_symbol page_size mprotect view self_addr is_exe [] name new_symbol do_not_override p = Some p"
| "override_symbol page_size mprotect view self_addr is_exe (info # libs) name new_symbol do_not_override p = do {
     di \<leftarrow> retrieve_dynamic_info view self_addr info (\<not> is_exe);
     p \<leftarrow> (case di of
            None \<Rightarrow> Some p
          | Some di \<Rightarrow> if excluded_library (dlpi_name info) then Some p
              else override_relocations page_size mprotect name new_symbol do_not_override di (di_rels di @ di_relas di @ di_jmprels di) p);
     override_symbol page_size mprotect view self_addr False libs name new_symbol do_not_override p
   }"

section \<open>The class SymbolOverrides\<close>

record SymbolOverrideInfo =
  oi_ref_symbol :: u64
  oi_new_symbol :: u64
  oi_do_not_override_this_symbol :: u64

record LibraryRevertInfo =
  lr_library_name :: string
  lr_old_value_per_address :: "(u64, u64) umap"
  lr_processed :: bool

record SymbolOverrides =
  so_revert_info_per_library :: "(u64, LibraryRevertInfo) umap"
  so_overrides :: "(string, SymbolOverrideInfo) umap"
  so_nb_loaded_libs :: int

definition so_init :: SymbolOverrides where
  "so_init = \<lparr>so_revert_info_per_library = [], so_overrides = [], so_nb_loaded_libs = -1\<rparr>"

definition register_override :: "SymbolOverrides \<Rightarrow> string \<Rightarrow> u64 \<Rightarrow> u64 \<Rightarrow> u64 \<Rightarrow> SymbolOverrides \<times> bool" where
  "register_override so symbol_name new_symbol ref_symbol do_not_override = (
     case map_of (so_overrides so) symbol_name of
       Some _ \<Rightarrow> (so, False)
     | None \<Rightarrow> (so\<lparr>so_overrides := AList.update symbol_name
         \<lparr>oi_ref_symbol = ref_symbol, oi_new_symbol = new_symbol, oi_do_not_override_this_symbol = do_not_override\<rparr>
         (so_overrides so)\<rparr>, True))"

definition override_reloc :: "u64 \<Rightarrow> (u64 \<Rightarrow> bool) \<Rightarrow> (string, SymbolOverrideInfo) umap \<Rightarrow> string \<Rightarrow> u64 \<Rightarrow>
    proc \<times> LibraryRevertInfo \<Rightarrow> (proc \<times> LibraryRevertInfo) option" where
  "override_reloc page_size mprotect overrides symname addr s = (
     let (p, ri) = s in
     case map_of overrides symname of
       None \<Rightarrow> Some (p, ri)
     | Some ov \<Rightarrow>
         if addr \<noteq> oi_do_not_override_this_symbol ov \<and> addr \<notin> fst ` set (lr_old_value_per_address ri) \<and>
            pr_refs p (oi_ref_symbol ov) \<noteq> 0
         then map_option (\<lambda>p'. (p', ri\<lparr>lr_old_value_per_address :=
                 AList.update addr (load64 (pr_mem p) addr) (lr_old_value_per_address ri)\<rparr>))
               (override_entry page_size mprotect p addr (oi_new_symbol ov))
         else Some (p, ri))"

fun process_relocations :: "u64 \<Rightarrow> (u64 \<Rightarrow> bool) \<Rightarrow> (string, SymbolOverrideInfo) umap \<Rightarrow> DynamicInfo \<Rightarrow> ElfReloc list \<Rightarrow>
    proc \<times> LibraryRevertInfo \<Rightarrow> (proc \<times> LibraryRevertInfo) option" where
  "process_relocations page_size mprotect overrides di [] s = Some s"
| "process_relocations page_size mprotect overrides di (reloc # relocs) s = do {
     symname \<leftarrow> reloc_symname di reloc;
     s \<leftarrow> override_reloc page_size mprotect overrides symname (r_offset reloc + di_base_address di) s;
     process_relocations page_size mprotect overrides di relocs s
   }"

definition apply_overrides_to_library :: "u64 \<Rightarrow> (u64 \<Rightarrow> bool) \<Rightarrow> DynamicInfo \<Rightarrow> string \<Rightarrow> proc \<times> SymbolOverrides \<Rightarrow>
    (proc \<times> SymbolOverrides) option" where
  "apply_overrides_to_library page_size mprotect di library_name s = (
     let (p, so) = s in
     if excluded_library library_name then Some (p, so)
     else case map_of (so_revert_info_per_library so) (di_base_address di) of
       Some ri \<Rightarrow> Some (p, so\<lparr>so_revert_info_per_library :=
         AList.update (di_base_address di) (ri\<lparr>lr_processed := True\<rparr>) (so_revert_info_per_library so)\<rparr>)
     | None \<Rightarrow>
         let ri = \<lparr>lr_library_name = library_name, lr_old_value_per_address = [], lr_processed = True\<rparr> in
         map_option (\<lambda>(p, ri). (p, so\<lparr>so_revert_info_per_library :=
             AList.update (di_base_address di) ri (so_revert_info_per_library so)\<rparr>))
           (process_relocations page_size mprotect (so_overrides so) di
             (di_rels di @ di_relas di @ di_jmprels di) (p, ri)))"

fun apply_overrides_to_libraries :: "u64 \<Rightarrow> (u64 \<Rightarrow> bool) \<Rightarrow> elf_view \<Rightarrow> u64 \<Rightarrow> bool \<Rightarrow> dl_phdr_info list \<Rightarrow>
    proc \<times> SymbolOverrides \<Rightarrow> (proc \<times> SymbolOverrides) option" where
  "apply_overrides_to_libraries page_size mprotect view self_addr is_exe [] s = Some s"
| "apply_overrides_to_libraries page_size mprotect view self_addr is_exe (info # libs) s = do {
     di \<leftarrow> retrieve_dynamic_info view self_addr info (\<not> is_exe);
     s \<leftarrow> (case di of None \<Rightarrow> Some s | Some di \<Rightarrow> apply_overrides_to_library page_size mprotect di (dlpi_name info) s);
     apply_overrides_to_libraries page_size mprotect view self_addr False libs s
   }"

definition unmark :: "(u64, LibraryRevertInfo) umap \<Rightarrow> (u64, LibraryRevertInfo) umap" where
  "unmark = map (\<lambda>(b, ri). (b, ri\<lparr>lr_processed := False\<rparr>))"

definition so_update_overrides :: "u64 \<Rightarrow> (u64 \<Rightarrow> bool) \<Rightarrow> elf_view \<Rightarrow> u64 \<Rightarrow> dl_phdr_info list \<Rightarrow> proc \<times> SymbolOverrides \<Rightarrow>
    (proc \<times> SymbolOverrides) option" where
  "so_update_overrides page_size mprotect view self_addr libs s = (
     let (p, so) = s; n = count_loaded_libraries libs in
     if n = so_nb_loaded_libs so then Some (p, so)
     else
       let so = so\<lparr>so_nb_loaded_libs := n, so_revert_info_per_library :=
             unmark (so_revert_info_per_library so)\<rparr>
       in map_option (\<lambda>(p, so). (p, so\<lparr>so_revert_info_per_library :=
              filter (\<lambda>(b, ri). lr_processed ri) (so_revert_info_per_library so)\<rparr>))
            (apply_overrides_to_libraries page_size mprotect view self_addr True libs (p, so)))"

fun lookup_refs :: "elf_view \<Rightarrow> u64 \<Rightarrow> dl_phdr_info list \<Rightarrow> (string \<times> SymbolOverrideInfo) list \<Rightarrow> proc \<Rightarrow> proc option" where
  "lookup_refs view self_addr libs [] p = Some p"
| "lookup_refs view self_addr libs ((name, ov) # ovs) p = do {
     (s, obj) \<leftarrow> lookup_symbol view self_addr libs name False 0;
     let p = (if st_value s > 0 \<and> st_size s > 0 then p\<lparr>pr_refs := (pr_refs p)(oi_ref_symbol ov := st_value s)\<rparr> else p);
     lookup_refs view self_addr libs ovs p
   }"

definition apply_overrides :: "u64 \<Rightarrow> (u64 \<Rightarrow> bool) \<Rightarrow> elf_view \<Rightarrow> u64 \<Rightarrow> dl_phdr_info list \<Rightarrow> proc \<times> SymbolOverrides \<Rightarrow>
    (proc \<times> SymbolOverrides) option" where
  "apply_overrides page_size mprotect view self_addr libs s = do {
     p \<leftarrow> lookup_refs view self_addr libs (so_overrides (snd s)) (fst s);
     so_update_overrides page_size mprotect view self_addr libs (p, snd s)
   }"

fun write_back :: "u64 \<Rightarrow> (u64 \<times> u64) list \<Rightarrow> proc \<Rightarrow> proc option" where
  "write_back page_size [] p = Some p"
| "write_back page_size ((a, v) # entries) p = do { p \<leftarrow> store64 page_size p a v; write_back page_size entries p }"

definition restore_library_overrides :: "u64 \<Rightarrow> SymbolOverrides \<Rightarrow> string \<Rightarrow> u64 \<Rightarrow> proc \<Rightarrow> proc option" where
  "restore_library_overrides page_size so library_name base_address p = (
     case map_of (so_revert_info_per_library so) base_address of
       None \<Rightarrow> Some p
     | Some ri \<Rightarrow> if lr_library_name ri \<noteq> library_name then Some p
                 else write_back page_size (lr_old_value_per_address ri) p)"

fun restore_libraries :: "u64 \<Rightarrow> SymbolOverrides \<Rightarrow> dl_phdr_info list \<Rightarrow> proc \<Rightarrow> proc option" where
  "restore_libraries page_size so [] p = Some p"
| "restore_libraries page_size so (info # libs) p = do {
     p \<leftarrow> restore_library_overrides page_size so (dlpi_name info) (dlpi_addr info) p;
     restore_libraries page_size so libs p
   }"

definition so_restore_overrides :: "u64 \<Rightarrow> dl_phdr_info list \<Rightarrow> proc \<times> SymbolOverrides \<Rightarrow> (proc \<times> SymbolOverrides) option" where
  "so_restore_overrides page_size libs s =
     map_option (\<lambda>p. (p, (snd s)\<lparr>so_revert_info_per_library := []\<rparr>)) (restore_libraries page_size (snd s) libs (fst s))"

section \<open>Cells of memory\<close>

definition covers :: "u64 \<Rightarrow> u64 \<Rightarrow> bool" where
  "covers a x \<longleftrightarrow> x - a < 8"

lemma le_nat_less: "le_nat bs < 256 ^ length bs"
proof (induction bs)
  case (Cons b bs)
  have "unat b < 256" using unsigned_less[of b] by simp
  then show ?case using Cons by (simp add: le_nat_def)
qed (simp add: le_nat_def)

lemma le_bytes_nat: "le_bytes (length bs) (le_nat bs) = bs"
proof (induction bs)
  case (Cons b bs)
  have b: "unat b < 256" using unsigned_less[of b] by simp
  have "(of_nat (unat b + 256 * le_nat bs) :: u8) = b + 256 * of_nat (le_nat bs)" by simp
  also have "(256 :: u8) = 0" by simp
  finally have "(of_nat (le_nat (b # bs)) :: u8) = b" by (simp add: le_nat_def)
  moreover have "le_nat (b # bs) div 256 = le_nat bs" using b by (simp add: le_nat_def)
  ultimately show ?case using Cons by (simp add: le_bytes_Suc)
qed (simp add: le_bytes_def)

lemma write64_out: "\<not> covers a x \<Longrightarrow> write64 m a v x = m x"
  by (simp add: write64_def covers_def)

lemma write64_loaded:
  assumes "covers a x"
  shows "write64 m a (load64 m' a) x = m' x"
proof -
  let ?bs = "map (\<lambda>i. m' (a + of_nat i)) [0..<8]"
  have "le_nat ?bs < 2 ^ 64" using le_nat_less[of ?bs] by simp
  then have "unat (load64 m' a) = le_nat ?bs" unfolding load64_def by (rule unat_of_nat_u64)
  then have "le_bytes 8 (unat (load64 m' a)) = ?bs" using le_bytes_nat[of ?bs] by simp
  moreover have "unat (x - a) < 8" using assms by (simp add: covers_def word_less_nat_alt)
  ultimately show ?thesis using assms by (simp add: write64_def covers_def)
qed

lemma load64_cong:
  assumes "\<And>x. covers a x \<Longrightarrow> m x = m' x"
  shows "load64 m a = load64 m' a"
proof -
  have "covers a (a + of_nat i)" if "i < 8" for i
    using that unat_of_nat_u64[of i] by (simp add: covers_def word_less_nat_alt)
  then have "map (\<lambda>i. m (a + of_nat i)) [0..<8] = map (\<lambda>i. m' (a + of_nat i)) [0..<8]" using assms by simp
  then show ?thesis unfolding load64_def by (simp only:)
qed

text \<open>Writing back what \<open>m0\<close> holds at some cells.\<close>

definition cells_writable :: "u64 \<Rightarrow> proc \<Rightarrow> u64 set \<Rightarrow> bool" where
  "cells_writable page_size p as \<longleftrightarrow> (\<forall>a\<in>as. pr_writable p (page_of page_size a) \<and> pr_writable p (page_of page_size (a + 7)))"

lemma write_back_correct:
  assumes "cells_writable ps p (fst ` set es)" "\<forall>(a, v)\<in>set es. v = load64 m0 a"
  shows "\<exists>p'. write_back ps es p = Some p' \<and> pr_writable p' = pr_writable p \<and>
    (\<forall>x. pr_mem p' x = (if \<exists>a\<in>fst ` set es. covers a x then m0 x else pr_mem p x))"
  using assms
proof (induction es arbitrary: p)
  case (Cons e es)
  obtain a v where e: "e = (a, v)" by (cases e)
  let ?p = "p\<lparr>pr_mem := write64 (pr_mem p) a v\<rparr>"
  have st: "store64 ps p a v = Some ?p" using Cons.prems(1) e by (simp add: store64_def cells_writable_def)
  have "cells_writable ps ?p (fst ` set es)" "\<forall>(a, v)\<in>set es. v = load64 m0 a"
    using Cons.prems by (auto simp: cells_writable_def)
  from Cons.IH[OF this] obtain p' where p': "write_back ps es ?p = Some p'" "pr_writable p' = pr_writable p"
    "\<forall>x. pr_mem p' x = (if \<exists>a\<in>fst ` set es. covers a x then m0 x else pr_mem ?p x)" by auto
  have "v = load64 m0 a" using Cons.prems(2) e by simp
  then have "pr_mem ?p x = (if covers a x then m0 x else pr_mem p x)" for x
    by (simp add: write64_out write64_loaded)
  then show ?case using p' st e by auto
qed simp

section \<open>Overriding the entries of one library\<close>

definition cells :: "DynamicInfo \<Rightarrow> u64 set" where
  "cells di = (\<lambda>r. r_offset r + di_base_address di) ` set (di_rels di @ di_relas di @ di_jmprels di)"

definition separate :: "u64 set \<Rightarrow> u64 set \<Rightarrow> bool" where
  "separate as bs \<longleftrightarrow> (\<forall>a\<in>as. \<forall>b\<in>bs. a \<noteq> b \<longrightarrow> (\<forall>x. \<not> (covers a x \<and> covers b x)))"

text \<open>
  The entries \<open>es\<close> overridden so far hold what memory held at first, and nothing else has changed.
\<close>

definition overridden :: "u64 \<Rightarrow> memory \<Rightarrow> proc \<Rightarrow> (u64 \<times> u64) set \<Rightarrow> bool" where
  "overridden ps m0 p es \<longleftrightarrow> (\<forall>(a, v)\<in>es. v = load64 m0 a) \<and> cells_writable ps p (fst ` es) \<and>
     (\<forall>x. (\<forall>a\<in>fst ` es. \<not> covers a x) \<longrightarrow> pr_mem p x = m0 x)"

lemma override_entry_effect:
  assumes "mprotect (page_of ps a)" "page_of ps (a + 7) = page_of ps a"
  shows "\<exists>p'. override_entry ps mprotect p a v = Some p' \<and> pr_mem p' = write64 (pr_mem p) a v \<and>
    pr_refs p' = pr_refs p \<and> pr_writable p' = (pr_writable p)(page_of ps a := True)"
  using assms by (simp add: override_entry_def store64_def Let_def)

lemma overridden_step:
  assumes o: "overridden ps m0 p es" and a: "a \<notin> fst ` es" "separate {a} (fst ` es)"
    and pg: "page_of ps (a + 7) = page_of ps a"
    and p': "pr_mem p' = write64 (pr_mem p) a v" "pr_writable p' = (pr_writable p)(page_of ps a := True)"
  shows "overridden ps m0 p' (insert (a, load64 (pr_mem p) a) es)"
proof -
  have "pr_mem p x = m0 x" if "covers a x" for x
  proof -
    have "\<not> covers b x" if "b \<in> fst ` es" for b using that a \<open>covers a x\<close> unfolding separate_def by blast
    then show ?thesis using o unfolding overridden_def by blast
  qed
  then have l: "load64 (pr_mem p) a = load64 m0 a" by (rule load64_cong)
  have w: "cells_writable ps p' (insert a (fst ` es))" using o p'(2) pg by (auto simp: overridden_def cells_writable_def)
  have m: "pr_mem p' x = m0 x" if "\<forall>b\<in>insert a (fst ` es). \<not> covers b x" for x
    using that o p'(1) by (simp add: overridden_def write64_out)
  show ?thesis using o l w m by (simp add: overridden_def)
qed

lemma override_reloc_cases:
  assumes "override_reloc ps mprotect ovs name a (p, ri) = Some s" and pg: "page_of ps (a + 7) = page_of ps a" and mp: "\<forall>a. mprotect a"
  obtains (kept) "s = (p, ri)" "\<forall>ov. map_of ovs name = Some ov \<longrightarrow> a = oi_do_not_override_this_symbol ov \<or>
      a \<in> fst ` set (lr_old_value_per_address ri) \<or> pr_refs p (oi_ref_symbol ov) = 0"
  | (written) ov p1 where "map_of ovs name = Some ov" "a \<notin> fst ` set (lr_old_value_per_address ri)"
    "s = (p1, ri\<lparr>lr_old_value_per_address := AList.update a (load64 (pr_mem p) a) (lr_old_value_per_address ri)\<rparr>)"
    "pr_mem p1 = write64 (pr_mem p) a (oi_new_symbol ov)" "pr_refs p1 = pr_refs p" "pr_writable p1 = (pr_writable p)(page_of ps a := True)"
    "a \<noteq> oi_do_not_override_this_symbol ov" "pr_refs p (oi_ref_symbol ov) \<noteq> 0"
proof (cases "\<exists>ov. map_of ovs name = Some ov \<and> a \<noteq> oi_do_not_override_this_symbol ov \<and>
      a \<notin> fst ` set (lr_old_value_per_address ri) \<and> pr_refs p (oi_ref_symbol ov) \<noteq> 0")
  case True
  then obtain ov where ov: "map_of ovs name = Some ov" "a \<noteq> oi_do_not_override_this_symbol ov"
    "a \<notin> fst ` set (lr_old_value_per_address ri)" "pr_refs p (oi_ref_symbol ov) \<noteq> 0" by blast
  from override_entry_effect[of mprotect ps a p "oi_new_symbol ov"] mp pg obtain p1 where
    "override_entry ps mprotect p a (oi_new_symbol ov) = Some p1" "pr_mem p1 = write64 (pr_mem p) a (oi_new_symbol ov)"
    "pr_refs p1 = pr_refs p" "pr_writable p1 = (pr_writable p)(page_of ps a := True)" by auto
  then show ?thesis using assms(1) ov that(2) by (auto simp: override_reloc_def)
next
  case False
  then have "s = (p, ri)" using assms(1) by (auto simp: override_reloc_def split: option.splits if_splits)
  then show ?thesis using False that(1) by blast
qed

lemma process_relocations_overridden:
  assumes mp: "\<forall>a. mprotect a" and pg: "\<forall>a\<in>cells di. page_of ps (a + 7) = page_of ps a"
    and sep: "separate (cells di) (cells di \<union> others)" "cells di \<inter> others = {}" "fst ` es \<subseteq> others"
    and "set rs \<subseteq> set (di_rels di @ di_relas di @ di_jmprels di)"
    and "process_relocations ps mprotect ovs di rs (p, ri) = Some (p', ri')"
    and "overridden ps m0 p (es \<union> set (lr_old_value_per_address ri))"
    and "umap_wf (lr_old_value_per_address ri)" "fst ` set (lr_old_value_per_address ri) \<subseteq> cells di"
  shows "overridden ps m0 p' (es \<union> set (lr_old_value_per_address ri')) \<and> umap_wf (lr_old_value_per_address ri') \<and>
    fst ` set (lr_old_value_per_address ri') \<subseteq> cells di \<and> lr_library_name ri' = lr_library_name ri \<and>
    lr_processed ri' = lr_processed ri \<and> pr_refs p' = pr_refs p"
  using assms(6-)
proof (induction rs arbitrary: p ri)
  case (Cons r rs)
  let ?a = "r_offset r + di_base_address di" and ?old = "lr_old_value_per_address ri"
  from Cons.prems(2) obtain name s where
    s: "override_reloc ps mprotect ovs name ?a (p, ri) = Some s" and
    rest: "process_relocations ps mprotect ovs di rs s = Some (p', ri')"
    by (auto simp: bind_eq_Some_conv)
  have rs: "set rs \<subseteq> set (di_rels di @ di_relas di @ di_jmprels di)" using Cons.prems(1) by auto
  have ac: "?a \<in> cells di" using Cons.prems(1) by (auto simp: cells_def)
  from s bspec[OF pg ac] mp show ?case
  proof (cases rule: override_reloc_cases)
    case kept
    then show ?thesis using Cons.IH[OF rs _ Cons.prems(3-5)] rest by simp
  next
    case 2: (written ov p1)
    let ?ri = "ri\<lparr>lr_old_value_per_address := AList.update ?a (load64 (pr_mem p) ?a) ?old\<rparr>"
    have nin: "?a \<notin> fst ` (es \<union> set ?old)" using 2(2) ac sep(2,3) by auto
    have "fst ` (es \<union> set ?old) \<subseteq> cells di \<union> others" using sep(3) Cons.prems(5) by auto
    then have sp: "separate {?a} (fst ` (es \<union> set ?old))" using sep(1) ac unfolding separate_def by blast
    have set: "set (AList.update ?a (load64 (pr_mem p) ?a) ?old) = insert (?a, load64 (pr_mem p) ?a) (set ?old)"
      using 2(2) Cons.prems(4) by (auto simp: set_umap_update image_iff)
    have "overridden ps m0 p1 (es \<union> set (lr_old_value_per_address ?ri))"
      using overridden_step[OF Cons.prems(3) nin sp bspec[OF pg ac] 2(4,6)] by (simp add: set)
    moreover have "fst ` set (lr_old_value_per_address ?ri) \<subseteq> cells di" using set ac Cons.prems(5) by simp
    ultimately show ?thesis using Cons.IH[OF rs, of p1 ?ri] rest Cons.prems(4) 2(3,5) by simp
  qed
qed simp

section \<open>All libraries\<close>

text \<open>The libraries that an update looks at, with what they say about themselves and their name.\<close>

fun considered :: "elf_view \<Rightarrow> u64 \<Rightarrow> bool \<Rightarrow> dl_phdr_info list \<Rightarrow> (DynamicInfo \<times> string) list" where
  "considered view self_addr is_exe [] = []"
| "considered view self_addr is_exe (info # libs) =
     (case retrieve_dynamic_info view self_addr info (\<not> is_exe) of
        Some (Some di) \<Rightarrow> if excluded_library (dlpi_name info) then [] else [(di, dlpi_name info)]
      | _ \<Rightarrow> []) @ considered view self_addr False libs"

definition bases :: "(DynamicInfo \<times> string) set \<Rightarrow> u64 set" where
  "bases C = (di_base_address \<circ> fst) ` C"

definition libs_separate :: "u64 \<Rightarrow> (DynamicInfo \<times> string) set \<Rightarrow> bool" where
  "libs_separate ps C \<longleftrightarrow>
     (\<forall>c\<in>C. \<forall>c'\<in>C. di_base_address (fst c) = di_base_address (fst c') \<longrightarrow> c = c') \<and>
     (\<forall>c\<in>C. \<forall>c'\<in>C. separate (cells (fst c)) (cells (fst c')) \<and> (c \<noteq> c' \<longrightarrow> cells (fst c) \<inter> cells (fst c') = {})) \<and>
     (\<forall>c\<in>C. \<forall>a\<in>cells (fst c). page_of ps (a + 7) = page_of ps a)"

definition revert_entries :: "(u64, LibraryRevertInfo) umap \<Rightarrow> (u64 \<times> u64) set" where
  "revert_entries rv = (\<Union>(b, ri)\<in>set rv. set (lr_old_value_per_address ri))"

definition revert_ok :: "(DynamicInfo \<times> string) set \<Rightarrow> (u64, LibraryRevertInfo) umap \<Rightarrow> bool" where
  "revert_ok C rv \<longleftrightarrow> umap_wf rv \<and> (\<forall>(b, ri)\<in>set rv. \<exists>c\<in>C. di_base_address (fst c) = b \<and> lr_library_name ri = snd c \<and>
     umap_wf (lr_old_value_per_address ri) \<and> fst ` set (lr_old_value_per_address ri) \<subseteq> cells (fst c))"

definition override_inv :: "u64 \<Rightarrow> memory \<Rightarrow> (DynamicInfo \<times> string) set \<Rightarrow> proc \<times> SymbolOverrides \<Rightarrow> bool" where
  "override_inv ps m0 C s \<longleftrightarrow> revert_ok C (so_revert_info_per_library (snd s)) \<and>
     overridden ps m0 (fst s) (revert_entries (so_revert_info_per_library (snd s)))"

lemma umap_split:
  assumes "umap_wf m" "map_of m k = Some v"
  shows "set m = insert (k, v) {p \<in> set m. fst p \<noteq> k}"
  using assms by (auto simp: umap_wf_mem_iff intro: map_of_SomeD)

lemma revert_entries_update:
  "umap_wf rv \<Longrightarrow> revert_entries (AList.update b ri rv) =
     set (lr_old_value_per_address ri) \<union> (\<Union>(b, ri)\<in>{p \<in> set rv. fst p \<noteq> b}. set (lr_old_value_per_address ri))"
  by (simp add: revert_entries_def set_umap_update)

lemma revert_entries_new:
  assumes "umap_wf rv" "map_of rv b = None"
  shows "revert_entries (AList.update b ri rv) = revert_entries rv \<union> set (lr_old_value_per_address ri)"
proof -
  have "{p \<in> set rv. fst p \<noteq> b} = set rv" using assms(2) by (auto simp: map_of_eq_None_iff rev_image_eqI)
  then show ?thesis unfolding revert_entries_update[OF assms(1)] by (simp add: revert_entries_def Un_commute)
qed

lemma revert_entries_same:
  assumes "umap_wf rv" "map_of rv b = Some ri0" "lr_old_value_per_address ri = lr_old_value_per_address ri0"
  shows "revert_entries (AList.update b ri rv) = revert_entries rv"
  unfolding revert_entries_update[OF assms(1)] unfolding revert_entries_def
  by (subst (2) umap_split[OF assms(1,2)]) (simp add: assms(3))

lemma revert_ok_update:
  assumes "revert_ok C rv" "c \<in> C" "b = di_base_address (fst c)" "lr_library_name ri = snd c" "umap_wf (lr_old_value_per_address ri)"
    "fst ` set (lr_old_value_per_address ri) \<subseteq> cells (fst c)"
  shows "revert_ok C (AList.update b ri rv)"
proof -
  have wf: "umap_wf rv" using assms(1) by (simp add: revert_ok_def)
  then show ?thesis using assms unfolding revert_ok_def set_umap_update[OF wf] by (auto simp del: fst_conv snd_conv)
qed

lemma separate_Un: "separate A (B \<union> C) \<longleftrightarrow> separate A B \<and> separate A C"
  unfolding separate_def by blast

lemma separate_UN: "separate A (\<Union>i\<in>I. B i) \<longleftrightarrow> (\<forall>i\<in>I. separate A (B i))"
  unfolding separate_def by blast

lemma libs_separateD:
  assumes "libs_separate ps C"
  shows "c \<in> C \<Longrightarrow> c' \<in> C \<Longrightarrow> separate (cells (fst c)) (cells (fst c'))"
    "c \<in> C \<Longrightarrow> c' \<in> C \<Longrightarrow> c \<noteq> c' \<Longrightarrow> cells (fst c) \<inter> cells (fst c') = {}"
    "c \<in> C \<Longrightarrow> c' \<in> C \<Longrightarrow> di_base_address (fst c) = di_base_address (fst c') \<Longrightarrow> c = c'"
    "c \<in> C \<Longrightarrow> \<forall>a\<in>cells (fst c). page_of ps (a + 7) = page_of ps a"
  using assms unfolding libs_separate_def by blast+

lemma apply_library_inv:
  assumes mp: "\<forall>a. mprotect a" and C: "libs_separate ps C" "c \<in> C" and inv: "override_inv ps m0 C (p, so)"
    and nx: "\<not> excluded_library (snd c)"
    and run: "apply_overrides_to_library ps mprotect (fst c) (snd c) (p, so) = Some (p', so')"
  shows "override_inv ps m0 C (p', so') \<and> pr_refs p' = pr_refs p \<and> so_overrides so' = so_overrides so \<and> so_nb_loaded_libs so' = so_nb_loaded_libs so \<and>
    (\<exists>ri. lr_processed ri \<and> so_revert_info_per_library so' = AList.update (di_base_address (fst c)) ri (so_revert_info_per_library so))"
proof -
  let ?b = "di_base_address (fst c)" and ?rv = "so_revert_info_per_library so"
  have rv: "revert_ok C ?rv" "umap_wf ?rv" and ov: "overridden ps m0 p (revert_entries ?rv)"
    using inv by (auto simp: override_inv_def revert_ok_def)
  show ?thesis
  proof (cases "map_of ?rv ?b")
    case (Some ri)
    then have "(?b, ri) \<in> set ?rv" by (rule map_of_SomeD)
    with rv(1) obtain c' where c': "c' \<in> C" "di_base_address (fst c') = ?b" "lr_library_name ri = snd c'"
      "umap_wf (lr_old_value_per_address ri)" "fst ` set (lr_old_value_per_address ri) \<subseteq> cells (fst c')"
      unfolding revert_ok_def by blast
    have "c' = c" using libs_separateD(3)[OF C(1) c'(1) C(2)] c'(2) by blast
    then have "revert_ok C (AList.update ?b (ri\<lparr>lr_processed := True\<rparr>) ?rv)"
      using revert_ok_update[OF rv(1) C(2) refl, of "ri\<lparr>lr_processed := True\<rparr>"] c' by simp
    moreover have "p' = p" "so' = so\<lparr>so_revert_info_per_library := AList.update ?b (ri\<lparr>lr_processed := True\<rparr>) ?rv\<rparr>"
      using run Some nx by (auto simp: apply_overrides_to_library_def)
    ultimately show ?thesis
      using ov revert_entries_same[OF rv(2) Some, of "ri\<lparr>lr_processed := True\<rparr>"]
      by (intro conjI exI[of _ "ri\<lparr>lr_processed := True\<rparr>"]) (simp_all add: override_inv_def)
  next
    case None
    let ?ri = "\<lparr>lr_library_name = snd c, lr_old_value_per_address = [], lr_processed = True\<rparr>"
    let ?rs = "di_rels (fst c) @ di_relas (fst c) @ di_jmprels (fst c)"
    let ?others = "\<Union>c'\<in>C - {c}. cells (fst c')"
    from run None nx obtain ri' where r: "process_relocations ps mprotect (so_overrides so) (fst c) ?rs (p, ?ri) = Some (p', ri')"
      and so': "so' = so\<lparr>so_revert_info_per_library := AList.update ?b ri' ?rv\<rparr>"
      by (auto simp: apply_overrides_to_library_def)
    have sep: "separate (cells (fst c)) (cells (fst c) \<union> ?others)"
      unfolding separate_Un separate_UN by (intro conjI ballI libs_separateD(1)[OF C]) (use C(2) in simp_all)
    have "cells (fst c) \<inter> cells (fst c') = {}" if "c' \<in> C - {c}" for c' using libs_separateD(2)[OF C, of c'] that by blast
    then have sep2: "cells (fst c) \<inter> ?others = {}" by (simp add: Int_UN_distrib)
    have es: "fst ` revert_entries ?rv \<subseteq> ?others"
    proof
      fix a assume "a \<in> fst ` revert_entries ?rv"
      then obtain b ri where bri: "(b, ri) \<in> set ?rv" "a \<in> fst ` set (lr_old_value_per_address ri)" by (auto simp: revert_entries_def)
      with rv(1) obtain c' where c': "c' \<in> C" "di_base_address (fst c') = b" "a \<in> cells (fst c')" unfolding revert_ok_def by blast
      have "c' \<noteq> c" using None bri(1) c'(2) rv(2) by (auto simp: umap_wf_mem_iff)
      then show "a \<in> ?others" using c' by blast
    qed
    have pg: "\<forall>a\<in>cells (fst c). page_of ps (a + 7) = page_of ps a" by (rule libs_separateD(4)[OF C])
    from process_relocations_overridden[OF mp pg sep sep2 es _ r, of m0] ov have
      e: "overridden ps m0 p' (revert_entries ?rv \<union> set (lr_old_value_per_address ri'))" "umap_wf (lr_old_value_per_address ri')"
        "fst ` set (lr_old_value_per_address ri') \<subseteq> cells (fst c)" "lr_library_name ri' = snd c" "lr_processed ri'" "pr_refs p' = pr_refs p"
      by simp_all
    then show ?thesis using revert_ok_update[OF rv(1) C(2) refl e(4,2,3)] revert_entries_new[OF rv(2) None] so'
      by (intro conjI exI[of _ ri']) (simp_all add: override_inv_def)
  qed
qed

lemma retrieve_base: "retrieve_dynamic_info view self_addr info ex = Some (Some di) \<Longrightarrow> di_base_address di = dlpi_addr info"
  by (auto simp: retrieve_dynamic_info_def retrieve_dynamic_section_def Let_def split: option.splits if_splits)

text \<open>After the pass over the libraries, every one of them is known and marked.\<close>

definition marked :: "u64 set \<Rightarrow> (u64, LibraryRevertInfo) umap \<Rightarrow> (u64, LibraryRevertInfo) umap \<Rightarrow> bool" where
  "marked B rv rv' \<longleftrightarrow> (\<forall>b ri. map_of rv' b = Some ri \<longrightarrow> lr_processed ri \<or> b \<notin> B \<and> map_of rv b = Some ri)"

lemma apply_libraries_inv:
  assumes mp: "\<forall>a. mprotect a" and C: "libs_separate ps C"
  shows "set (considered view self is_exe libs) \<subseteq> C \<Longrightarrow> override_inv ps m0 C (p, so) \<Longrightarrow>
    apply_overrides_to_libraries ps mprotect view self is_exe libs (p, so) = Some (p', so') \<Longrightarrow>
    override_inv ps m0 C (p', so') \<and> so_overrides so' = so_overrides so \<and> so_nb_loaded_libs so' = so_nb_loaded_libs so \<and>
    marked (bases (set (considered view self is_exe libs))) (so_revert_info_per_library so) (so_revert_info_per_library so') \<and>
    fst ` set (so_revert_info_per_library so') = fst ` set (so_revert_info_per_library so) \<union> bases (set (considered view self is_exe libs))"
proof (induction libs arbitrary: is_exe p so)
  case Nil
  then show ?case by (auto simp: marked_def bases_def)
next
  case (Cons info libs)
  from Cons.prems(3) obtain di s where di: "retrieve_dynamic_info view self info (\<not> is_exe) = Some di"
    and s: "(case di of None \<Rightarrow> Some (p, so) | Some di \<Rightarrow> apply_overrides_to_library ps mprotect di (dlpi_name info) (p, so)) = Some s"
    and rest: "apply_overrides_to_libraries ps mprotect view self False libs s = Some (p', so')"
    by (auto simp: bind_eq_Some_conv)
  show ?case
  proof (cases "di = None \<or> excluded_library (dlpi_name info)")
    case True
    then have "s = (p, so)" "considered view self is_exe (info # libs) = considered view self False libs"
      using s di by (auto simp: apply_overrides_to_library_def split: option.splits)
    then show ?thesis using Cons.IH[of False p so] Cons.prems(1,2) rest by simp
  next
    case False
    then obtain d where d: "di = Some d" by auto
    let ?c = "(d, dlpi_name info)"
    have cs: "considered view self is_exe (info # libs) = ?c # considered view self False libs" using False d di by simp
    obtain p1 so1 where s1: "s = (p1, so1)" by (cases s)
    have "?c \<in> C" "\<not> excluded_library (snd ?c)" using Cons.prems(1)[unfolded cs] False by simp_all
    from apply_library_inv[OF mp C this(1) Cons.prems(2) this(2)] s d s1 obtain ri where
      1: "override_inv ps m0 C (p1, so1)" "so_overrides so1 = so_overrides so" "so_nb_loaded_libs so1 = so_nb_loaded_libs so"
        "lr_processed ri" "so_revert_info_per_library so1 = AList.update (di_base_address d) ri (so_revert_info_per_library so)"
      by auto
    have "set (considered view self False libs) \<subseteq> C" using Cons.prems(1)[unfolded cs] by simp
    from Cons.IH[OF this 1(1)] rest s1 have
      2: "override_inv ps m0 C (p', so')" "so_overrides so' = so_overrides so1" "so_nb_loaded_libs so' = so_nb_loaded_libs so1"
        "marked (bases (set (considered view self False libs))) (so_revert_info_per_library so1) (so_revert_info_per_library so')"
        "fst ` set (so_revert_info_per_library so') = fst ` set (so_revert_info_per_library so1) \<union> bases (set (considered view self False libs))"
      by simp_all
    have b: "bases (set (considered view self is_exe (info # libs))) = insert (di_base_address d) (bases (set (considered view self False libs)))"
      unfolding cs by (simp add: bases_def)
    have "marked (bases (set (considered view self is_exe (info # libs)))) (so_revert_info_per_library so) (so_revert_info_per_library so')"
      using 2(4) 1(4) unfolding marked_def b 1(5) map_of_update by (metis insert_iff option.inject)
    moreover have "fst ` set (so_revert_info_per_library so1) = insert (di_base_address d) (fst ` set (so_revert_info_per_library so))"
      unfolding 1(5) dom_map_of_conv_image_fst[symmetric] by (auto simp: dom_def)
    ultimately show ?thesis using 2 1(2,3) b by simp
  qed
qed

lemma unmark_keys: "map fst (unmark rv) = map fst rv"
  by (simp add: unmark_def comp_def case_prod_unfold)

lemma unmark_revert:
  "revert_ok C rv \<Longrightarrow> revert_ok C (unmark rv)" "revert_entries (unmark rv) = revert_entries rv" "fst ` set (unmark rv) = fst ` set rv"
proof -
  show "fst ` set (unmark rv) = fst ` set rv" by (metis list.set_map unmark_keys)
  show "revert_entries (unmark rv) = revert_entries rv" by (auto simp: unmark_def revert_entries_def case_prod_unfold)
  assume ok: "revert_ok C rv"
  have "umap_wf (unmark rv)" using ok by (simp add: revert_ok_def umap_wf_def unmark_keys)
  moreover have "\<exists>c\<in>C. di_base_address (fst c) = b \<and> lr_library_name ri = snd c \<and> umap_wf (lr_old_value_per_address ri) \<and>
      fst ` set (lr_old_value_per_address ri) \<subseteq> cells (fst c)" if "(b, ri) \<in> set (unmark rv)" for b ri
  proof -
    from that obtain ri' where "(b, ri') \<in> set rv" "ri = ri'\<lparr>lr_processed := False\<rparr>" by (auto simp: unmark_def)
    moreover from ok this(1) have "\<exists>c\<in>C. di_base_address (fst c) = b \<and> lr_library_name ri' = snd c \<and>
        umap_wf (lr_old_value_per_address ri') \<and> fst ` set (lr_old_value_per_address ri') \<subseteq> cells (fst c)"
      unfolding revert_ok_def by blast
    ultimately show ?thesis by simp
  qed
  ultimately show "revert_ok C (unmark rv)" unfolding revert_ok_def by blast
qed

lemma so_update_inv:
  assumes mp: "\<forall>a. mprotect a" and C: "libs_separate ps C" "set (considered view self True libs) \<subseteq> C"
    and inv: "override_inv ps m0 C (p, so)" and sub: "fst ` set (so_revert_info_per_library so) \<subseteq> bases (set (considered view self True libs))"
    and run: "so_update_overrides ps mprotect view self libs (p, so) = Some (p', so')"
  shows "override_inv ps m0 C (p', so') \<and> fst ` set (so_revert_info_per_library so') \<subseteq> bases (set (considered view self True libs))"
proof (cases "count_loaded_libraries libs = so_nb_loaded_libs so")
  case True
  then show ?thesis using run inv sub by (simp add: so_update_overrides_def)
next
  case False
  let ?so = "so\<lparr>so_nb_loaded_libs := count_loaded_libraries libs, so_revert_info_per_library :=
      unmark (so_revert_info_per_library so)\<rparr>"
  from run False obtain so1 where
    r: "apply_overrides_to_libraries ps mprotect view self True libs (p, ?so) = Some (p', so1)"
    and so': "so' = so1\<lparr>so_revert_info_per_library := filter (\<lambda>(b, ri). lr_processed ri) (so_revert_info_per_library so1)\<rparr>"
    by (auto simp: so_update_overrides_def Let_def)
  have "override_inv ps m0 C (p, ?so)"
    using inv by (simp add: override_inv_def unmark_revert)
  from apply_libraries_inv[OF mp C this r] have
    1: "override_inv ps m0 C (p', so1)"
      "marked (bases (set (considered view self True libs))) (so_revert_info_per_library ?so) (so_revert_info_per_library so1)"
      "fst ` set (so_revert_info_per_library so1) = fst ` set (so_revert_info_per_library ?so) \<union> bases (set (considered view self True libs))"
    by simp_all
  have b: "fst ` set (so_revert_info_per_library so1) \<subseteq> bases (set (considered view self True libs))"
    using 1(3) sub by (simp add: unmark_revert)
  have "lr_processed ri" if "(b, ri) \<in> set (so_revert_info_per_library so1)" for b ri
  proof -
    have "map_of (so_revert_info_per_library so1) b = Some ri"
      using that 1(1) by (simp add: override_inv_def revert_ok_def umap_wf_mem_iff)
    moreover have "b \<in> bases (set (considered view self True libs))" using b that by force
    ultimately show ?thesis using 1(2) unfolding marked_def by blast
  qed
  then have "filter (\<lambda>(b, ri). lr_processed ri) (so_revert_info_per_library so1) = so_revert_info_per_library so1"
    by (auto intro: filter_True)
  then show ?thesis using 1(1) b so' by (simp add: override_inv_def)
qed

text \<open>Updates at several moments, with the libraries loaded at each of them.\<close>

fun run_updates :: "u64 \<Rightarrow> (u64 \<Rightarrow> bool) \<Rightarrow> elf_view \<Rightarrow> u64 \<Rightarrow> dl_phdr_info list list \<Rightarrow> proc \<times> SymbolOverrides \<Rightarrow>
    (proc \<times> SymbolOverrides) option" where
  "run_updates page_size mprotect view self_addr [] s = Some s"
| "run_updates page_size mprotect view self_addr (libs # moments) s = do {
     s \<leftarrow> so_update_overrides page_size mprotect view self_addr libs s;
     run_updates page_size mprotect view self_addr moments s
   }"

lemma run_updates_inv:
  assumes mp: "\<forall>a. mprotect a" and C: "libs_separate ps C"
  shows "\<forall>L\<in>set Ls. set (considered view self True L) \<subseteq> C \<Longrightarrow>
    sorted_wrt (\<lambda>A B. set (considered view self True A) \<subseteq> set (considered view self True B)) Ls \<Longrightarrow>
    override_inv ps m0 C (p, so) \<Longrightarrow> \<forall>L\<in>set Ls. fst ` set (so_revert_info_per_library so) \<subseteq> bases (set (considered view self True L)) \<Longrightarrow>
    run_updates ps mprotect view self Ls (p, so) = Some (p', so') \<Longrightarrow>
    override_inv ps m0 C (p', so') \<and>
    (Ls \<noteq> [] \<longrightarrow> fst ` set (so_revert_info_per_library so') \<subseteq> bases (set (considered view self True (last Ls))))"
proof (induction Ls arbitrary: p so)
  case (Cons L Ls)
  from Cons.prems(5) obtain p1 so1 where u: "so_update_overrides ps mprotect view self L (p, so) = Some (p1, so1)"
    and rest: "run_updates ps mprotect view self Ls (p1, so1) = Some (p', so')" by (auto simp: bind_eq_Some_conv)
  have L: "set (considered view self True L) \<subseteq> C" "fst ` set (so_revert_info_per_library so) \<subseteq> bases (set (considered view self True L))"
    using Cons.prems(1,4) by simp_all
  note i = so_update_inv[OF mp C L(1) Cons.prems(3) L(2) u]
  have "fst ` set (so_revert_info_per_library so1) \<subseteq> bases (set (considered view self True L'))" if "L' \<in> set Ls" for L'
  proof -
    have "set (considered view self True L) \<subseteq> set (considered view self True L')" using Cons.prems(2) that by simp
    then have "bases (set (considered view self True L)) \<subseteq> bases (set (considered view self True L'))" unfolding bases_def by (rule image_mono)
    then show ?thesis using i by blast
  qed
  then show ?case using Cons.IH[of p1 so1] i rest Cons.prems(1,2) by (cases "Ls = []") auto
qed simp

section \<open>Putting the entries back\<close>

definition restored_at :: "(u64, LibraryRevertInfo) umap \<Rightarrow> dl_phdr_info \<Rightarrow> u64 \<Rightarrow> bool" where
  "restored_at rv info x \<longleftrightarrow> (\<exists>ri. map_of rv (dlpi_addr info) = Some ri \<and> lr_library_name ri = dlpi_name info \<and>
     (\<exists>a\<in>fst ` set (lr_old_value_per_address ri). covers a x))"

lemma restore_library_correct:
  assumes v: "\<forall>(a, v)\<in>revert_entries (so_revert_info_per_library so). v = load64 m0 a"
    and w: "cells_writable ps p (fst ` revert_entries (so_revert_info_per_library so))"
  shows "\<exists>p'. restore_library_overrides ps so (dlpi_name info) (dlpi_addr info) p = Some p' \<and> pr_writable p' = pr_writable p \<and>
    (\<forall>x. pr_mem p' x = (if restored_at (so_revert_info_per_library so) info x then m0 x else pr_mem p x))"
proof (cases "\<exists>ri. map_of (so_revert_info_per_library so) (dlpi_addr info) = Some ri \<and> lr_library_name ri = dlpi_name info")
  case True
  then obtain ri where ri: "map_of (so_revert_info_per_library so) (dlpi_addr info) = Some ri" "lr_library_name ri = dlpi_name info" by blast
  have sub: "set (lr_old_value_per_address ri) \<subseteq> revert_entries (so_revert_info_per_library so)"
    using map_of_SomeD[OF ri(1)] by (auto simp: revert_entries_def)
  have "cells_writable ps p (fst ` set (lr_old_value_per_address ri))" using w sub unfolding cells_writable_def by blast
  moreover have "\<forall>(a, v)\<in>set (lr_old_value_per_address ri). v = load64 m0 a" using v sub by blast
  ultimately show ?thesis using write_back_correct[of ps p "lr_old_value_per_address ri" m0] ri
    by (simp add: restore_library_overrides_def restored_at_def)
next
  case False
  then show ?thesis by (auto simp: restore_library_overrides_def restored_at_def split: option.splits)
qed

lemma restore_libraries_correct:
  assumes v: "\<forall>(a, v)\<in>revert_entries (so_revert_info_per_library so). v = load64 m0 a"
  shows "cells_writable ps p (fst ` revert_entries (so_revert_info_per_library so)) \<Longrightarrow>
    \<exists>p'. restore_libraries ps so libs p = Some p' \<and>
    (\<forall>x. pr_mem p' x = (if \<exists>info\<in>set libs. restored_at (so_revert_info_per_library so) info x then m0 x else pr_mem p x))"
proof (induction libs arbitrary: p)
  case (Cons info libs)
  from restore_library_correct[OF v Cons.prems, of info] obtain p1 where
    1: "restore_library_overrides ps so (dlpi_name info) (dlpi_addr info) p = Some p1" "pr_writable p1 = pr_writable p"
      "\<forall>x. pr_mem p1 x = (if restored_at (so_revert_info_per_library so) info x then m0 x else pr_mem p x)" by blast
  have "cells_writable ps p1 (fst ` revert_entries (so_revert_info_per_library so))" using Cons.prems 1(2) by (simp add: cells_writable_def)
  from Cons.IH[OF this] 1 show ?case by auto
qed simp

lemma considered_info:
  "c \<in> set (considered view self is_exe libs) \<Longrightarrow> \<exists>info\<in>set libs. dlpi_addr info = di_base_address (fst c) \<and> dlpi_name info = snd c"
proof (induction libs arbitrary: is_exe)
  case (Cons info libs)
  then show ?case using retrieve_base[of view self info "\<not> is_exe"]
    by (cases "retrieve_dynamic_info view self info (\<not> is_exe)") (auto split: option.splits if_splits)
qed simp

lemma sorted_wrt_last:
  assumes "sorted_wrt R xs" "x \<in> set xs" "\<And>x. R x x"
  shows "R x (last xs)"
  using assms(1,2)
proof (induction xs)
  case (Cons y ys)
  then show ?case using assms(3) by (cases "ys = []") auto
qed simp

lemma updates_then_restore:
  assumes "\<forall>a. mprotect a" "Ls \<noteq> []" "libs_separate ps (set (considered view self True (last Ls)))"
    "sorted_wrt (\<lambda>A B. set (considered view self True A) \<subseteq> set (considered view self True B)) Ls"
    "so_revert_info_per_library so = []" "run_updates ps mprotect view self Ls (p, so) = Some (p1, so1)"
  shows "\<exists>p2. so_restore_overrides ps (last Ls) (p1, so1) = Some (p2, so1\<lparr>so_revert_info_per_library := []\<rparr>) \<and> pr_mem p2 = pr_mem p"
proof -
  let ?C = "set (considered view self True (last Ls))" and ?rv = "so_revert_info_per_library so1"
  have sub: "\<forall>L\<in>set Ls. set (considered view self True L) \<subseteq> ?C" using sorted_wrt_last[OF assms(4)] by simp
  have "override_inv ps (pr_mem p) ?C (p, so)"
    using assms(5) by (simp add: override_inv_def revert_ok_def revert_entries_def overridden_def cells_writable_def)
  from run_updates_inv[OF assms(1,3) sub assms(4) this _ assms(6)] assms(5) have
    inv: "revert_ok ?C ?rv" "overridden ps (pr_mem p) p1 (revert_entries ?rv)" by (simp_all add: override_inv_def)
  have v: "\<forall>(a, v)\<in>revert_entries ?rv. v = load64 (pr_mem p) a" and w: "cells_writable ps p1 (fst ` revert_entries ?rv)"
    and u: "\<And>x. (\<forall>a\<in>fst ` revert_entries ?rv. \<not> covers a x) \<Longrightarrow> pr_mem p1 x = pr_mem p x"
    using inv(2) by (auto simp: overridden_def)
  from restore_libraries_correct[OF v w, of "last Ls"] obtain p2 where r: "restore_libraries ps so1 (last Ls) p1 = Some p2"
    "\<And>x. pr_mem p2 x = (if \<exists>info\<in>set (last Ls). restored_at ?rv info x then pr_mem p x else pr_mem p1 x)" by blast
  have "\<exists>info\<in>set (last Ls). restored_at ?rv info x" if "a \<in> fst ` revert_entries ?rv" "covers a x" for a x
  proof -
    from that(1) obtain b ri where b: "(b, ri) \<in> set ?rv" "a \<in> fst ` set (lr_old_value_per_address ri)" by (auto simp: revert_entries_def)
    with inv(1) obtain c where c: "c \<in> ?C" "di_base_address (fst c) = b" "lr_library_name ri = snd c" unfolding revert_ok_def by blast
    have "map_of ?rv b = Some ri" using b(1) inv(1) by (simp add: revert_ok_def umap_wf_mem_iff)
    then show ?thesis using considered_info[OF c(1)] c(2,3) b(2) that(2) unfolding restored_at_def by metis
  qed
  then have "pr_mem p2 x = pr_mem p x" for x using r(2)[of x] u[of x] by metis
  then have "pr_mem p2 = pr_mem p" by (rule ext)
  then show ?thesis using r(1) by (simp add: so_restore_overrides_def)
qed


end
