(* ===== verification/Alloc_Hooks.thy ===== *)
theory Alloc_Hooks
  imports Alloc_Tracker Elf_Overrides
begin

text \<open>
  The hooks that replace the allocation functions (\<^verbatim>\<open>src/src/lib/symbol_overrides.cc\<close>) and the guard
  against reentry (\<^verbatim>\<open>src/include/lib/reentry_guard.hpp\<close>). A hook calls the function it replaces,
  \<open>ref\<close>, which is an argument: a function on the state of the thread, since it may itself end in
  other hooks (\<^verbatim>\<open>malloc\<close> calls \<^verbatim>\<open>mmap\<close>) and since other threads use the tracker while it runs.
  \<^term>\<open>None\<close> is a fault of the tracker, as in its own theory.
\<close>

section \<open>The state of a thread and the guard\<close>

record 'g hook_state =
  hs_tracker :: AllocationTracker
  hs_tls :: "'g TrackerThreadLocalState"

text \<open>
  What a hook reads from its surroundings: the generator of random intervals, the seed, thread and
  stack for a first use, and what its pushes to the ring meet.
\<close>

record 'g hook_env =
  he_draw :: "'g \<Rightarrow> u64 \<times> 'g"
  he_seed :: 'g
  he_tid :: int
  he_bounds :: "u64 \<times> u64"
  he_dealloc :: push_env
  he_alloc :: push_env

type_synonym ('g, 'r) libc = "'g hook_state \<Rightarrow> ('g hook_state \<times> 'r) option"

text \<open>A function that may leave by an exception.\<close>

datatype 'r thrown = Returned 'r | Thrown

definition guard_enter :: "'g TrackerThreadLocalState \<Rightarrow> 'g TrackerThreadLocalState \<times> bool" where
  "guard_enter tls = (tls\<lparr>tl_reentry_guard := True\<rparr>, \<not> tl_reentry_guard tls)"

definition guard_exit :: "bool \<Rightarrow> 'g TrackerThreadLocalState \<Rightarrow> 'g TrackerThreadLocalState" where
  "guard_exit ok tls = (if ok then tls\<lparr>tl_reentry_guard := False\<rparr> else tls)"

section \<open>The helpers\<close>

definition hook_tl_state :: "'g hook_env \<Rightarrow> 'g hook_state \<Rightarrow> bool \<Rightarrow> 'g TrackerThreadLocalState option" where
  "hook_tl_state env s ini = get_tl_state (he_draw env) (hs_tracker s) (hs_tls s) ini (he_seed env) (he_tid env) (he_bounds env)"

definition enter_with :: "'g TrackerThreadLocalState option \<Rightarrow> 'g hook_state \<Rightarrow> 'g hook_state \<times> bool" where
  "enter_with tls s = (case tls of None \<Rightarrow> (s, False) | Some tls \<Rightarrow> let (tls, ok) = guard_enter tls in (s\<lparr>hs_tls := tls\<rparr>, ok))"

definition MaybeReentryGuard :: "'g hook_env \<Rightarrow> 'g hook_state \<Rightarrow> 'g hook_state \<times> bool" where
  "MaybeReentryGuard env s = enter_with (hook_tl_state env s True) s"

definition AllocTrackerHelper :: "bool \<Rightarrow> 'g hook_env \<Rightarrow> 'g hook_state \<Rightarrow> 'g hook_state \<times> bool" where
  "AllocTrackerHelper mmap_alloc env s = enter_with (hook_tl_state env s (\<not> mmap_alloc)) s"

definition DeallocTrackerHelper :: "bool \<Rightarrow> 'g hook_env \<Rightarrow> 'g hook_state \<Rightarrow> 'g hook_state \<times> bool" where
  "DeallocTrackerHelper mmap_alloc env s = enter_with (
     if is_deallocation_tracking_active (hs_tracker s) then hook_tl_state env s (\<not> mmap_alloc) else None) s"

definition leave :: "bool \<Rightarrow> 'g hook_state \<Rightarrow> 'g hook_state" where
  "leave ok s = s\<lparr>hs_tls := guard_exit ok (hs_tls s)\<rparr>"

definition set_allowed :: "bool \<Rightarrow> bool \<Rightarrow> 'g hook_state \<Rightarrow> 'g hook_state" where
  "set_allowed mmap_alloc b s = (if mmap_alloc then s\<lparr>hs_tls := (hs_tls s)\<lparr>tl_allocation_allowed := b\<rparr>\<rparr> else s)"

definition alloc_track :: "bool \<Rightarrow> 'g hook_env \<Rightarrow> bool \<Rightarrow> u64 \<Rightarrow> u64 \<Rightarrow> 'g hook_state \<Rightarrow> 'g hook_state option" where
  "alloc_track mmap_alloc env ok ptr n s = (
     if \<not> ok then Some s
     else
       let s = set_allowed mmap_alloc False s in
       map_option (\<lambda>(t, tls). set_allowed mmap_alloc True (s\<lparr>hs_tracker := t, hs_tls := tls\<rparr>))
         (track_allocation_s (he_draw env) (hs_tracker s) (hs_tls s) (he_alloc env) ptr n mmap_alloc))"

definition dealloc_track :: "bool \<Rightarrow> 'g hook_env \<Rightarrow> bool \<Rightarrow> u64 \<Rightarrow> 'g hook_state \<Rightarrow> 'g hook_state option" where
  "dealloc_track mmap_alloc env ok ptr s = (
     if \<not> ok then Some s
     else
       let s = set_allowed mmap_alloc False s in
       map_option (\<lambda>t. set_allowed mmap_alloc True (s\<lparr>hs_tracker := t\<rparr>))
         (track_deallocation_s (hs_tracker s) (hs_tls s) (he_dealloc env) ptr mmap_alloc))"

section \<open>The bodies that several hooks share\<close>

definition alloc_body :: "'g hook_env \<Rightarrow> ('g, u64) libc \<Rightarrow> u64 \<Rightarrow> ('g, u64) libc" where
  "alloc_body env ref n s = (
     let (s, ok) = AllocTrackerHelper False env s in do {
       (s, ptr) \<leftarrow> ref s;
       s \<leftarrow> alloc_track False env ok ptr n s;
       Some (leave ok s, ptr)
     })"

text \<open>An operator that throws leaves the hook through the destructor of the helper.\<close>

definition new_body :: "'g hook_env \<Rightarrow> ('g, u64 thrown) libc \<Rightarrow> u64 \<Rightarrow> ('g, u64 thrown) libc" where
  "new_body env ref n s = (
     let (s, ok) = AllocTrackerHelper False env s in do {
       (s, r) \<leftarrow> ref s;
       (case r of
          Thrown \<Rightarrow> Some (leave ok s, Thrown)
        | Returned ptr \<Rightarrow> do { s \<leftarrow> alloc_track False env ok ptr n s; Some (leave ok s, Returned ptr) })
     })"

definition checked_body :: "'g hook_env \<Rightarrow> ('g, u64) libc \<Rightarrow> u64 \<Rightarrow> ('g, u64) libc" where
  "checked_body env ref n s = (
     let (s, ok) = AllocTrackerHelper False env s in do {
       (s, ptr) \<leftarrow> ref s;
       s \<leftarrow> (if ptr \<noteq> 0 then alloc_track False env ok ptr n s else Some s);
       Some (leave ok s, ptr)
     })"

definition free_body :: "'g hook_env \<Rightarrow> ('g, unit) libc \<Rightarrow> u64 \<Rightarrow> ('g, unit) libc" where
  "free_body env ref ptr s = (
     let (s, ok) = DeallocTrackerHelper False env s in
     if ptr = 0 then Some (leave ok s, ())
     else do {
       s \<leftarrow> dealloc_track False env ok ptr s;
       (s, _) \<leftarrow> ref s;
       Some (leave ok s, ())
     })"

definition realloc_body :: "'g hook_env \<Rightarrow> ('g, u64) libc \<Rightarrow> u64 \<Rightarrow> (u64 \<Rightarrow> bool) \<Rightarrow> u64 \<Rightarrow> ('g, u64) libc" where
  "realloc_body env ref ptr tracked_result n s = (
     let (s, ok) = AllocTrackerHelper False env s in do {
       s \<leftarrow> (if ptr \<noteq> 0 \<and> ok
            then map_option (\<lambda>t. s\<lparr>hs_tracker := t\<rparr>) (track_deallocation_s (hs_tracker s) (hs_tls s) (he_dealloc env) ptr False)
            else Some s);
       (s, newptr) \<leftarrow> ref s;
       s \<leftarrow> (if tracked_result newptr then alloc_track False env ok newptr n s else Some s);
       Some (leave ok s, newptr)
     })"

definition mmap_body :: "'g hook_env \<Rightarrow> ('g, u64) libc \<Rightarrow> u64 \<Rightarrow> u64 \<Rightarrow> int \<Rightarrow> ('g, u64) libc" where
  "mmap_body env ref addr len fd s = (
     let (s, ok) = AllocTrackerHelper True env s in do {
       (s, ptr) \<leftarrow> ref s;
       s \<leftarrow> (if addr = 0 \<and> fd = -1 \<and> ptr \<noteq> 0 then alloc_track True env ok ptr len s else Some s);
       Some (leave ok s, ptr)
     })"

definition munmap_body :: "'g hook_env \<Rightarrow> ('g, int) libc \<Rightarrow> u64 \<Rightarrow> ('g, int) libc" where
  "munmap_body env ref addr s = (
     let (s, ok) = DeallocTrackerHelper True env s in do {
       s \<leftarrow> dealloc_track True env ok addr s;
       (s, r) \<leftarrow> ref s;
       Some (leave ok s, r)
     })"

definition late_free_body :: "'g hook_env \<Rightarrow> ('g, unit) libc \<Rightarrow> u64 \<Rightarrow> ('g, unit) libc" where
  "late_free_body env ref ptr s = (
     let (s, ok) = DeallocTrackerHelper False env s in do {
       (s, _) \<leftarrow> ref s;
       s \<leftarrow> dealloc_track False env ok ptr s;
       Some (leave ok s, ())
     })"

section \<open>The hooks\<close>

text \<open>
  \<open>ref\<close> takes the arguments of the function, in the order of the source.
\<close>

definition malloc_hook :: "'g hook_env \<Rightarrow> (u64 \<Rightarrow> ('g, u64) libc) \<Rightarrow> u64 \<Rightarrow> ('g, u64) libc" where
  "malloc_hook env ref n = alloc_body env (ref n) n"

definition new_hook :: "'g hook_env \<Rightarrow> (u64 \<Rightarrow> ('g, u64 thrown) libc) \<Rightarrow> u64 \<Rightarrow> ('g, u64 thrown) libc" where
  "new_hook env ref n = new_body env (ref n) n"

definition new_nothrow_hook :: "'g hook_env \<Rightarrow> (u64 \<Rightarrow> ('g, u64) libc) \<Rightarrow> u64 \<Rightarrow> ('g, u64) libc" where
  "new_nothrow_hook env ref n = alloc_body env (ref n) n"

definition new_align_hook :: "'g hook_env \<Rightarrow> (u64 \<Rightarrow> u64 \<Rightarrow> ('g, u64 thrown) libc) \<Rightarrow> u64 \<Rightarrow> u64 \<Rightarrow> ('g, u64 thrown) libc" where
  "new_align_hook env ref n al = new_body env (ref n al) n"

definition new_align_nothrow_hook :: "'g hook_env \<Rightarrow> (u64 \<Rightarrow> u64 \<Rightarrow> ('g, u64) libc) \<Rightarrow> u64 \<Rightarrow> u64 \<Rightarrow> ('g, u64) libc" where
  "new_align_nothrow_hook env ref n al = alloc_body env (ref n al) n"

definition new_array_hook :: "'g hook_env \<Rightarrow> (u64 \<Rightarrow> ('g, u64 thrown) libc) \<Rightarrow> u64 \<Rightarrow> ('g, u64 thrown) libc" where
  "new_array_hook env ref n = new_body env (ref n) n"

definition new_array_nothrow_hook :: "'g hook_env \<Rightarrow> (u64 \<Rightarrow> ('g, u64) libc) \<Rightarrow> u64 \<Rightarrow> ('g, u64) libc" where
  "new_array_nothrow_hook env ref n = alloc_body env (ref n) n"

definition new_array_align_hook :: "'g hook_env \<Rightarrow> (u64 \<Rightarrow> u64 \<Rightarrow> ('g, u64 thrown) libc) \<Rightarrow> u64 \<Rightarrow> u64 \<Rightarrow> ('g, u64 thrown) libc" where
  "new_array_align_hook env ref n al = new_body env (ref n al) n"

definition new_array_align_nothrow_hook :: "'g hook_env \<Rightarrow> (u64 \<Rightarrow> u64 \<Rightarrow> ('g, u64) libc) \<Rightarrow> u64 \<Rightarrow> u64 \<Rightarrow> ('g, u64) libc" where
  "new_array_align_nothrow_hook env ref n al = alloc_body env (ref n al) n"

definition free_hook :: "'g hook_env \<Rightarrow> (u64 \<Rightarrow> ('g, unit) libc) \<Rightarrow> u64 \<Rightarrow> ('g, unit) libc" where
  "free_hook env ref ptr = free_body env (ref ptr) ptr"

definition free_sized_hook :: "'g hook_env \<Rightarrow> (u64 \<Rightarrow> u64 \<Rightarrow> ('g, unit) libc) \<Rightarrow> u64 \<Rightarrow> u64 \<Rightarrow> ('g, unit) libc" where
  "free_sized_hook env ref ptr n = free_body env (ref ptr n) ptr"

definition free_aligned_sized_hook :: "'g hook_env \<Rightarrow> (u64 \<Rightarrow> u64 \<Rightarrow> u64 \<Rightarrow> ('g, unit) libc) \<Rightarrow> u64 \<Rightarrow> u64 \<Rightarrow> u64 \<Rightarrow> ('g, unit) libc" where
  "free_aligned_sized_hook env ref ptr al n = free_body env (ref ptr al n) ptr"

definition delete_hook :: "'g hook_env \<Rightarrow> (u64 \<Rightarrow> ('g, unit) libc) \<Rightarrow> u64 \<Rightarrow> ('g, unit) libc" where
  "delete_hook env ref ptr = free_body env (ref ptr) ptr"

definition delete_array_hook :: "'g hook_env \<Rightarrow> (u64 \<Rightarrow> ('g, unit) libc) \<Rightarrow> u64 \<Rightarrow> ('g, unit) libc" where
  "delete_array_hook env ref ptr = free_body env (ref ptr) ptr"

definition delete_nothrow_hook :: "'g hook_env \<Rightarrow> (u64 \<Rightarrow> ('g, unit) libc) \<Rightarrow> u64 \<Rightarrow> ('g, unit) libc" where
  "delete_nothrow_hook env ref ptr = free_body env (ref ptr) ptr"

definition delete_array_nothrow_hook :: "'g hook_env \<Rightarrow> (u64 \<Rightarrow> ('g, unit) libc) \<Rightarrow> u64 \<Rightarrow> ('g, unit) libc" where
  "delete_array_nothrow_hook env ref ptr = free_body env (ref ptr) ptr"

definition delete_align_hook :: "'g hook_env \<Rightarrow> (u64 \<Rightarrow> u64 \<Rightarrow> ('g, unit) libc) \<Rightarrow> u64 \<Rightarrow> u64 \<Rightarrow> ('g, unit) libc" where
  "delete_align_hook env ref ptr al = free_body env (ref ptr al) ptr"

definition delete_array_align_hook :: "'g hook_env \<Rightarrow> (u64 \<Rightarrow> u64 \<Rightarrow> ('g, unit) libc) \<Rightarrow> u64 \<Rightarrow> u64 \<Rightarrow> ('g, unit) libc" where
  "delete_array_align_hook env ref ptr al = free_body env (ref ptr al) ptr"

definition delete_align_nothrow_hook :: "'g hook_env \<Rightarrow> (u64 \<Rightarrow> u64 \<Rightarrow> ('g, unit) libc) \<Rightarrow> u64 \<Rightarrow> u64 \<Rightarrow> ('g, unit) libc" where
  "delete_align_nothrow_hook env ref ptr al = free_body env (ref ptr al) ptr"

definition delete_array_align_nothrow_hook :: "'g hook_env \<Rightarrow> (u64 \<Rightarrow> u64 \<Rightarrow> ('g, unit) libc) \<Rightarrow> u64 \<Rightarrow> u64 \<Rightarrow> ('g, unit) libc" where
  "delete_array_align_nothrow_hook env ref ptr al = free_body env (ref ptr al) ptr"

definition delete_sized_hook :: "'g hook_env \<Rightarrow> (u64 \<Rightarrow> u64 \<Rightarrow> ('g, unit) libc) \<Rightarrow> u64 \<Rightarrow> u64 \<Rightarrow> ('g, unit) libc" where
  "delete_sized_hook env ref ptr n = free_body env (ref ptr n) ptr"

definition delete_array_sized_hook :: "'g hook_env \<Rightarrow> (u64 \<Rightarrow> u64 \<Rightarrow> ('g, unit) libc) \<Rightarrow> u64 \<Rightarrow> u64 \<Rightarrow> ('g, unit) libc" where
  "delete_array_sized_hook env ref ptr n = free_body env (ref ptr n) ptr"

definition delete_sized_align_hook :: "'g hook_env \<Rightarrow> (u64 \<Rightarrow> u64 \<Rightarrow> u64 \<Rightarrow> ('g, unit) libc) \<Rightarrow> u64 \<Rightarrow> u64 \<Rightarrow> u64 \<Rightarrow> ('g, unit) libc" where
  "delete_sized_align_hook env ref ptr n al = free_body env (ref ptr n al) ptr"

definition delete_array_sized_align_hook :: "'g hook_env \<Rightarrow> (u64 \<Rightarrow> u64 \<Rightarrow> u64 \<Rightarrow> ('g, unit) libc) \<Rightarrow> u64 \<Rightarrow> u64 \<Rightarrow> u64 \<Rightarrow> ('g, unit) libc" where
  "delete_array_sized_align_hook env ref ptr n al = free_body env (ref ptr n al) ptr"

definition calloc_hook :: "'g hook_env \<Rightarrow> (u64 \<Rightarrow> u64 \<Rightarrow> ('g, u64) libc) \<Rightarrow> u64 \<Rightarrow> u64 \<Rightarrow> ('g, u64) libc" where
  "calloc_hook env ref nmemb n = alloc_body env (ref nmemb n) (n * nmemb)"

definition realloc_hook :: "'g hook_env \<Rightarrow> (u64 \<Rightarrow> u64 \<Rightarrow> ('g, u64) libc) \<Rightarrow> u64 \<Rightarrow> u64 \<Rightarrow> ('g, u64) libc" where
  "realloc_hook env ref ptr n = realloc_body env (ref ptr n) ptr (\<lambda>newptr. n \<noteq> 0) n"

definition posix_memalign_hook :: "'g hook_env \<Rightarrow> (u64 \<Rightarrow> u64 \<Rightarrow> ('g, int \<times> u64) libc) \<Rightarrow> u64 \<Rightarrow> u64 \<Rightarrow> ('g, int \<times> u64) libc" where
  "posix_memalign_hook env ref al n s = (
     let (s, ok) = AllocTrackerHelper False env s in do {
       (s, ret, memptr) \<leftarrow> ref al n s;
       s \<leftarrow> (if ret = 0 then alloc_track False env ok memptr n s else Some s);
       Some (leave ok s, ret, memptr)
     })"

definition aligned_alloc_hook :: "'g hook_env \<Rightarrow> (u64 \<Rightarrow> u64 \<Rightarrow> ('g, u64) libc) \<Rightarrow> u64 \<Rightarrow> u64 \<Rightarrow> ('g, u64) libc" where
  "aligned_alloc_hook env ref al n = checked_body env (ref al n) n"

definition memalign_hook :: "'g hook_env \<Rightarrow> (u64 \<Rightarrow> u64 \<Rightarrow> ('g, u64) libc) \<Rightarrow> u64 \<Rightarrow> u64 \<Rightarrow> ('g, u64) libc" where
  "memalign_hook env ref al n = checked_body env (ref al n) n"

definition pvalloc_hook :: "'g hook_env \<Rightarrow> (u64 \<Rightarrow> ('g, u64) libc) \<Rightarrow> u64 \<Rightarrow> ('g, u64) libc" where
  "pvalloc_hook env ref n = checked_body env (ref n) n"

definition valloc_hook :: "'g hook_env \<Rightarrow> (u64 \<Rightarrow> ('g, u64) libc) \<Rightarrow> u64 \<Rightarrow> ('g, u64) libc" where
  "valloc_hook env ref n = checked_body env (ref n) n"

definition reallocarray_hook :: "'g hook_env \<Rightarrow> (u64 \<Rightarrow> u64 \<Rightarrow> u64 \<Rightarrow> ('g, u64) libc) \<Rightarrow> u64 \<Rightarrow> u64 \<Rightarrow> u64 \<Rightarrow> ('g, u64) libc" where
  "reallocarray_hook env ref ptr nmemb n = realloc_body env (ref ptr nmemb n) ptr (\<lambda>newptr. newptr \<noteq> 0) (n * nmemb)"

definition mallocx_hook :: "'g hook_env \<Rightarrow> (u64 \<Rightarrow> int \<Rightarrow> ('g, u64) libc) \<Rightarrow> u64 \<Rightarrow> int \<Rightarrow> ('g, u64) libc" where
  "mallocx_hook env ref n flags = alloc_body env (ref n flags) n"

definition rallocx_hook :: "'g hook_env \<Rightarrow> (u64 \<Rightarrow> u64 \<Rightarrow> int \<Rightarrow> ('g, u64) libc) \<Rightarrow> u64 \<Rightarrow> u64 \<Rightarrow> int \<Rightarrow> ('g, u64) libc" where
  "rallocx_hook env ref ptr n flags = realloc_body env (ref ptr n flags) ptr (\<lambda>newptr. n \<noteq> 0) n"

definition xallocx_hook :: "'g hook_env \<Rightarrow> (u64 \<Rightarrow> u64 \<Rightarrow> u64 \<Rightarrow> int \<Rightarrow> ('g, u64) libc) \<Rightarrow> u64 \<Rightarrow> u64 \<Rightarrow> u64 \<Rightarrow> int \<Rightarrow> ('g, u64) libc" where
  "xallocx_hook env ref ptr n extra flags s = (
     let (s, ok) = AllocTrackerHelper False env s in do {
       s \<leftarrow> (if ok
            then map_option (\<lambda>t. s\<lparr>hs_tracker := t\<rparr>) (track_deallocation_s (hs_tracker s) (hs_tls s) (he_dealloc env) ptr False)
            else Some s);
       (s, newsize) \<leftarrow> ref ptr n extra flags s;
       s \<leftarrow> alloc_track False env ok ptr newsize s;
       Some (leave ok s, newsize)
     })"

definition dallocx_hook :: "'g hook_env \<Rightarrow> (u64 \<Rightarrow> int \<Rightarrow> ('g, unit) libc) \<Rightarrow> u64 \<Rightarrow> int \<Rightarrow> ('g, unit) libc" where
  "dallocx_hook env ref ptr flags = late_free_body env (ref ptr flags) ptr"

definition sdallocx_hook :: "'g hook_env \<Rightarrow> (u64 \<Rightarrow> u64 \<Rightarrow> int \<Rightarrow> ('g, unit) libc) \<Rightarrow> u64 \<Rightarrow> u64 \<Rightarrow> int \<Rightarrow> ('g, unit) libc" where
  "sdallocx_hook env ref ptr n flags = late_free_body env (ref ptr n flags) ptr"

text \<open>The start of a thread that a hooked \<^verbatim>\<open>pthread_create\<close> created; \<open>start_routine\<close> is the routine of the program.\<close>

definition notify_thread_start :: "'g hook_env \<Rightarrow> 'g hook_state \<Rightarrow> 'g hook_state" where
  "notify_thread_start env s = (case hook_tl_state env s True of None \<Rightarrow> s | Some tls \<Rightarrow> s\<lparr>hs_tls := tls\<rparr>)"

definition my_start :: "'g hook_env \<Rightarrow> ('g, unit) libc \<Rightarrow> ('g, u64) libc \<Rightarrow> ('g, u64) libc" where
  "my_start env delete_args start_routine s = do {
     (s, _) \<leftarrow> delete_args (notify_thread_start env s);
     start_routine s
   }"

text \<open>
  \<open>new_args\<close> allocates the pair of the routine and its argument, which may fail (\<^term>\<open>False\<close>);
  \<open>ref\<close> gets the routine that the new thread runs.
\<close>

definition pthread_create_hook :: "'g hook_env \<Rightarrow> (('g, u64) libc \<Rightarrow> ('g, int) libc) \<Rightarrow> ('g, bool) libc \<Rightarrow> ('g, unit) libc \<Rightarrow>
    'g hook_env \<Rightarrow> ('g, u64) libc \<Rightarrow> ('g, int) libc" where
  "pthread_create_hook env ref new_args delete_args child_env start_routine s = do {
     (s, args) \<leftarrow> new_args s;
     (if args then ref (my_start child_env delete_args start_routine) s else ref start_routine s)
   }"

definition pthread_getattr_hook :: "('g, int) libc \<Rightarrow> ('g, int) libc" where
  "pthread_getattr_hook ref s = do {
     (s, r) \<leftarrow> ref (s\<lparr>hs_tls := notify_pthread_getattr_np (hs_tls s)\<rparr>);
     Some (s\<lparr>hs_tls := notify_pthread_getattr_np_end (hs_tls s)\<rparr>, r)
   }"

definition mmap_hook :: "'g hook_env \<Rightarrow> (u64 \<Rightarrow> u64 \<Rightarrow> int \<Rightarrow> int \<Rightarrow> int \<Rightarrow> int \<Rightarrow> ('g, u64) libc) \<Rightarrow> u64 \<Rightarrow> u64 \<Rightarrow> int \<Rightarrow> int \<Rightarrow> int \<Rightarrow> int \<Rightarrow> ('g, u64) libc" where
  "mmap_hook env ref addr len prot flags fd offset = mmap_body env (ref addr len prot flags fd offset) addr len fd"

definition mmap__hook :: "'g hook_env \<Rightarrow> (u64 \<Rightarrow> u64 \<Rightarrow> int \<Rightarrow> int \<Rightarrow> int \<Rightarrow> int \<Rightarrow> ('g, u64) libc) \<Rightarrow> u64 \<Rightarrow> u64 \<Rightarrow> int \<Rightarrow> int \<Rightarrow> int \<Rightarrow> int \<Rightarrow> ('g, u64) libc" where
  "mmap__hook env ref addr len prot flags fd offset = mmap_body env (ref addr len prot flags fd offset) addr len fd"

definition mmap64_hook :: "'g hook_env \<Rightarrow> (u64 \<Rightarrow> u64 \<Rightarrow> int \<Rightarrow> int \<Rightarrow> int \<Rightarrow> int \<Rightarrow> ('g, u64) libc) \<Rightarrow> u64 \<Rightarrow> u64 \<Rightarrow> int \<Rightarrow> int \<Rightarrow> int \<Rightarrow> int \<Rightarrow> ('g, u64) libc" where
  "mmap64_hook env ref addr len prot flags fd offset = mmap_body env (ref addr len prot flags fd offset) addr len fd"

definition munmap_hook :: "'g hook_env \<Rightarrow> (u64 \<Rightarrow> u64 \<Rightarrow> ('g, int) libc) \<Rightarrow> u64 \<Rightarrow> u64 \<Rightarrow> ('g, int) libc" where
  "munmap_hook env ref addr len = munmap_body env (ref addr len) addr"

definition munmap__hook :: "'g hook_env \<Rightarrow> (u64 \<Rightarrow> u64 \<Rightarrow> ('g, int) libc) \<Rightarrow> u64 \<Rightarrow> u64 \<Rightarrow> ('g, int) libc" where
  "munmap__hook env ref addr len = munmap_body env (ref addr len) addr"

section \<open>Registration\<close>

text \<open>
  The operators of C++ are hooked only when they do not call a hooked \<^verbatim>\<open>malloc\<close>: there is none, or
  both come from the same library.
\<close>

definition instrument_cxx_allocators :: "ElfSym \<times> string \<Rightarrow> ElfSym \<times> string \<Rightarrow> bool" where
  "instrument_cxx_allocators malloc_result new_result \<longleftrightarrow>
     st_value (fst malloc_result) = 0 \<or> st_size (fst malloc_result) = 0 \<or>
     st_value (fst new_result) > 0 \<and> st_size (fst new_result) > 0 \<and> snd new_result = snd malloc_result"

definition c_hook_names :: "string list" where
  "c_hook_names = [''malloc'', ''free'', ''free_sized'', ''free_aligned_sized'', ''calloc'', ''realloc'', ''posix_memalign'',
     ''aligned_alloc'', ''memalign'', ''valloc'']"

definition cxx_hook_names :: "string list" where
  "cxx_hook_names = [''_Znwm'', ''_Znam'', ''_ZnwmRKSt9nothrow_t'', ''_ZnamRKSt9nothrow_t'', ''_ZnwmSt11align_val_t'',
     ''_ZnamSt11align_val_t'', ''_ZnwmSt11align_val_tRKSt9nothrow_t'', ''_ZnamSt11align_val_tRKSt9nothrow_t'',
     ''_ZdlPv'', ''_ZdaPv'', ''_ZdlPvRKSt9nothrow_t'', ''_ZdaPvRKSt9nothrow_t'', ''_ZdlPvSt11align_val_t'',
     ''_ZdaPvSt11align_val_t'', ''_ZdlPvSt11align_val_tRKSt9nothrow_t'', ''_ZdaPvSt11align_val_tRKSt9nothrow_t'',
     ''_ZdlPvm'', ''_ZdaPvm'', ''_ZdlPvmSt11align_val_t'', ''_ZdaPvmSt11align_val_t'']"

definition other_hook_names :: "string list" where
  "other_hook_names = [''mmap'', ''mmap64'', ''munmap'', ''__mmap'', ''__munmap'', ''mallocx'', ''rallocx'', ''xallocx'', ''dallocx'',
     ''sdallocx'', ''reallocarray'', ''pvalloc'', ''pthread_create'', ''dlopen'', ''pthread_getattr_np'']"

text \<open>\<open>hook_of\<close> and \<open>ref_of\<close> are the addresses of the hook and of the variable \<^verbatim>\<open>ref\<close> of a name.\<close>

definition register_hook :: "(string \<Rightarrow> u64) \<Rightarrow> (string \<Rightarrow> u64) \<Rightarrow> SymbolOverrides \<Rightarrow> string \<Rightarrow> SymbolOverrides" where
  "register_hook hook_of ref_of so name = fst (register_override so name (hook_of name) (ref_of name) 0)"

definition register_hooks :: "(string \<Rightarrow> u64) \<Rightarrow> (string \<Rightarrow> u64) \<Rightarrow> elf_view \<Rightarrow> u64 \<Rightarrow> dl_phdr_info list \<Rightarrow> SymbolOverrides \<Rightarrow> SymbolOverrides option" where
  "register_hooks hook_of ref_of view self_addr libs so = do {
     malloc_result \<leftarrow> lookup_symbol view self_addr libs ''malloc'' False 0;
     new_result \<leftarrow> lookup_symbol view self_addr libs ''_Znwm'' False 0;
     Some (foldl (register_hook hook_of ref_of) so
       (c_hook_names @ (if instrument_cxx_allocators malloc_result new_result then cxx_hook_names else []) @ other_hook_names))
   }"

text \<open>
  The global table of overrides. The operations run under a lock, with the guard of the thread
  taken; \<open>os\<close> is what the system and the loader show while they run.
\<close>

record override_os =
  oo_page_size :: u64
  oo_mprotect :: "u64 \<Rightarrow> bool"
  oo_view :: elf_view
  oo_self_addr :: u64
  oo_libs :: "dl_phdr_info list"

record 'g override_state =
  os_hooks :: "'g hook_state"
  os_proc :: proc
  g_symbol_overrides :: "SymbolOverrides option"

definition with_guard :: "'g hook_env \<Rightarrow> ('g override_state \<Rightarrow> 'g override_state option) \<Rightarrow> 'g override_state \<Rightarrow> 'g override_state option" where
  "with_guard env f s = (
     let (h, ok) = MaybeReentryGuard env (os_hooks s)
     in map_option (\<lambda>s. s\<lparr>os_hooks := leave ok (os_hooks s)\<rparr>) (f (s\<lparr>os_hooks := h\<rparr>)))"

definition setup_overrides :: "(string \<Rightarrow> u64) \<Rightarrow> (string \<Rightarrow> u64) \<Rightarrow> 'g hook_env \<Rightarrow> override_os \<Rightarrow> 'g override_state \<Rightarrow> 'g override_state option" where
  "setup_overrides hook_of ref_of env os = with_guard env (\<lambda>s. do {
     so \<leftarrow> (case g_symbol_overrides s of
              Some so \<Rightarrow> Some so
            | None \<Rightarrow> register_hooks hook_of ref_of (oo_view os) (oo_self_addr os) (oo_libs os) so_init);
     (p, so) \<leftarrow> apply_overrides (oo_page_size os) (oo_mprotect os) (oo_view os) (oo_self_addr os) (oo_libs os) (os_proc s, so);
     Some (s\<lparr>os_proc := p, g_symbol_overrides := Some so\<rparr>)
   })"

definition restore_overrides :: "'g hook_env \<Rightarrow> override_os \<Rightarrow> 'g override_state \<Rightarrow> 'g override_state option" where
  "restore_overrides env os = with_guard env (\<lambda>s. case g_symbol_overrides s of
     None \<Rightarrow> Some s
   | Some so \<Rightarrow> do {
       (p, so) \<leftarrow> so_restore_overrides (oo_page_size os) (oo_libs os) (os_proc s, so);
       Some (s\<lparr>os_proc := p, g_symbol_overrides := None\<rparr>)
     })"

definition update_overrides :: "'g hook_env \<Rightarrow> override_os \<Rightarrow> 'g override_state \<Rightarrow> 'g override_state option" where
  "update_overrides env os = with_guard env (\<lambda>s. case g_symbol_overrides s of
     None \<Rightarrow> Some s
   | Some so \<Rightarrow> do {
       (p, so) \<leftarrow> so_update_overrides (oo_page_size os) (oo_mprotect os) (oo_view os) (oo_self_addr os) (oo_libs os) (os_proc s, so);
       Some (s\<lparr>os_proc := p, g_symbol_overrides := Some so\<rparr>)
     })"

text \<open>\<^verbatim>\<open>dlopen\<close> changes the process and what the loader shows; the new state of the loader is part of its result.\<close>

definition dlopen_hook :: "'g hook_env \<Rightarrow> (string \<Rightarrow> int \<Rightarrow> 'g override_state \<Rightarrow> ('g override_state \<times> override_os \<times> u64) option) \<Rightarrow>
    string \<Rightarrow> int \<Rightarrow> 'g override_state \<Rightarrow> ('g override_state \<times> u64) option" where
  "dlopen_hook env ref filename flags s = do {
     (s, os, ret) \<leftarrow> ref filename flags s;
     s \<leftarrow> update_overrides env os s;
     Some (s, ret)
   }"

end
