(* ===== verification/Hook_Calls.thy ===== *)
theory Hook_Calls
  imports Alloc_Hooks Alloc_Tracker_Props
begin

text \<open>
  What the hooks of \<^verbatim>\<open>src/src/lib/symbol_overrides.cc\<close> guarantee: each gives the program what the
  function it replaces gives, keeps the tracker in order whatever that function does, and of calls
  that run inside one another only the outermost is tracked.
\<close>

section \<open>Calls of hooked functions\<close>

text \<open>The hooked functions with their arguments.\<close>

datatype (plugins only: code) libc_fn =
    Malloc u64
  | New u64
  | New_nothrow u64
  | New_align u64 u64
  | New_align_nothrow u64 u64
  | New_array u64
  | New_array_nothrow u64
  | New_array_align u64 u64
  | New_array_align_nothrow u64 u64
  | Free u64
  | Free_sized u64 u64
  | Free_aligned_sized u64 u64 u64
  | Delete u64
  | Delete_array u64
  | Delete_nothrow u64
  | Delete_array_nothrow u64
  | Delete_align u64 u64
  | Delete_array_align u64 u64
  | Delete_align_nothrow u64 u64
  | Delete_array_align_nothrow u64 u64
  | Delete_sized u64 u64
  | Delete_array_sized u64 u64
  | Delete_sized_align u64 u64 u64
  | Delete_array_sized_align u64 u64 u64
  | Calloc u64 u64
  | Realloc u64 u64
  | Posix_memalign u64 u64
  | Aligned_alloc u64 u64
  | Memalign u64 u64
  | Pvalloc u64
  | Valloc u64
  | Reallocarray u64 u64 u64
  | Mallocx u64 int
  | Rallocx u64 u64 int
  | Xallocx u64 u64 u64 int
  | Dallocx u64 int
  | Sdallocx u64 u64 int
  | Pthread_getattr_np
  | Mmap u64 u64 int int int int
  | Internal_mmap u64 u64 int int int int
  | Mmap64 u64 u64 int int int int
  | Munmap u64 u64
  | Internal_munmap u64 u64

text \<open>
  One type for what the functions give back: a pointer, a size or an integer, or an exception. A
  function that returns nothing gives 0.
\<close>

abbreviation value_of :: "u64 thrown \<Rightarrow> u64" where
  "value_of r \<equiv> (case r of Returned v \<Rightarrow> v | Thrown \<Rightarrow> 0)"

definition conv :: "('a \<Rightarrow> 'b) \<Rightarrow> ('g, 'a) libc \<Rightarrow> ('g, 'b) libc" where
  "conv f ref s = map_option (\<lambda>(s, r). (s, f r)) (ref s)"

abbreviation out_ptr :: "('g, u64) libc \<Rightarrow> ('g, u64 thrown) libc" where "out_ptr \<equiv> conv Returned"
abbreviation out_void :: "('g, unit) libc \<Rightarrow> ('g, u64 thrown) libc" where "out_void \<equiv> conv (\<lambda>_. Returned 0)"
abbreviation out_int :: "('g, int) libc \<Rightarrow> ('g, u64 thrown) libc" where "out_int \<equiv> conv (\<lambda>r. Returned (of_int r))"
abbreviation in_ptr :: "('g, u64 thrown) libc \<Rightarrow> ('g, u64) libc" where "in_ptr \<equiv> conv value_of"
abbreviation in_void :: "('g, u64 thrown) libc \<Rightarrow> ('g, unit) libc" where "in_void \<equiv> conv (\<lambda>_. ())"
abbreviation in_int :: "('g, u64 thrown) libc \<Rightarrow> ('g, int) libc" where "in_int \<equiv> conv (\<lambda>r. sint (value_of r))"

text \<open>\<^verbatim>\<open>posix_memalign\<close> gives an error number (here \<^verbatim>\<open>ENOMEM\<close>) or stores a pointer.\<close>

definition in_posix :: "('g, u64 thrown) libc \<Rightarrow> ('g, int \<times> u64) libc" where
  "in_posix = conv (\<lambda>r. (if value_of r = 0 then 12 else 0, value_of r))"

definition out_posix :: "('g, int \<times> u64) libc \<Rightarrow> ('g, u64 thrown) libc" where
  "out_posix = conv (\<lambda>(ret, p). Returned (if ret = 0 then p else 0))"

text \<open>A call of the hook of a function, where \<open>ref\<close> is what the function does with these arguments.\<close>

primrec run_hook :: "'g hook_env \<Rightarrow> libc_fn \<Rightarrow> ('g, u64 thrown) libc \<Rightarrow> ('g, u64 thrown) libc" where
  "run_hook env (Malloc a) ref = out_ptr (malloc_hook env (\<lambda>_. in_ptr ref) a)"
| "run_hook env (New a) ref = new_hook env (\<lambda>_. ref) a"
| "run_hook env (New_nothrow a) ref = out_ptr (new_nothrow_hook env (\<lambda>_. in_ptr ref) a)"
| "run_hook env (New_align a b) ref = new_align_hook env (\<lambda>_ _. ref) a b"
| "run_hook env (New_align_nothrow a b) ref = out_ptr (new_align_nothrow_hook env (\<lambda>_ _. in_ptr ref) a b)"
| "run_hook env (New_array a) ref = new_array_hook env (\<lambda>_. ref) a"
| "run_hook env (New_array_nothrow a) ref = out_ptr (new_array_nothrow_hook env (\<lambda>_. in_ptr ref) a)"
| "run_hook env (New_array_align a b) ref = new_array_align_hook env (\<lambda>_ _. ref) a b"
| "run_hook env (New_array_align_nothrow a b) ref = out_ptr (new_array_align_nothrow_hook env (\<lambda>_ _. in_ptr ref) a b)"
| "run_hook env (Free a) ref = out_void (free_hook env (\<lambda>_. in_void ref) a)"
| "run_hook env (Free_sized a b) ref = out_void (free_sized_hook env (\<lambda>_ _. in_void ref) a b)"
| "run_hook env (Free_aligned_sized a b c) ref = out_void (free_aligned_sized_hook env (\<lambda>_ _ _. in_void ref) a b c)"
| "run_hook env (Delete a) ref = out_void (delete_hook env (\<lambda>_. in_void ref) a)"
| "run_hook env (Delete_array a) ref = out_void (delete_array_hook env (\<lambda>_. in_void ref) a)"
| "run_hook env (Delete_nothrow a) ref = out_void (delete_nothrow_hook env (\<lambda>_. in_void ref) a)"
| "run_hook env (Delete_array_nothrow a) ref = out_void (delete_array_nothrow_hook env (\<lambda>_. in_void ref) a)"
| "run_hook env (Delete_align a b) ref = out_void (delete_align_hook env (\<lambda>_ _. in_void ref) a b)"
| "run_hook env (Delete_array_align a b) ref = out_void (delete_array_align_hook env (\<lambda>_ _. in_void ref) a b)"
| "run_hook env (Delete_align_nothrow a b) ref = out_void (delete_align_nothrow_hook env (\<lambda>_ _. in_void ref) a b)"
| "run_hook env (Delete_array_align_nothrow a b) ref = out_void (delete_array_align_nothrow_hook env (\<lambda>_ _. in_void ref) a b)"
| "run_hook env (Delete_sized a b) ref = out_void (delete_sized_hook env (\<lambda>_ _. in_void ref) a b)"
| "run_hook env (Delete_array_sized a b) ref = out_void (delete_array_sized_hook env (\<lambda>_ _. in_void ref) a b)"
| "run_hook env (Delete_sized_align a b c) ref = out_void (delete_sized_align_hook env (\<lambda>_ _ _. in_void ref) a b c)"
| "run_hook env (Delete_array_sized_align a b c) ref = out_void (delete_array_sized_align_hook env (\<lambda>_ _ _. in_void ref) a b c)"
| "run_hook env (Calloc a b) ref = out_ptr (calloc_hook env (\<lambda>_ _. in_ptr ref) a b)"
| "run_hook env (Realloc a b) ref = out_ptr (realloc_hook env (\<lambda>_ _. in_ptr ref) a b)"
| "run_hook env (Posix_memalign a b) ref = out_posix (posix_memalign_hook env (\<lambda>_ _. in_posix ref) a b)"
| "run_hook env (Aligned_alloc a b) ref = out_ptr (aligned_alloc_hook env (\<lambda>_ _. in_ptr ref) a b)"
| "run_hook env (Memalign a b) ref = out_ptr (memalign_hook env (\<lambda>_ _. in_ptr ref) a b)"
| "run_hook env (Pvalloc a) ref = out_ptr (pvalloc_hook env (\<lambda>_. in_ptr ref) a)"
| "run_hook env (Valloc a) ref = out_ptr (valloc_hook env (\<lambda>_. in_ptr ref) a)"
| "run_hook env (Reallocarray a b c) ref = out_ptr (reallocarray_hook env (\<lambda>_ _ _. in_ptr ref) a b c)"
| "run_hook env (Mallocx a b) ref = out_ptr (mallocx_hook env (\<lambda>_ _. in_ptr ref) a b)"
| "run_hook env (Rallocx a b c) ref = out_ptr (rallocx_hook env (\<lambda>_ _ _. in_ptr ref) a b c)"
| "run_hook env (Xallocx a b c d) ref = out_ptr (xallocx_hook env (\<lambda>_ _ _ _. in_ptr ref) a b c d)"
| "run_hook env (Dallocx a b) ref = out_void (dallocx_hook env (\<lambda>_ _. in_void ref) a b)"
| "run_hook env (Sdallocx a b c) ref = out_void (sdallocx_hook env (\<lambda>_ _ _. in_void ref) a b c)"
| "run_hook env Pthread_getattr_np ref = out_int (pthread_getattr_hook (in_int ref))"
| "run_hook env (Mmap a b c d e f) ref = out_ptr (mmap_hook env (\<lambda>_ _ _ _ _ _. in_ptr ref) a b c d e f)"
| "run_hook env (Internal_mmap a b c d e f) ref = out_ptr (mmap__hook env (\<lambda>_ _ _ _ _ _. in_ptr ref) a b c d e f)"
| "run_hook env (Mmap64 a b c d e f) ref = out_ptr (mmap64_hook env (\<lambda>_ _ _ _ _ _. in_ptr ref) a b c d e f)"
| "run_hook env (Munmap a b) ref = out_int (munmap_hook env (\<lambda>_ _. in_int ref) a b)"
| "run_hook env (Internal_munmap a b) ref = out_int (munmap__hook env (\<lambda>_ _. in_int ref) a b)"

lemmas hook_defs = malloc_hook_def new_hook_def new_nothrow_hook_def new_align_hook_def new_align_nothrow_hook_def new_array_hook_def new_array_nothrow_hook_def new_array_align_hook_def new_array_align_nothrow_hook_def free_hook_def free_sized_hook_def free_aligned_sized_hook_def delete_hook_def delete_array_hook_def delete_nothrow_hook_def delete_array_nothrow_hook_def delete_align_hook_def delete_array_align_hook_def delete_align_nothrow_hook_def delete_array_align_nothrow_hook_def delete_sized_hook_def delete_array_sized_hook_def delete_sized_align_hook_def delete_array_sized_align_hook_def calloc_hook_def realloc_hook_def aligned_alloc_hook_def memalign_hook_def pvalloc_hook_def valloc_hook_def reallocarray_hook_def mallocx_hook_def rallocx_hook_def dallocx_hook_def sdallocx_hook_def pthread_getattr_hook_def mmap_hook_def mmap__hook_def mmap64_hook_def munmap_hook_def munmap__hook_def

section \<open>A uniform view of the hooks\<close>

text \<open>
  Every hook takes the guard, tracks the release of a block, calls the function, tracks the block
  it gave and releases the guard; the functions differ in which of these they do.
\<close>

primrec releases :: "libc_fn \<Rightarrow> bool" where
  "releases (Malloc a) \<longleftrightarrow> False"
| "releases (New a) \<longleftrightarrow> False"
| "releases (New_nothrow a) \<longleftrightarrow> False"
| "releases (New_align a b) \<longleftrightarrow> False"
| "releases (New_align_nothrow a b) \<longleftrightarrow> False"
| "releases (New_array a) \<longleftrightarrow> False"
| "releases (New_array_nothrow a) \<longleftrightarrow> False"
| "releases (New_array_align a b) \<longleftrightarrow> False"
| "releases (New_array_align_nothrow a b) \<longleftrightarrow> False"
| "releases (Free a) \<longleftrightarrow> True"
| "releases (Free_sized a b) \<longleftrightarrow> True"
| "releases (Free_aligned_sized a b c) \<longleftrightarrow> True"
| "releases (Delete a) \<longleftrightarrow> True"
| "releases (Delete_array a) \<longleftrightarrow> True"
| "releases (Delete_nothrow a) \<longleftrightarrow> True"
| "releases (Delete_array_nothrow a) \<longleftrightarrow> True"
| "releases (Delete_align a b) \<longleftrightarrow> True"
| "releases (Delete_array_align a b) \<longleftrightarrow> True"
| "releases (Delete_align_nothrow a b) \<longleftrightarrow> True"
| "releases (Delete_array_align_nothrow a b) \<longleftrightarrow> True"
| "releases (Delete_sized a b) \<longleftrightarrow> True"
| "releases (Delete_array_sized a b) \<longleftrightarrow> True"
| "releases (Delete_sized_align a b c) \<longleftrightarrow> True"
| "releases (Delete_array_sized_align a b c) \<longleftrightarrow> True"
| "releases (Calloc a b) \<longleftrightarrow> False"
| "releases (Realloc a b) \<longleftrightarrow> False"
| "releases (Posix_memalign a b) \<longleftrightarrow> False"
| "releases (Aligned_alloc a b) \<longleftrightarrow> False"
| "releases (Memalign a b) \<longleftrightarrow> False"
| "releases (Pvalloc a) \<longleftrightarrow> False"
| "releases (Valloc a) \<longleftrightarrow> False"
| "releases (Reallocarray a b c) \<longleftrightarrow> False"
| "releases (Mallocx a b) \<longleftrightarrow> False"
| "releases (Rallocx a b c) \<longleftrightarrow> False"
| "releases (Xallocx a b c d) \<longleftrightarrow> False"
| "releases (Dallocx a b) \<longleftrightarrow> True"
| "releases (Sdallocx a b c) \<longleftrightarrow> True"
| "releases Pthread_getattr_np \<longleftrightarrow> False"
| "releases (Mmap a b c d e f) \<longleftrightarrow> False"
| "releases (Internal_mmap a b c d e f) \<longleftrightarrow> False"
| "releases (Mmap64 a b c d e f) \<longleftrightarrow> False"
| "releases (Munmap a b) \<longleftrightarrow> True"
| "releases (Internal_munmap a b) \<longleftrightarrow> True"

primrec is_mmap :: "libc_fn \<Rightarrow> bool" where
  "is_mmap (Malloc a) \<longleftrightarrow> False"
| "is_mmap (New a) \<longleftrightarrow> False"
| "is_mmap (New_nothrow a) \<longleftrightarrow> False"
| "is_mmap (New_align a b) \<longleftrightarrow> False"
| "is_mmap (New_align_nothrow a b) \<longleftrightarrow> False"
| "is_mmap (New_array a) \<longleftrightarrow> False"
| "is_mmap (New_array_nothrow a) \<longleftrightarrow> False"
| "is_mmap (New_array_align a b) \<longleftrightarrow> False"
| "is_mmap (New_array_align_nothrow a b) \<longleftrightarrow> False"
| "is_mmap (Free a) \<longleftrightarrow> False"
| "is_mmap (Free_sized a b) \<longleftrightarrow> False"
| "is_mmap (Free_aligned_sized a b c) \<longleftrightarrow> False"
| "is_mmap (Delete a) \<longleftrightarrow> False"
| "is_mmap (Delete_array a) \<longleftrightarrow> False"
| "is_mmap (Delete_nothrow a) \<longleftrightarrow> False"
| "is_mmap (Delete_array_nothrow a) \<longleftrightarrow> False"
| "is_mmap (Delete_align a b) \<longleftrightarrow> False"
| "is_mmap (Delete_array_align a b) \<longleftrightarrow> False"
| "is_mmap (Delete_align_nothrow a b) \<longleftrightarrow> False"
| "is_mmap (Delete_array_align_nothrow a b) \<longleftrightarrow> False"
| "is_mmap (Delete_sized a b) \<longleftrightarrow> False"
| "is_mmap (Delete_array_sized a b) \<longleftrightarrow> False"
| "is_mmap (Delete_sized_align a b c) \<longleftrightarrow> False"
| "is_mmap (Delete_array_sized_align a b c) \<longleftrightarrow> False"
| "is_mmap (Calloc a b) \<longleftrightarrow> False"
| "is_mmap (Realloc a b) \<longleftrightarrow> False"
| "is_mmap (Posix_memalign a b) \<longleftrightarrow> False"
| "is_mmap (Aligned_alloc a b) \<longleftrightarrow> False"
| "is_mmap (Memalign a b) \<longleftrightarrow> False"
| "is_mmap (Pvalloc a) \<longleftrightarrow> False"
| "is_mmap (Valloc a) \<longleftrightarrow> False"
| "is_mmap (Reallocarray a b c) \<longleftrightarrow> False"
| "is_mmap (Mallocx a b) \<longleftrightarrow> False"
| "is_mmap (Rallocx a b c) \<longleftrightarrow> False"
| "is_mmap (Xallocx a b c d) \<longleftrightarrow> False"
| "is_mmap (Dallocx a b) \<longleftrightarrow> False"
| "is_mmap (Sdallocx a b c) \<longleftrightarrow> False"
| "is_mmap Pthread_getattr_np \<longleftrightarrow> False"
| "is_mmap (Mmap a b c d e f) \<longleftrightarrow> True"
| "is_mmap (Internal_mmap a b c d e f) \<longleftrightarrow> True"
| "is_mmap (Mmap64 a b c d e f) \<longleftrightarrow> True"
| "is_mmap (Munmap a b) \<longleftrightarrow> True"
| "is_mmap (Internal_munmap a b) \<longleftrightarrow> True"

primrec throwing :: "libc_fn \<Rightarrow> bool" where
  "throwing (Malloc a) \<longleftrightarrow> False"
| "throwing (New a) \<longleftrightarrow> True"
| "throwing (New_nothrow a) \<longleftrightarrow> False"
| "throwing (New_align a b) \<longleftrightarrow> True"
| "throwing (New_align_nothrow a b) \<longleftrightarrow> False"
| "throwing (New_array a) \<longleftrightarrow> True"
| "throwing (New_array_nothrow a) \<longleftrightarrow> False"
| "throwing (New_array_align a b) \<longleftrightarrow> True"
| "throwing (New_array_align_nothrow a b) \<longleftrightarrow> False"
| "throwing (Free a) \<longleftrightarrow> False"
| "throwing (Free_sized a b) \<longleftrightarrow> False"
| "throwing (Free_aligned_sized a b c) \<longleftrightarrow> False"
| "throwing (Delete a) \<longleftrightarrow> False"
| "throwing (Delete_array a) \<longleftrightarrow> False"
| "throwing (Delete_nothrow a) \<longleftrightarrow> False"
| "throwing (Delete_array_nothrow a) \<longleftrightarrow> False"
| "throwing (Delete_align a b) \<longleftrightarrow> False"
| "throwing (Delete_array_align a b) \<longleftrightarrow> False"
| "throwing (Delete_align_nothrow a b) \<longleftrightarrow> False"
| "throwing (Delete_array_align_nothrow a b) \<longleftrightarrow> False"
| "throwing (Delete_sized a b) \<longleftrightarrow> False"
| "throwing (Delete_array_sized a b) \<longleftrightarrow> False"
| "throwing (Delete_sized_align a b c) \<longleftrightarrow> False"
| "throwing (Delete_array_sized_align a b c) \<longleftrightarrow> False"
| "throwing (Calloc a b) \<longleftrightarrow> False"
| "throwing (Realloc a b) \<longleftrightarrow> False"
| "throwing (Posix_memalign a b) \<longleftrightarrow> False"
| "throwing (Aligned_alloc a b) \<longleftrightarrow> False"
| "throwing (Memalign a b) \<longleftrightarrow> False"
| "throwing (Pvalloc a) \<longleftrightarrow> False"
| "throwing (Valloc a) \<longleftrightarrow> False"
| "throwing (Reallocarray a b c) \<longleftrightarrow> False"
| "throwing (Mallocx a b) \<longleftrightarrow> False"
| "throwing (Rallocx a b c) \<longleftrightarrow> False"
| "throwing (Xallocx a b c d) \<longleftrightarrow> False"
| "throwing (Dallocx a b) \<longleftrightarrow> False"
| "throwing (Sdallocx a b c) \<longleftrightarrow> False"
| "throwing Pthread_getattr_np \<longleftrightarrow> False"
| "throwing (Mmap a b c d e f) \<longleftrightarrow> False"
| "throwing (Internal_mmap a b c d e f) \<longleftrightarrow> False"
| "throwing (Mmap64 a b c d e f) \<longleftrightarrow> False"
| "throwing (Munmap a b) \<longleftrightarrow> False"
| "throwing (Internal_munmap a b) \<longleftrightarrow> False"

text \<open>A release of the null pointer that does not reach the function.\<close>

primrec null_release :: "libc_fn \<Rightarrow> bool" where
  "null_release (Malloc a) \<longleftrightarrow> False"
| "null_release (New a) \<longleftrightarrow> False"
| "null_release (New_nothrow a) \<longleftrightarrow> False"
| "null_release (New_align a b) \<longleftrightarrow> False"
| "null_release (New_align_nothrow a b) \<longleftrightarrow> False"
| "null_release (New_array a) \<longleftrightarrow> False"
| "null_release (New_array_nothrow a) \<longleftrightarrow> False"
| "null_release (New_array_align a b) \<longleftrightarrow> False"
| "null_release (New_array_align_nothrow a b) \<longleftrightarrow> False"
| "null_release (Free a) \<longleftrightarrow> a = 0"
| "null_release (Free_sized a b) \<longleftrightarrow> a = 0"
| "null_release (Free_aligned_sized a b c) \<longleftrightarrow> a = 0"
| "null_release (Delete a) \<longleftrightarrow> a = 0"
| "null_release (Delete_array a) \<longleftrightarrow> a = 0"
| "null_release (Delete_nothrow a) \<longleftrightarrow> a = 0"
| "null_release (Delete_array_nothrow a) \<longleftrightarrow> a = 0"
| "null_release (Delete_align a b) \<longleftrightarrow> a = 0"
| "null_release (Delete_array_align a b) \<longleftrightarrow> a = 0"
| "null_release (Delete_align_nothrow a b) \<longleftrightarrow> a = 0"
| "null_release (Delete_array_align_nothrow a b) \<longleftrightarrow> a = 0"
| "null_release (Delete_sized a b) \<longleftrightarrow> a = 0"
| "null_release (Delete_array_sized a b) \<longleftrightarrow> a = 0"
| "null_release (Delete_sized_align a b c) \<longleftrightarrow> a = 0"
| "null_release (Delete_array_sized_align a b c) \<longleftrightarrow> a = 0"
| "null_release (Calloc a b) \<longleftrightarrow> False"
| "null_release (Realloc a b) \<longleftrightarrow> False"
| "null_release (Posix_memalign a b) \<longleftrightarrow> False"
| "null_release (Aligned_alloc a b) \<longleftrightarrow> False"
| "null_release (Memalign a b) \<longleftrightarrow> False"
| "null_release (Pvalloc a) \<longleftrightarrow> False"
| "null_release (Valloc a) \<longleftrightarrow> False"
| "null_release (Reallocarray a b c) \<longleftrightarrow> False"
| "null_release (Mallocx a b) \<longleftrightarrow> False"
| "null_release (Rallocx a b c) \<longleftrightarrow> False"
| "null_release (Xallocx a b c d) \<longleftrightarrow> False"
| "null_release (Dallocx a b) \<longleftrightarrow> False"
| "null_release (Sdallocx a b c) \<longleftrightarrow> False"
| "null_release Pthread_getattr_np \<longleftrightarrow> False"
| "null_release (Mmap a b c d e f) \<longleftrightarrow> False"
| "null_release (Internal_mmap a b c d e f) \<longleftrightarrow> False"
| "null_release (Mmap64 a b c d e f) \<longleftrightarrow> False"
| "null_release (Munmap a b) \<longleftrightarrow> False"
| "null_release (Internal_munmap a b) \<longleftrightarrow> False"

text \<open>The block whose release is tracked before the function is called.\<close>

primrec before :: "'g hook_env \<Rightarrow> libc_fn \<Rightarrow> tracker_call list" where
  "before env (Malloc a) = []"
| "before env (New a) = []"
| "before env (New_nothrow a) = []"
| "before env (New_align a b) = []"
| "before env (New_align_nothrow a b) = []"
| "before env (New_array a) = []"
| "before env (New_array_nothrow a) = []"
| "before env (New_array_align a b) = []"
| "before env (New_array_align_nothrow a b) = []"
| "before env (Free a) = [CallDealloc a False (he_dealloc env)]"
| "before env (Free_sized a b) = [CallDealloc a False (he_dealloc env)]"
| "before env (Free_aligned_sized a b c) = [CallDealloc a False (he_dealloc env)]"
| "before env (Delete a) = [CallDealloc a False (he_dealloc env)]"
| "before env (Delete_array a) = [CallDealloc a False (he_dealloc env)]"
| "before env (Delete_nothrow a) = [CallDealloc a False (he_dealloc env)]"
| "before env (Delete_array_nothrow a) = [CallDealloc a False (he_dealloc env)]"
| "before env (Delete_align a b) = [CallDealloc a False (he_dealloc env)]"
| "before env (Delete_array_align a b) = [CallDealloc a False (he_dealloc env)]"
| "before env (Delete_align_nothrow a b) = [CallDealloc a False (he_dealloc env)]"
| "before env (Delete_array_align_nothrow a b) = [CallDealloc a False (he_dealloc env)]"
| "before env (Delete_sized a b) = [CallDealloc a False (he_dealloc env)]"
| "before env (Delete_array_sized a b) = [CallDealloc a False (he_dealloc env)]"
| "before env (Delete_sized_align a b c) = [CallDealloc a False (he_dealloc env)]"
| "before env (Delete_array_sized_align a b c) = [CallDealloc a False (he_dealloc env)]"
| "before env (Calloc a b) = []"
| "before env (Realloc a b) = (if a \<noteq> 0 then [CallDealloc a False (he_dealloc env)] else [])"
| "before env (Posix_memalign a b) = []"
| "before env (Aligned_alloc a b) = []"
| "before env (Memalign a b) = []"
| "before env (Pvalloc a) = []"
| "before env (Valloc a) = []"
| "before env (Reallocarray a b c) = (if a \<noteq> 0 then [CallDealloc a False (he_dealloc env)] else [])"
| "before env (Mallocx a b) = []"
| "before env (Rallocx a b c) = (if a \<noteq> 0 then [CallDealloc a False (he_dealloc env)] else [])"
| "before env (Xallocx a b c d) = [CallDealloc a False (he_dealloc env)]"
| "before env (Dallocx a b) = []"
| "before env (Sdallocx a b c) = []"
| "before env Pthread_getattr_np = []"
| "before env (Mmap a b c d e f) = []"
| "before env (Internal_mmap a b c d e f) = []"
| "before env (Mmap64 a b c d e f) = []"
| "before env (Munmap a b) = [CallDealloc a True (he_dealloc env)]"
| "before env (Internal_munmap a b) = [CallDealloc a True (he_dealloc env)]"

text \<open>What is tracked after it, from what it gave.\<close>

primrec after :: "'g hook_env \<Rightarrow> libc_fn \<Rightarrow> u64 thrown \<Rightarrow> tracker_call list" where
  "after env (Malloc a) r = [CallAlloc (value_of r) a False (he_alloc env)]"
| "after env (New a) r = (case r of Thrown \<Rightarrow> [] | Returned p \<Rightarrow> [CallAlloc p a False (he_alloc env)])"
| "after env (New_nothrow a) r = [CallAlloc (value_of r) a False (he_alloc env)]"
| "after env (New_align a b) r = (case r of Thrown \<Rightarrow> [] | Returned p \<Rightarrow> [CallAlloc p a False (he_alloc env)])"
| "after env (New_align_nothrow a b) r = [CallAlloc (value_of r) a False (he_alloc env)]"
| "after env (New_array a) r = (case r of Thrown \<Rightarrow> [] | Returned p \<Rightarrow> [CallAlloc p a False (he_alloc env)])"
| "after env (New_array_nothrow a) r = [CallAlloc (value_of r) a False (he_alloc env)]"
| "after env (New_array_align a b) r = (case r of Thrown \<Rightarrow> [] | Returned p \<Rightarrow> [CallAlloc p a False (he_alloc env)])"
| "after env (New_array_align_nothrow a b) r = [CallAlloc (value_of r) a False (he_alloc env)]"
| "after env (Free a) r = []"
| "after env (Free_sized a b) r = []"
| "after env (Free_aligned_sized a b c) r = []"
| "after env (Delete a) r = []"
| "after env (Delete_array a) r = []"
| "after env (Delete_nothrow a) r = []"
| "after env (Delete_array_nothrow a) r = []"
| "after env (Delete_align a b) r = []"
| "after env (Delete_array_align a b) r = []"
| "after env (Delete_align_nothrow a b) r = []"
| "after env (Delete_array_align_nothrow a b) r = []"
| "after env (Delete_sized a b) r = []"
| "after env (Delete_array_sized a b) r = []"
| "after env (Delete_sized_align a b c) r = []"
| "after env (Delete_array_sized_align a b c) r = []"
| "after env (Calloc a b) r = [CallAlloc (value_of r) (b * a) False (he_alloc env)]"
| "after env (Realloc a b) r = (if b \<noteq> 0 then [CallAlloc (value_of r) b False (he_alloc env)] else [])"
| "after env (Posix_memalign a b) r = (if value_of r \<noteq> 0 then [CallAlloc (value_of r) b False (he_alloc env)] else [])"
| "after env (Aligned_alloc a b) r = (if value_of r \<noteq> 0 then [CallAlloc (value_of r) b False (he_alloc env)] else [])"
| "after env (Memalign a b) r = (if value_of r \<noteq> 0 then [CallAlloc (value_of r) b False (he_alloc env)] else [])"
| "after env (Pvalloc a) r = (if value_of r \<noteq> 0 then [CallAlloc (value_of r) a False (he_alloc env)] else [])"
| "after env (Valloc a) r = (if value_of r \<noteq> 0 then [CallAlloc (value_of r) a False (he_alloc env)] else [])"
| "after env (Reallocarray a b c) r = (if value_of r \<noteq> 0 then [CallAlloc (value_of r) (c * b) False (he_alloc env)] else [])"
| "after env (Mallocx a b) r = [CallAlloc (value_of r) a False (he_alloc env)]"
| "after env (Rallocx a b c) r = (if b \<noteq> 0 then [CallAlloc (value_of r) b False (he_alloc env)] else [])"
| "after env (Xallocx a b c d) r = [CallAlloc a (value_of r) False (he_alloc env)]"
| "after env (Dallocx a b) r = [CallDealloc a False (he_dealloc env)]"
| "after env (Sdallocx a b c) r = [CallDealloc a False (he_dealloc env)]"
| "after env Pthread_getattr_np r = []"
| "after env (Mmap a b c d e f) r = (if a = 0 \<and> e = -1 \<and> value_of r \<noteq> 0 then [CallAlloc (value_of r) b True (he_alloc env)] else [])"
| "after env (Internal_mmap a b c d e f) r = (if a = 0 \<and> e = -1 \<and> value_of r \<noteq> 0 then [CallAlloc (value_of r) b True (he_alloc env)] else [])"
| "after env (Mmap64 a b c d e f) r = (if a = 0 \<and> e = -1 \<and> value_of r \<noteq> 0 then [CallAlloc (value_of r) b True (he_alloc env)] else [])"
| "after env (Munmap a b) r = []"
| "after env (Internal_munmap a b) r = []"

text \<open>What the program sees of a result.\<close>

definition seen :: "libc_fn \<Rightarrow> u64 thrown \<Rightarrow> u64 thrown" where
  "seen fn r = (if throwing fn then r else if releases fn \<and> \<not> is_mmap fn then Returned 0 else Returned (value_of r))"

fun is_large :: "tracker_call \<Rightarrow> bool" where
  "is_large (CallAlloc a n l env) = l"
| "is_large (CallDealloc a l env) = l"

definition hook_perform :: "('g \<Rightarrow> u64 \<times> 'g) \<Rightarrow> tracker_call \<Rightarrow> 'g hook_state \<Rightarrow> 'g hook_state option" where
  "hook_perform draw c s = (
     let s = set_allowed (is_large c) False s
     in map_option (\<lambda>(t, tls). set_allowed (is_large c) True (s\<lparr>hs_tracker := t, hs_tls := tls\<rparr>)) (perform draw (hs_tracker s, hs_tls s) c))"

fun hook_run :: "('g \<Rightarrow> u64 \<times> 'g) \<Rightarrow> tracker_call list \<Rightarrow> 'g hook_state \<Rightarrow> 'g hook_state option" where
  "hook_run draw [] s = Some s"
| "hook_run draw (c # cs) s = Option.bind (hook_perform draw c s) (hook_run draw cs)"

definition enter_fn :: "'g hook_env \<Rightarrow> libc_fn \<Rightarrow> 'g hook_state \<Rightarrow> 'g hook_state \<times> bool" where
  "enter_fn env fn s = (
     if fn = Pthread_getattr_np then (s\<lparr>hs_tls := notify_pthread_getattr_np (hs_tls s)\<rparr>, False)
     else if releases fn then DeallocTrackerHelper (is_mmap fn) env s
     else AllocTrackerHelper (is_mmap fn) env s)"

definition leave_fn :: "libc_fn \<Rightarrow> bool \<Rightarrow> 'g hook_state \<Rightarrow> 'g hook_state" where
  "leave_fn fn ok s = (
     if fn = Pthread_getattr_np then s\<lparr>hs_tls := notify_pthread_getattr_np_end (hs_tls s)\<rparr> else leave ok s)"

definition plan_hook :: "'g hook_env \<Rightarrow> libc_fn \<Rightarrow> ('g, u64 thrown) libc \<Rightarrow> ('g, u64 thrown) libc" where
  "plan_hook env fn ref s = (
     let (s, ok) = enter_fn env fn s in
     if null_release fn then Some (leave ok s, Returned 0)
     else do {
       s \<leftarrow> hook_run (he_draw env) (if ok then before env fn else []) s;
       (s, r) \<leftarrow> ref s;
       s \<leftarrow> hook_run (he_draw env) (if ok then after env fn r else []) s;
       Some (leave_fn fn ok s, seen fn r)
     })"

lemma alloc_track_perform: "alloc_track l env True p n = hook_perform (he_draw env) (CallAlloc p n l (he_alloc env))"
  by (rule ext) (simp add: alloc_track_def hook_perform_def)

lemma dealloc_track_perform: "dealloc_track l env True p = hook_perform (he_draw env) (CallDealloc p l (he_dealloc env))"
  by (rule ext) (simp add: dealloc_track_def hook_perform_def option.map_comp comp_def set_allowed_def)

lemma dealloc_direct_perform:
  "map_option (\<lambda>t. s\<lparr>hs_tracker := t\<rparr>) (track_deallocation_s (hs_tracker s) (hs_tls s) e p False) = hook_perform draw (CallDealloc p False e) s"
  by (simp add: hook_perform_def option.map_comp comp_def set_allowed_def)

lemma track_not_ok [simp]: "alloc_track l env False p n s = Some s" "dealloc_track l env False p s = Some s"
  by (simp_all add: alloc_track_def dealloc_track_def)

lemmas body_defs = alloc_body_def new_body_def checked_body_def free_body_def realloc_body_def mmap_body_def munmap_body_def late_free_body_def

lemma bind_conv [simp]: "Option.bind (conv f ref s) g = Option.bind (ref s) (\<lambda>(s, r). g (s, f r))"
  by (cases "ref s") (auto simp: conv_def)

lemma conv_bind: "conv f h s = Option.bind (h s) (\<lambda>(s, r). Some (s, f r))"
  by (cases "h s") (auto simp: conv_def)

text \<open>The bodies, with the guard taken.\<close>

definition guarded :: "('g \<Rightarrow> u64 \<times> 'g) \<Rightarrow> 'g hook_state \<times> bool \<Rightarrow> tracker_call list \<Rightarrow> ('g, 'a) libc \<Rightarrow> ('a \<Rightarrow> tracker_call list) \<Rightarrow>
    ('a \<Rightarrow> 'b) \<Rightarrow> ('g hook_state \<times> 'b) option" where
  "guarded draw e bef ref aft f = do {
     s \<leftarrow> hook_run draw (if snd e then bef else []) (fst e);
     (s, r) \<leftarrow> ref s;
     s \<leftarrow> hook_run draw (if snd e then aft r else []) s;
     Some (leave (snd e) s, f r)
   }"

lemma guarded_conv: "map_option (\<lambda>(s, r). (s, g r)) (guarded draw e bef (conv h ref) aft f) = guarded draw e bef ref (\<lambda>r. aft (h r)) (\<lambda>r. g (f (h r)))"
  by (auto simp: guarded_def split: bind_splits)

lemma hook_run_if: "hook_run draw (if c then xs else []) s = (if c then hook_run draw xs s else Some s)"
  by simp

lemma bind_hook_run_Nil [simp]: "Option.bind x (hook_run draw []) = x"
  by (cases x) simp_all

lemma guarded_alloc_body:
  "alloc_body env r1 n s = guarded (he_draw env) (AllocTrackerHelper False env s) [] r1 (\<lambda>p. [CallAlloc p n False (he_alloc env)]) id"
  by (cases "AllocTrackerHelper False env s"; cases "snd (AllocTrackerHelper False env s)")
    (auto simp: alloc_body_def guarded_def alloc_track_perform dealloc_track_perform dealloc_direct_perform[of _ _ _ "he_draw env"] intro!: Option.bind_cong split: thrown.split)

lemma guarded_new_body:
  "new_body env r2 n s = guarded (he_draw env) (AllocTrackerHelper False env s) [] r2
     (\<lambda>r. case r of Thrown \<Rightarrow> [] | Returned p \<Rightarrow> [CallAlloc p n False (he_alloc env)]) id"
  by (cases "AllocTrackerHelper False env s"; cases "snd (AllocTrackerHelper False env s)")
    (auto simp: new_body_def guarded_def alloc_track_perform dealloc_track_perform dealloc_direct_perform[of _ _ _ "he_draw env"] intro!: Option.bind_cong split: thrown.split)

lemma guarded_checked_body:
  "checked_body env r1 n s = guarded (he_draw env) (AllocTrackerHelper False env s) [] r1
     (\<lambda>p. if p \<noteq> 0 then [CallAlloc p n False (he_alloc env)] else []) id"
  by (cases "AllocTrackerHelper False env s"; cases "snd (AllocTrackerHelper False env s)")
    (auto simp: checked_body_def guarded_def alloc_track_perform dealloc_track_perform dealloc_direct_perform[of _ _ _ "he_draw env"] intro!: Option.bind_cong split: thrown.split)

lemma guarded_posix_memalign:
  "posix_memalign_hook env (\<lambda>_ _. r5) al n s = guarded (he_draw env) (AllocTrackerHelper False env s) [] r5
     (\<lambda>(ret, p). if ret = 0 then [CallAlloc p n False (he_alloc env)] else []) id"
  by (cases "AllocTrackerHelper False env s"; cases "snd (AllocTrackerHelper False env s)")
    (auto simp: posix_memalign_hook_def guarded_def alloc_track_perform dealloc_track_perform dealloc_direct_perform[of _ _ _ "he_draw env"] intro!: Option.bind_cong split: thrown.split)

lemma guarded_realloc_body:
  "realloc_body env r1 ptr tr n s = guarded (he_draw env) (AllocTrackerHelper False env s) (if ptr \<noteq> 0 then [CallDealloc ptr False (he_dealloc env)] else []) r1
     (\<lambda>p. if tr p then [CallAlloc p n False (he_alloc env)] else []) id"
  by (cases "AllocTrackerHelper False env s"; cases "snd (AllocTrackerHelper False env s)")
    (auto simp: realloc_body_def guarded_def alloc_track_perform dealloc_track_perform dealloc_direct_perform[of _ _ _ "he_draw env"] intro!: Option.bind_cong split: thrown.split)

lemma guarded_xallocx:
  "xallocx_hook env (\<lambda>_ _ _ _. r1) ptr n x y s = guarded (he_draw env) (AllocTrackerHelper False env s) [CallDealloc ptr False (he_dealloc env)] r1
     (\<lambda>m. [CallAlloc ptr m False (he_alloc env)]) id"
  by (cases "AllocTrackerHelper False env s"; cases "snd (AllocTrackerHelper False env s)")
    (auto simp: xallocx_hook_def guarded_def alloc_track_perform dealloc_track_perform dealloc_direct_perform[of _ _ _ "he_draw env"] intro!: Option.bind_cong split: thrown.split)

lemma guarded_mmap_body:
  "mmap_body env r1 addr len fd s = guarded (he_draw env) (AllocTrackerHelper True env s) [] r1
     (\<lambda>p. if addr = 0 \<and> fd = -1 \<and> p \<noteq> 0 then [CallAlloc p len True (he_alloc env)] else []) id"
  by (cases "AllocTrackerHelper True env s"; cases "snd (AllocTrackerHelper True env s)")
    (auto simp: mmap_body_def guarded_def alloc_track_perform dealloc_track_perform dealloc_direct_perform[of _ _ _ "he_draw env"] intro!: Option.bind_cong split: thrown.split)

lemma guarded_munmap_body:
  "munmap_body env r3 addr s = guarded (he_draw env) (DeallocTrackerHelper True env s) [CallDealloc addr True (he_dealloc env)] r3 (\<lambda>_. []) id"
  by (cases "DeallocTrackerHelper True env s"; cases "snd (DeallocTrackerHelper True env s)")
    (auto simp: munmap_body_def guarded_def alloc_track_perform dealloc_track_perform dealloc_direct_perform[of _ _ _ "he_draw env"] intro!: Option.bind_cong split: thrown.split)

lemma guarded_late_free_body:
  "late_free_body env r4 ptr s = guarded (he_draw env) (DeallocTrackerHelper False env s) [] r4 (\<lambda>_. [CallDealloc ptr False (he_dealloc env)]) id"
  by (cases "DeallocTrackerHelper False env s"; cases "snd (DeallocTrackerHelper False env s)")
    (auto simp: late_free_body_def guarded_def alloc_track_perform dealloc_track_perform dealloc_direct_perform[of _ _ _ "he_draw env"] intro!: Option.bind_cong split: thrown.split)

lemma guarded_free_body:
  "free_body env r4 ptr s = (if ptr = 0 then Some (leave (snd (DeallocTrackerHelper False env s)) (fst (DeallocTrackerHelper False env s)), ())
     else guarded (he_draw env) (DeallocTrackerHelper False env s) [CallDealloc ptr False (he_dealloc env)] r4 (\<lambda>_. []) id)"
  by (cases "DeallocTrackerHelper False env s"; cases "snd (DeallocTrackerHelper False env s)")
    (auto simp: free_body_def guarded_def alloc_track_perform dealloc_track_perform dealloc_direct_perform[of _ _ _ "he_draw env"] intro!: Option.bind_cong split: thrown.split)

lemmas guarded_bodies = guarded_alloc_body guarded_new_body guarded_checked_body guarded_posix_memalign guarded_realloc_body guarded_xallocx guarded_mmap_body guarded_munmap_body guarded_late_free_body guarded_free_body

text \<open>Hence every hook is an instance of the uniform view.\<close>

lemma guarded_cong: "(\<And>r. aft r = aft' r) \<Longrightarrow> (\<And>r. f r = f' r) \<Longrightarrow> guarded draw e bef ref aft f = guarded draw e bef ref aft' f'"
  by (simp add: guarded_def)

lemma plan_guarded:
  "fn \<noteq> Pthread_getattr_np \<Longrightarrow> \<not> null_release fn \<Longrightarrow>
    plan_hook env fn ref s = guarded (he_draw env) (enter_fn env fn s) (before env fn) ref (after env fn) (seen fn)"
  by (simp add: plan_hook_def guarded_def leave_fn_def case_prod_unfold)

lemma run_hook_plan: "run_hook env fn ref s = plan_hook env fn ref s"
proof (cases "fn = Pthread_getattr_np \<or> null_release fn")
  case True
  then show ?thesis
    by (cases fn) (simp_all add: plan_hook_def enter_fn_def leave_fn_def seen_def hook_defs conv_bind guarded_bodies Let_def case_prod_unfold)
next
  case False
  then show ?thesis
    by (cases fn) (auto simp: plan_guarded enter_fn_def hook_defs[abs_def] guarded_bodies conv_def[of _ _ s] guarded_conv in_posix_def out_posix_def seen_def
      intro!: guarded_cong)
qed

end
