(* ===== verification/Hook_Props.thy ===== *)
theory Hook_Props
  imports Hook_Calls
begin

text \<open>
  What the hooks guarantee: each gives the program what the function it replaces gives, keeps the
  tracker in order and the guard as it was whatever that function does, and of calls that run
  inside one another only the outermost is tracked.
\<close>

declare run_hook.simps [simp del]

section \<open>The flags of a thread\<close>

abbreviation guard_of :: "'g hook_state \<Rightarrow> bool" where "guard_of s \<equiv> tl_reentry_guard (hs_tls s)"
abbreviation initialized :: "'g hook_state \<Rightarrow> bool" where "initialized s \<equiv> tl_initialized (hs_tls s)"
abbreviation allowed :: "'g hook_state \<Rightarrow> bool" where "allowed s \<equiv> tl_allocation_allowed (hs_tls s)"

definition set_guard :: "bool \<Rightarrow> 'g TrackerThreadLocalState \<Rightarrow> 'g TrackerThreadLocalState" where
  "set_guard b tls = tls\<lparr>tl_reentry_guard := b\<rparr>"

lemma set_guard_sel [simp]:
  "tl_remaining_bytes (set_guard b tls) = tl_remaining_bytes tls" "tl_stack_begin (set_guard b tls) = tl_stack_begin tls"
  "tl_stack_end (set_guard b tls) = tl_stack_end tls" "tl_gen (set_guard b tls) = tl_gen tls" "tl_tid (set_guard b tls) = tl_tid tls"
  "tl_reentry_guard (set_guard b tls) = b" "tl_allocation_allowed (set_guard b tls) = tl_allocation_allowed tls"
  "tl_initialized (set_guard b tls) = tl_initialized tls"
  by (simp_all add: set_guard_def)

lemma set_guard_update:
  "(set_guard b tls)\<lparr>tl_remaining_bytes := x\<rparr> = set_guard b (tls\<lparr>tl_remaining_bytes := x\<rparr>)"
  "(set_guard b tls)\<lparr>tl_gen := g\<rparr> = set_guard b (tls\<lparr>tl_gen := g\<rparr>)"
  "(set_guard b tls)\<lparr>tl_allocation_allowed := a\<rparr> = set_guard b (tls\<lparr>tl_allocation_allowed := a\<rparr>)"
  by (cases tls, simp add: set_guard_def)+

text \<open>No operation of the tracker reads or changes the guard.\<close>

lemma then_check_timer_guard: "then_check_timer r (set_guard b tls) env = then_check_timer r tls env"
  unfolding then_check_timer_def check_timer_def set_guard_sel ..

lemma push_guard:
  "push_alloc_sample t (set_guard b tls) env addr n = push_alloc_sample t tls env addr n"
  "push_dealloc_sample t (set_guard b tls) env addr = push_dealloc_sample t tls env addr"
  unfolding push_alloc_sample_def push_dealloc_sample_def then_check_timer_guard sample_stack_size_def save_context_def set_guard_sel by (rule refl)+

lemma sampled_size_guard: "sampled_size draw t (set_guard b tls) = map_option (\<lambda>(n, tls). (n, set_guard b tls)) (sampled_size draw t tls)"
  by (simp add: sampled_size_def Let_def option.map_comp comp_def case_prod_unfold set_guard_update)

text \<open>After the number of samples is known, the rest of an allocation passes the state of the thread through.\<close>

lemma track_allocation_guard:
  "track_allocation draw t (set_guard b tls) env addr l = map_option (\<lambda>(t, tls). (t, set_guard b tls)) (track_allocation draw t tls env addr l)"
proof (cases "sampled_size draw t tls")
  case (Some r)
  obtain n tls' where r: "r = (n, tls')" by (cases r)
  show ?thesis unfolding track_allocation_def sampled_size_guard Some r
    by (simp add: push_guard map_option_bind case_prod_unfold Let_def comp_def option.map_comp if_distrib[of "map_option _"] cong: if_cong)
qed (simp add: track_allocation_def sampled_size_guard)

lemma perform_guard:
  "perform draw (t, set_guard b tls) c = map_option (\<lambda>(t, tls). (t, set_guard b tls)) (perform draw (t, tls) c)"
proof (cases c)
  case (CallAlloc addr n l env)
  then show ?thesis by (simp add: track_allocation_s_def track_allocation_guard set_guard_update Let_def)
next
  case (CallDealloc addr l env)
  have "track_deallocation_s t (set_guard b tls) env addr l = track_deallocation_s t tls env addr l"
    unfolding track_deallocation_s_def track_deallocation_def push_guard ..
  then show ?thesis using CallDealloc by (simp add: option.map_comp comp_def)
qed

lemma track_allocation_tls:
  assumes "track_allocation draw t tls env addr l = Some (t', tls')"
  shows "\<exists>n. sampled_size draw t tls = Some (n, tls')"
  using assms unfolding track_allocation_def
  by (cases "sampled_size draw t tls") (auto simp: Let_def split: bind_splits if_splits)

text \<open>The flags of the state of a thread.\<close>

definition flags :: "'g TrackerThreadLocalState \<Rightarrow> bool \<times> bool \<times> bool" where
  "flags tls = (tl_reentry_guard tls, tl_initialized tls, tl_allocation_allowed tls)"

lemma perform_flags:
  assumes "perform draw (t, tls) c = Some (t', tls')"
  shows "flags tls' = flags tls"
proof -
  have s: "flags tls2 = flags tls1" if "sampled_size draw t tls1 = Some (n, tls2)" for tls1 tls2 n
    using that by (auto simp: sampled_size_def Let_def flags_def split: if_splits)
  show ?thesis
  proof (cases c)
    case (CallAlloc addr n l env)
    then show ?thesis using assms track_allocation_tls s[of "tls\<lparr>tl_remaining_bytes := tl_remaining_bytes tls + n\<rparr>"]
      by (fastforce simp: track_allocation_s_def Let_def flags_def split: if_splits)
  qed (use assms in auto)
qed

lemma hook_perform_eq:
  assumes "allowed s"
  shows "hook_perform draw c s = map_option (\<lambda>(t, tls). \<lparr>hs_tracker = t, hs_tls = tls\<lparr>tl_allocation_allowed := True\<rparr>\<rparr>)
    (perform draw (hs_tracker s, (hs_tls s)\<lparr>tl_allocation_allowed := \<not> is_large c\<rparr>) c)"
proof (cases "is_large c")
  case True
  then show ?thesis by (cases s) (simp add: hook_perform_def set_allowed_def)
next
  case False
  have e: "(hs_tls s)\<lparr>tl_allocation_allowed := True\<rparr> = hs_tls s" using assms by simp
  have "tls\<lparr>tl_allocation_allowed := True\<rparr> = tls" if "perform draw (hs_tracker s, hs_tls s) c = Some (t, tls)" for t tls
    using perform_flags[OF that] assms by (simp add: flags_def)
  moreover have "s\<lparr>hs_tracker := t, hs_tls := tls\<rparr> = \<lparr>hs_tracker = t, hs_tls = tls\<rparr>" for t tls by (cases s) simp
  ultimately show ?thesis using False by (cases "perform draw (hs_tracker s, hs_tls s) c") (auto simp: hook_perform_def set_allowed_def e)
qed

lemma hook_perform_flags:
  assumes "hook_perform draw c s = Some s'"
  shows "guard_of s' = guard_of s" "initialized s' = initialized s" "allowed s \<Longrightarrow> allowed s'"
  using assms by (auto simp: hook_perform_def set_allowed_def flags_def Let_def dest!: perform_flags split: if_splits)

lemma hook_run_flags:
  "hook_run draw cs s = Some s' \<Longrightarrow> guard_of s' = guard_of s \<and> initialized s' = initialized s \<and> (allowed s \<longrightarrow> allowed s')"
  by (induction cs arbitrary: s) (auto simp: bind_eq_Some_conv dest: hook_perform_flags)

lemma hook_perform_ok:
  assumes "tracker_ok k (hs_tracker s)" "call_ok k c"
  shows "\<exists>s'. hook_perform draw c s = Some s' \<and> tracker_ok k (hs_tracker s')"
proof -
  have "\<exists>t' tls'. perform draw (hs_tracker s, tls) c = Some (t', tls') \<and> tracker_ok k t'" for tls
  proof (cases c)
    case (CallAlloc addr n l env)
    then show ?thesis using call_alloc_step[OF assms(1), of addr n l env draw tls] assms(2) by blast
  next
    case (CallDealloc addr l env)
    then show ?thesis using call_dealloc_step[OF assms(1), of addr l env draw tls] assms(2) by blast
  qed
  then obtain t' tls' where "perform draw (hs_tracker s, hs_tls (set_allowed (is_large c) False s)) c = Some (t', tls')" "tracker_ok k t'" by blast
  then show ?thesis by (cases "is_large c") (simp_all add: hook_perform_def set_allowed_def)
qed

lemma hook_run_ok:
  assumes "tracker_ok k (hs_tracker s)" "\<forall>c\<in>set cs. call_ok k c"
  shows "\<exists>s'. hook_run draw cs s = Some s' \<and> tracker_ok k (hs_tracker s')"
  using assms
proof (induction cs arbitrary: s)
  case (Cons c cs)
  then obtain s1 where "hook_perform draw c s = Some s1" "tracker_ok k (hs_tracker s1)" using hook_perform_ok by fastforce
  then show ?case using Cons by simp
qed simp

lemma enter_fn_cases:
  assumes "enter_fn env fn s = (s0, ok)" "fn \<noteq> Pthread_getattr_np"
  shows "hs_tracker s0 = hs_tracker s \<and> (ok \<and> \<not> guard_of s \<and> guard_of s0 \<and> initialized s0 \<and> (initialized s \<longrightarrow> hs_tls s0 = set_guard True (hs_tls s)) \<or> \<not> ok \<and> s0 = s)"
  using assms
  by (auto simp: enter_fn_def AllocTrackerHelper_def DeallocTrackerHelper_def enter_with_def hook_tl_state_def get_tl_state_def
    init_tl_state_internal_def guard_enter_def set_guard_def Let_def split: if_splits option.splits prod.splits)


section \<open>The contract of a hooked function\<close>

text \<open>
  What a function does to the state of the thread that calls it: it returns, the tracker is in
  order, the guard is as before, and a thread stays initialised and is not initialised under the
  guard.
\<close>

definition same_flags :: "'g hook_state \<Rightarrow> 'g hook_state \<Rightarrow> bool" where
  "same_flags s s' \<longleftrightarrow> guard_of s' = guard_of s \<and> (initialized s \<longrightarrow> initialized s') \<and> (guard_of s \<longrightarrow> initialized s' = initialized s)"

definition keeps_contract :: "nat \<Rightarrow> ('r \<Rightarrow> bool) \<Rightarrow> ('g, 'r) libc \<Rightarrow> bool" where
  "keeps_contract k P f \<longleftrightarrow> (\<forall>s. tracker_ok k (hs_tracker s) \<longrightarrow>
     (\<exists>s' r. f s = Some (s', r) \<and> tracker_ok k (hs_tracker s') \<and> same_flags s s' \<and> P r))"


definition ex_henv :: "unit hook_env" where
  "ex_henv = \<lparr>he_draw = \<lambda>g. (8, g), he_seed = (), he_tid = 1, he_bounds = (0, 0), he_dealloc = ex_env, he_alloc = ex_env\<rparr>"

lemma ex_call_ok: "call_ok 9 (CallAlloc 4096 n l ex_env)" "call_ok 9 (CallDealloc 4096 l ex_env)"
  using ex_env_ok by (simp_all add: live_def empty_slot_def deleted_slot_def ex_env_def)


section \<open>Calls inside calls\<close>

text \<open>
  A call of a hooked function together with the calls of hooked functions that it makes itself, in
  their order, and with what it gives. All are made through the hooks.
\<close>

datatype 'g hcall = Call libc_fn "'g hook_env" "'g hcall list" "u64 thrown"

primrec exec :: "('g \<Rightarrow> u64 \<times> 'g) \<Rightarrow> 'g hcall \<Rightarrow> 'g hook_state \<Rightarrow> 'g hook_state option"
  and exec_list :: "('g \<Rightarrow> u64 \<times> 'g) \<Rightarrow> 'g hcall list \<Rightarrow> 'g hook_state \<Rightarrow> 'g hook_state option" where
  "exec draw (Call fn env nested r) = (\<lambda>s. map_option fst
     (run_hook (env\<lparr>he_draw := draw\<rparr>) fn (\<lambda>s. map_option (\<lambda>s. (s, r)) (exec_list draw nested s)) s))"
| "exec_list draw [] = Some"
| "exec_list draw (c # cs) = (\<lambda>s. Option.bind (exec draw c s) (exec_list draw cs))"

text \<open>
  What should be tracked of it: the outermost calls. When releases are not tracked, a release does
  not take the guard, and its calls count as outermost. So do those of \<^verbatim>\<open>pthread_getattr_np\<close>.
\<close>

primrec outer :: "bool \<Rightarrow> 'g hcall \<Rightarrow> tracker_call list"
  and outer_list :: "bool \<Rightarrow> 'g hcall list \<Rightarrow> tracker_call list" where
  "outer track_dealloc (Call fn env nested r) = (
     if null_release fn then []
     else if fn = Pthread_getattr_np \<or> releases fn \<and> \<not> track_dealloc then outer_list track_dealloc nested
     else before env fn @ after env fn r)"
| "outer_list track_dealloc [] = []"
| "outer_list track_dealloc (c # cs) = outer track_dealloc c @ outer_list track_dealloc cs"

lemma before_draw [simp]: "before (env\<lparr>he_draw := draw\<rparr>) fn = before env fn"
  by (cases fn) simp_all

lemma after_draw [simp]: "after (env\<lparr>he_draw := draw\<rparr>) fn r = after env fn r"
  by (cases fn) (simp_all split: thrown.split)

text \<open>Under the guard nothing happens.\<close>

lemma exec_inert:
  fixes c :: "'g hcall" and cs :: "'g hcall list"
  shows "guard_of s \<Longrightarrow> initialized s \<Longrightarrow> exec draw c s = Some s"
    and "guard_of s \<Longrightarrow> initialized s \<Longrightarrow> exec_list draw cs s = Some s"
proof (induction c and cs arbitrary: s and s rule: exec.induct exec_list.induct)
  case (Call fn env nested r)
  show ?case
  proof (cases "fn = Pthread_getattr_np")
    case True
    then show ?thesis using Call
      by (simp add: run_hook_plan plan_hook_def enter_fn_def leave_fn_def notify_pthread_getattr_np_def notify_pthread_getattr_np_end_def)
  next
    case False
    obtain s0 ok where e: "enter_fn (env\<lparr>he_draw := draw\<rparr>) fn s = (s0, ok)" by fastforce
    then have "s0 = s" "\<not> ok" using enter_fn_cases[OF e False] Call.prems by auto
    then show ?thesis using Call False e by (simp add: run_hook_plan plan_hook_def leave_fn_def leave_def guard_exit_def)
  qed
qed simp_all

text \<open>Whether the tracker is active: it can stop, for good, and then does nothing.\<close>

definition active :: "AllocationTracker \<Rightarrow> bool \<times> bool" where
  "active t = (at_instance t, at_track_deallocations t)"

lemma commit_event_active: "commit_event t rb w b ps ev io = Some (t', r) \<Longrightarrow> active t' = active t"
  by (auto simp: commit_event_def active_def split: option.splits if_splits prod.splits)

lemma push_state_active: "push_allocation_tracker_state t io = Some (t', r) \<Longrightarrow> active t' = active t"
  by (auto simp: push_allocation_tracker_state_def active_def Let_def dest!: commit_event_active split: option.splits if_splits prod.splits)

lemma then_check_timer_active:
  assumes "then_check_timer r tls env = Some (t', res)" "\<And>t1 res. r = Some (t1, res) \<Longrightarrow> active t1 = active t"
  shows "active t' = active t"
proof -
  have "active t2 = active t1" if "check_timer t1 tls n io = Some t2" for t1 t2 n io
    using that by (auto simp: check_timer_def update_timer_def active_def dest!: push_state_active split: if_splits)
  then show ?thesis using assms by (auto simp: then_check_timer_def split: option.splits if_splits)
qed

lemma push_active:
  "push_alloc_sample t tls env addr n = Some (t', r) \<Longrightarrow> active t' = active t"
  "push_dealloc_sample t tls env addr = Some (t', r) \<Longrightarrow> active t' = active t"
  by (auto simp: push_alloc_sample_def push_dealloc_sample_def Let_def
    dest!: then_check_timer_active[where t = t] dest: commit_event_active split: option.splits prod.splits if_splits) 
   (auto simp: active_def)

definition stops :: "AllocationTracker \<Rightarrow> AllocationTracker \<Rightarrow> bool" where
  "stops t t' \<longleftrightarrow> active t' = active t \<or> active t' = (False, False)"

lemma stops_refl [simp]: "stops t t"
  by (simp add: stops_def)

lemma free_on_failures_stops: "active t1 = active t \<Longrightarrow> stops t (free_on_consecutive_failures t1 f)"
  by (auto simp: stops_def active_def free_on_consecutive_failures_def at_free_def Let_def)

lemma stops_update: "stops t t1 \<Longrightarrow> stops t (t1\<lparr>at_allocated_address_set := x\<rparr>)"
  by (simp add: stops_def active_def)

lemma track_allocation_stops:
  assumes "track_allocation draw t tls env addr l = Some (t', tls')"
  shows "stops t t'"
proof -
  let ?add = "if at_track_deallocations t
        then map_option (\<lambda>(set, added). let t = t\<lparr>at_allocated_address_set := set\<rparr> in
               if added then (t, addr) else (t\<lparr>at_address_conflict_count := at_address_conflict_count t + 1\<rparr>, 0))
             (bs_add (at_allocated_address_set t) addr l)
        else Some (t, addr)"
  obtain total tls1 where 1: "sampled_size draw t tls = Some (total, tls1)"
    using assms unfolding track_allocation_def by (cases "sampled_size draw t tls") auto
  obtain t1 a where 2: "?add = Some (t1, a)"
    using assms unfolding track_allocation_def 1 by (cases ?add) auto
  obtain t2 r where 3: "push_alloc_sample t1 tls1 env a total = Some (t2, r)"
    using assms unfolding track_allocation_def 1 bind.bind_lunit prod.case 2 by (cases "push_alloc_sample t1 tls1 env a total") auto
  have "active t1 = active t" using 2 by (auto simp: active_def Let_def split: if_splits)
  then have "stops t (free_on_consecutive_failures t2 (IsDDResFatal r))" using push_active(1)[OF 3] by (intro free_on_failures_stops) simp
  then show ?thesis using assms[unfolded track_allocation_def 1 bind.bind_lunit prod.case 2 3]
    by (auto simp: Let_def intro: stops_update split: if_splits)
qed

lemma track_deallocation_stops:
  assumes "track_deallocation t tls env addr l = Some t'"
  shows "stops t t'"
proof -
  have x: "stops t (free_on_consecutive_failures t2 f)" if "push_dealloc_sample (t\<lparr>at_allocated_address_set := a\<rparr>) tls env addr = Some (t2, r)" for a t2 r f
    using push_active(2)[OF that] by (intro free_on_failures_stops) (simp add: active_def)
  show ?thesis using assms unfolding track_deallocation_def
    by (auto simp: Let_def bind_eq_Some_conv split: if_splits dest!: x) (simp_all add: stops_def active_def)
qed

lemma perform_stops: "perform draw (t, tls) c = Some (t', tls') \<Longrightarrow> stops t t'"
  by (cases c) (auto simp: track_allocation_s_def track_deallocation_s_def Let_def split: if_splits
    dest: track_allocation_stops track_deallocation_stops)

lemma hook_perform_stops: "hook_perform draw c s = Some s' \<Longrightarrow> stops (hs_tracker s) (hs_tracker s')"
  by (auto simp: hook_perform_def set_allowed_def Let_def split: if_splits dest!: perform_stops)

lemma hook_run_stops: "hook_run draw cs s = Some s' \<Longrightarrow> stops (hs_tracker s) (hs_tracker s')"
proof (induction cs arbitrary: s)
  case (Cons c cs)
  then obtain s1 where "hook_perform draw c s = Some s1" "hook_run draw cs s1 = Some s'" by (auto simp: bind_eq_Some_conv)
  then show ?case using Cons.IH hook_perform_stops by (fastforce simp: stops_def)
qed (simp add: stops_def)

text \<open>A thread of the program: initialised, and not in a hook.\<close>

definition idle :: "'g hook_state \<Rightarrow> bool" where
  "idle s \<longleftrightarrow> initialized s \<and> \<not> guard_of s \<and> allowed s \<and> (at_track_deallocations (hs_tracker s) \<longrightarrow> at_instance (hs_tracker s))"

lemma hook_run_idle: "hook_run draw cs s = Some s' \<Longrightarrow> idle s \<Longrightarrow> idle s'"
  using hook_run_flags[of draw cs s s'] hook_run_stops[of draw cs s s'] by (auto simp: idle_def stops_def active_def)

lemma hook_run_stopped: "allowed s \<Longrightarrow> \<not> at_instance (hs_tracker s) \<Longrightarrow> hook_run draw cs s = Some s"
proof (induction cs)
  case (Cons c cs)
  have "perform draw (hs_tracker s, tls) c = Some (hs_tracker s, tls)" for tls
    using Cons.prems(2) by (cases c) (simp_all add: track_allocation_s_def track_deallocation_s_def)
  then have "hook_perform draw c s = Some s" using Cons.prems(1) by (cases s) (simp add: hook_perform_eq)
  then show ?case using Cons by simp
qed simp

lemma hook_run_append: "hook_run draw (cs @ ds) s = Option.bind (hook_run draw cs s) (hook_run draw ds)"
proof (induction cs arbitrary: s)
  case (Cons c cs)
  then show ?case by (cases "hook_perform draw c s") simp_all
qed simp

abbreviation with_guard_set :: "'g hook_state \<Rightarrow> 'g hook_state" where
  "with_guard_set s \<equiv> s\<lparr>hs_tls := set_guard True (hs_tls s)\<rparr>"

lemma hook_run_guard: "allowed s \<Longrightarrow> hook_run draw cs (with_guard_set s) = map_option with_guard_set (hook_run draw cs s)"
proof (induction cs arbitrary: s)
  case (Cons c cs)
  have p: "hook_perform draw c (with_guard_set s) = map_option with_guard_set (hook_perform draw c s)"
    using Cons.prems by (simp add: hook_perform_eq set_guard_update perform_guard option.map_comp comp_def case_prod_unfold)
  show ?case
  proof (cases "hook_perform draw c s")
    case (Some s1)
    then show ?thesis using p Cons.IH[of s1] hook_perform_flags(3)[OF Some Cons.prems] by simp
  qed (use p in simp)
qed simp

lemma enter_idle:
  assumes "idle s" "fn \<noteq> Pthread_getattr_np"
  shows "enter_fn env fn s = (if releases fn \<and> \<not> at_track_deallocations (hs_tracker s) then (s, False) else (with_guard_set s, True))"
  using assms by (auto simp: idle_def enter_fn_def AllocTrackerHelper_def DeallocTrackerHelper_def enter_with_def hook_tl_state_def
    get_tl_state_def guard_enter_def set_guard_def is_deallocation_tracking_active_def)

lemma leave_guarded: "idle s \<Longrightarrow> leave True (with_guard_set s) = s"
  by (simp add: leave_def guard_exit_def idle_def set_guard_def)

lemma exec_outermost:
  fixes c :: "'g hcall" and cs :: "'g hcall list"
  shows "idle s \<Longrightarrow> exec draw c s = hook_run draw (outer (at_track_deallocations (hs_tracker s)) c) s"
    and "idle s \<Longrightarrow> exec_list draw cs s = hook_run draw (outer_list (at_track_deallocations (hs_tracker s)) cs) s"
proof (induction c and cs arbitrary: s and s rule: exec.induct exec_list.induct)
  case (Call fn env nested r)
  let ?env = "env\<lparr>he_draw := draw\<rparr>" and ?ref = "\<lambda>s. map_option (\<lambda>s. (s, r)) (exec_list draw nested s)"
  consider "fn = Pthread_getattr_np" | "fn \<noteq> Pthread_getattr_np" "releases fn \<and> \<not> at_track_deallocations (hs_tracker s)"
    | "fn \<noteq> Pthread_getattr_np" "\<not> (releases fn \<and> \<not> at_track_deallocations (hs_tracker s))" by blast
  then show ?case
  proof cases
    case 1
    note defs = run_hook_plan plan_hook_def enter_fn_def leave_fn_def notify_pthread_getattr_np_def notify_pthread_getattr_np_end_def
    have ini: "initialized s" using Call.prems by (simp add: idle_def)
    show ?thesis
    proof (cases "hook_run draw (outer_list (at_track_deallocations (hs_tracker s)) nested) s")
      case None
      then show ?thesis using 1 Call.IH[OF Call.prems] ini by (simp add: defs)
    next
      case (Some s1)
      then show ?thesis using 1 Call.IH[OF Call.prems] ini hook_run_flags[OF Some] by (simp add: defs)
    qed
  next
    case 2
    then show ?thesis using Call.IH[OF Call.prems]
      by (cases "hook_run draw (outer_list False nested) s")
        (auto simp: run_hook_plan plan_hook_def enter_idle[OF Call.prems] leave_fn_def leave_def guard_exit_def)
  next
    case 3
    have ref: "?ref (with_guard_set s') = Some (with_guard_set s', r)" if "idle s'" for s'
      using that exec_inert(2)[of "with_guard_set s'"] by (simp add: idle_def)
    have al: "allowed s" using Call.prems by (simp add: idle_def)
    have en: "enter_fn ?env fn s = (with_guard_set s, True)" using enter_idle[OF Call.prems 3(1)] 3(2) by simp
    show ?thesis
    proof (cases "null_release fn")
      case True
      then show ?thesis using 3 by (simp add: run_hook_plan plan_hook_def en leave_guarded[OF Call.prems])
    next
      case False
      have ou: "outer (at_track_deallocations (hs_tracker s)) (Call fn env nested r) = before env fn @ after env fn r" using 3 False by auto
      show ?thesis
      proof (cases "hook_run draw (before env fn) s")
        case None
        then show ?thesis using 3 False unfolding ou
          by (simp add: run_hook_plan plan_hook_def en hook_run_guard[OF al] hook_run_append)
      next
        case (Some s1)
        have i: "idle s1" using hook_run_idle[OF Some Call.prems] .
        then have al1: "allowed s1" by (simp add: idle_def)
        have "leave True (with_guard_set s2) = s2" if "hook_run draw (after env fn r) s1 = Some s2" for s2
          using leave_guarded[OF hook_run_idle[OF that i]] .
        then show ?thesis using 3 False Some ref[OF i] unfolding ou
          by (cases "hook_run draw (after env fn r) s1")
            (simp_all add: run_hook_plan plan_hook_def en hook_run_guard[OF al] hook_run_guard[OF al1] hook_run_append leave_fn_def)
      qed
    qed
  qed
next
  case Nil_hcall
  then show ?case by simp
next
  case (Cons_hcall c cs)
  let ?d = "at_track_deallocations (hs_tracker s)"
  show ?case
  proof (cases "hook_run draw (outer ?d c) s")
    case None
    then show ?thesis using Cons_hcall by (simp add: hook_run_append)
  next
    case (Some s1)
    have i: "idle s1" using hook_run_idle[OF Some Cons_hcall.prems] .
    then have "hook_run draw (outer_list (at_track_deallocations (hs_tracker s1)) cs) s1 = hook_run draw (outer_list ?d cs) s1"
      using hook_run_stops[OF Some] hook_run_stopped[of s1 draw] by (auto simp: stops_def active_def idle_def)
    then show ?thesis using Cons_hcall Some i by (simp add: hook_run_append)
  qed
qed

text \<open>C9. Of hooked calls that run inside one another, at any depth, only the outermost are tracked:
  whatever hooked functions the hooked functions call themselves (an allocator that maps memory, an
  operator that calls the allocator), the state of the tracker and of the thread is what tracking
  the outermost calls alone gives, and the thread is again outside every hook.\<close>

theorem nested_calls_tracked_once:
  assumes "idle s"
  shows "exec_list draw cs s = hook_run draw (outer_list (at_track_deallocations (hs_tracker s)) cs) s \<and>
    (\<forall>s'. exec_list draw cs s = Some s' \<longrightarrow> idle s')"
  using exec_outermost(2)[OF assms] hook_run_idle[OF _ assms] by simp

text \<open>A block of 4096 bytes that the allocator maps, and its release.\<close>

definition ex_program :: "unit hcall list" where
  "ex_program = [Call (Malloc 4096) ex_henv [Call (Mmap 0 8192 3 34 (-1) 0) ex_henv [] (Returned 65536)] (Returned 65552),
     Call (New 24) ex_henv [Call (Malloc 24) ex_henv [] (Returned 4096)] (Returned 4096),
     Call (Free 65552) ex_henv [Call (Munmap 65536 8192) ex_henv [] (Returned 0)] (Returned 0)]"

definition ex_thread :: "unit hook_state" where
  "ex_thread = \<lparr>hs_tracker = ex_tracker, hs_tls = init_tl_state_internal (\<lambda>g. (8, g)) ex_tracker () 1 (0, 0)\<rparr>"

lemma ex_program_outer: "outer_list True ex_program = [CallAlloc 65552 4096 False ex_env, CallAlloc 4096 24 False ex_env, CallDealloc 65552 False ex_env]"
  by (simp add: ex_program_def ex_henv_def)

lemma ex_thread_idle: "idle ex_thread"
  using tracking_startD(3)[OF ex_tracker_start] by (simp add: ex_thread_def idle_def init_tl_state_internal_def case_prod_unfold)

theorem nested_calls_tracked_once_witness:
  "exec_list (\<lambda>g. (8, g)) ex_program ex_thread =
     hook_run (\<lambda>g. (8, g)) [CallAlloc 65552 4096 False ex_env, CallAlloc 4096 24 False ex_env, CallDealloc 65552 False ex_env] ex_thread"
proof -
  have "at_track_deallocations (hs_tracker ex_thread)" using tracking_startD(4)[OF ex_tracker_start] by (simp add: ex_thread_def)
  then show ?thesis using nested_calls_tracked_once[OF ex_thread_idle, of "\<lambda>g. (8, g)" ex_program] ex_program_outer by simp
qed

text \<open>The invariant of a step of the tracker holds of what the hooks do.\<close>

lemma hook_run_invariant:
  assumes step: "\<And>t tls c cs. tracker_ok k t \<Longrightarrow> call_ok k c \<Longrightarrow> P t (c # cs) \<Longrightarrow>
      \<exists>t' tls'. perform draw (t, tls) c = Some (t', tls') \<and> tracker_ok k t' \<and> P t' cs"
    and "tracker_ok k (hs_tracker s)" "\<forall>c\<in>set cs. call_ok k c" "P (hs_tracker s) cs"
  shows "\<exists>s'. hook_run draw cs s = Some s' \<and> tracker_ok k (hs_tracker s') \<and> P (hs_tracker s') []"
  using assms(2-)
proof (induction cs arbitrary: s)
  case (Cons c cs)
  from step[OF Cons.prems(1) _ Cons.prems(3)] Cons.prems(2) obtain t1 tls1 where
    1: "perform draw (hs_tracker s, hs_tls (set_allowed (is_large c) False s)) c = Some (t1, tls1)" "tracker_ok k t1" "P t1 cs"
    by (metis list.set_intros(1))
  then have "\<exists>s1. hook_perform draw c s = Some s1 \<and> hs_tracker s1 = t1"
    by (cases "is_large c") (simp_all add: hook_perform_def set_allowed_def)
  then obtain s1 where 2: "hook_perform draw c s = Some s1" "hs_tracker s1 = t1" by blast
  from Cons.IH[of s1] Cons.prems(2) 1(2,3) 2 show ?case by simp
qed simp

text \<open>C10. The profiler and the profiled program agree on the live heap, through the hooks: for a
  program whose outermost calls allocate unused addresses and release what they allocated, whatever
  calls these make themselves, the hooks return, and as long as the tracker tracks deallocations and
  lost none of their events, the profiler's table built from the events has exactly the addresses
  that the tracker tracks.\<close>

theorem hooked_heap_agreement:
  assumes "tracking_start k (hs_tracker s)" "idle s" "\<forall>c\<in>set (outer_list True cs). call_ok k c"
    "program_ok Map.empty (outer_list True cs)" "\<forall>i. uo_locs (uo i) \<noteq> []"
  shows "\<exists>s'. exec_list draw cs s = Some s' \<and> idle s' \<and>
    (at_track_deallocations (hs_tracker s') \<and> no_lost_dealloc (at_history (hs_tracker s')) \<longrightarrow>
      (\<exists>la. live_run init_LiveAllocation (live_ops uo pos pid (at_history (hs_tracker s'))) = Some la \<and>
        (\<forall>a. a \<in> dom (map_of (ps_address_map (pid_stacks la pos pid))) \<longleftrightarrow> 0 < tracked_both (hs_tracker s') a)))"
proof -
  note start = tracking_startD[OF assms(1)]
  have "\<exists>heap. program_ok heap (outer_list True cs) \<and> program_inv uo pos pid heap (hs_tracker s)"
    using program_inv_start[OF assms(1,5)] assms(4) by blast
  from hook_run_invariant[where P = "\<lambda>t cs. \<exists>heap. program_ok heap cs \<and> program_inv uo pos pid heap t",
      OF program_inv_step[OF _ _ assms(5)] start(1) assms(3) this, of draw]
  obtain s' heap where r: "hook_run draw (outer_list True cs) s = Some s'" "program_inv uo pos pid heap (hs_tracker s')" by blast
  have "exec_list draw cs s = Some s'" using exec_outermost(2)[OF assms(2)] start(4) r(1) by simp
  then show ?thesis using program_inv_agreement[OF r(2)] hook_run_idle[OF r(1) assms(2)] by blast
qed

lemma ex_program_ok: "\<forall>c\<in>set (outer_list True ex_program). call_ok 9 c" "program_ok Map.empty (outer_list True ex_program)"
  using ex_env_ok by (simp_all add: ex_program_outer live_def empty_slot_def deleted_slot_def) (simp add: ex_env_def)

theorem hooked_heap_agreement_witness:
  "\<exists>s'. exec_list (\<lambda>g. (8, g)) ex_program ex_thread = Some s' \<and> idle s' \<and>
    (at_track_deallocations (hs_tracker s') \<and> no_lost_dealloc (at_history (hs_tracker s')) \<longrightarrow>
      (\<exists>la. live_run init_LiveAllocation (live_ops (\<lambda>i. stack_A) 0 1 (at_history (hs_tracker s'))) = Some la \<and>
        (\<forall>a. a \<in> dom (map_of (ps_address_map (pid_stacks la 0 1))) \<longleftrightarrow> 0 < tracked_both (hs_tracker s') a)))"
proof -
  have "tracking_start 9 (hs_tracker ex_thread)" using ex_tracker_start by (simp add: ex_thread_def)
  from hooked_heap_agreement[OF this ex_thread_idle ex_program_ok] show ?thesis by (simp add: stack_A_def)
qed

text \<open>
  What the hooks report for calls that fail: a failed \<^verbatim>\<open>realloc\<close>, which leaves the block in place,
  counts as the release of the block and an allocation of the null pointer; a failed \<^verbatim>\<open>mmap\<close>, whose
  result is not null, as an allocation; a failed \<^verbatim>\<open>munmap\<close> as a release; a product that overflows in
  \<^verbatim>\<open>calloc\<close> as the allocation of the product modulo the word size.
\<close>

lemma failed_calls_tracked:
  "p \<noteq> 0 \<Longrightarrow> n \<noteq> 0 \<Longrightarrow> outer d (Call (Realloc p n) env [] (Returned 0)) =
     [CallDealloc p False (he_dealloc env), CallAlloc 0 n False (he_alloc env)]"
  "outer d (Call (Mmap 0 n prot fl (-1) off) env [] (Returned (-1))) = [CallAlloc (-1) n True (he_alloc env)]"
  "outer True (Call (Munmap a n) env [] (Returned (-1))) = [CallDealloc a True (he_dealloc env)]"
  "outer d (Call (Calloc (2 ^ 32) (2 ^ 32 + 1)) env [] (Returned 0)) = [CallAlloc 0 (2 ^ 32) False (he_alloc env)]"
  by simp_all

end
