(* ===== verification/Elf_Override_Props.thy ===== *)
theory Elf_Override_Props
  imports Elf_Overrides
begin

text \<open>
  What the overrides achieve: after an update every entry of a registered function holds the address
  of its hook, and what goes wrong when a page cannot be made writable or when a library takes the
  place of another one. An example process shows that the hypotheses can hold.
\<close>

section \<open>Hooks in place\<close>

definition reloc_addr :: "DynamicInfo \<Rightarrow> ElfReloc \<Rightarrow> u64" where
  "reloc_addr di r = r_offset r + di_base_address di"

definition all_relocs :: "DynamicInfo \<Rightarrow> ElfReloc list" where
  "all_relocs di = di_rels di @ di_relas di @ di_jmprels di"

text \<open>The entry is that of a registered function whose original was found.\<close>

definition eligible :: "(string, SymbolOverrideInfo) umap \<Rightarrow> (u64 \<Rightarrow> u64) \<Rightarrow> DynamicInfo \<Rightarrow> ElfReloc \<Rightarrow> SymbolOverrideInfo \<Rightarrow> bool" where
  "eligible ovs refs di r ov \<longleftrightarrow> (\<exists>name. reloc_symname di r = Some name \<and> map_of ovs name = Some ov) \<and>
     reloc_addr di r \<noteq> oi_do_not_override_this_symbol ov \<and> refs (oi_ref_symbol ov) \<noteq> 0"

definition hooked :: "(string, SymbolOverrideInfo) umap \<Rightarrow> (u64 \<Rightarrow> u64) \<Rightarrow> DynamicInfo \<Rightarrow> ElfReloc set \<Rightarrow> memory \<Rightarrow> u64 set \<Rightarrow> bool" where
  "hooked ovs refs di rs m keys \<longleftrightarrow> (\<forall>r\<in>rs. \<forall>ov. eligible ovs refs di r ov \<longrightarrow> reloc_addr di r \<in> keys) \<and>
     (\<forall>a\<in>keys. \<exists>r\<in>rs. \<exists>ov. eligible ovs refs di r ov \<and> reloc_addr di r = a \<and> load64 m a = oi_new_symbol ov)"

lemma load64_write64_same: "load64 (write64 m a v) a = v"
proof -
  have "unat (of_nat i :: u64) = i" if "i < 8" for i using that by (intro unat_of_nat_u64) simp
  then have "map (\<lambda>i. write64 m a v (a + of_nat i)) [0..<8] = map (\<lambda>i. le_bytes 8 (unat v) ! i) [0..<8]"
    by (intro map_cong) (auto simp: write64_def word_less_nat_alt)
  also have "\<dots> = le_bytes 8 (unat v)" by (rule nth_equalityI) auto
  finally have "load64 (write64 m a v) a = of_nat (le_nat (le_bytes 8 (unat v)))" unfolding load64_def by (simp only:)
  also have "le_nat (le_bytes 8 (unat v)) = unat v" using u64_less[of v] by (simp add: le_nat_bytes)
  finally show ?thesis by simp
qed

lemma load64_frame: "separate {a} {b} \<Longrightarrow> a \<noteq> b \<Longrightarrow> load64 (write64 m a v) b = load64 m b"
  by (rule load64_cong) (auto simp: separate_def intro: write64_out)

lemma hooked_frame:
  assumes "hooked ovs refs di rs m keys" "\<And>a. a \<in> keys \<Longrightarrow> load64 m' a = load64 m a"
  shows "hooked ovs refs di rs m' keys"
  using assms unfolding hooked_def by metis

lemma process_append:
  "process_relocations ps mprotect ovs di (xs @ ys) s = Option.bind (process_relocations ps mprotect ovs di xs s) (process_relocations ps mprotect ovs di ys)"
proof (induction xs arbitrary: s)
  case (Cons r xs)
  then have "process_relocations ps mprotect ovs di (xs @ ys) =
      (\<lambda>s. Option.bind (process_relocations ps mprotect ovs di xs s) (process_relocations ps mprotect ovs di ys))" by (intro ext)
  then show ?case by (simp add: Option.bind_assoc)
qed simp

lemma process_hooked:
  assumes mp: "\<forall>a. mprotect a" and pg: "\<forall>a\<in>cells di. page_of ps (a + 7) = page_of ps a" and sep: "separate (cells di) (cells di)"
    and old: "lr_old_value_per_address ri = []" and rs: "set rs \<subseteq> set (all_relocs di)"
  shows "process_relocations ps mprotect ovs di rs (p, ri) = Some (p', ri') \<Longrightarrow>
    hooked ovs (pr_refs p) di (set rs) (pr_mem p') (fst ` set (lr_old_value_per_address ri')) \<and> umap_wf (lr_old_value_per_address ri') \<and>
    pr_refs p' = pr_refs p \<and> fst ` set (lr_old_value_per_address ri') \<subseteq> cells di \<and> (\<forall>x. (\<forall>a\<in>cells di. \<not> covers a x) \<longrightarrow> pr_mem p' x = pr_mem p x)"
  using rs
proof (induction rs arbitrary: p' ri' rule: rev_induct)
  case Nil
  then show ?case using old by (simp add: hooked_def)
next
  case (snoc r rs)
  let ?a = "reloc_addr di r"
  from snoc.prems(1) obtain p1 ri1 name where s1: "process_relocations ps mprotect ovs di rs (p, ri) = Some (p1, ri1)"
    and nm: "reloc_symname di r = Some name" and st: "override_reloc ps mprotect ovs name ?a (p1, ri1) = Some (p', ri')"
    by (auto simp: process_append bind_eq_Some_conv reloc_addr_def)
  let ?keys = "fst ` set (lr_old_value_per_address ri1)"
  from snoc.IH[OF s1] snoc.prems(2) have
    IH: "hooked ovs (pr_refs p) di (set rs) (pr_mem p1) ?keys" "umap_wf (lr_old_value_per_address ri1)" "pr_refs p1 = pr_refs p"
      "?keys \<subseteq> cells di" "\<forall>x. (\<forall>a\<in>cells di. \<not> covers a x) \<longrightarrow> pr_mem p1 x = pr_mem p x" by auto
  have ac: "?a \<in> cells di" using snoc.prems(2) by (auto simp: cells_def reloc_addr_def all_relocs_def)
  from st bspec[OF pg ac] mp show ?case
  proof (cases rule: override_reloc_cases)
    case kept
    then have "\<forall>ov. eligible ovs (pr_refs p) di r ov \<longrightarrow> ?a \<in> ?keys" using nm IH(3) by (auto simp: eligible_def)
    then have "hooked ovs (pr_refs p) di (set (rs @ [r])) (pr_mem p1) ?keys" using IH(1) unfolding hooked_def by fastforce
    then show ?thesis using IH kept(1) by simp
  next
    case (written ov q)
    have q: "p' = q" "lr_old_value_per_address ri' = AList.update ?a (load64 (pr_mem p1) ?a) (lr_old_value_per_address ri1)"
      using written(3) by auto
    have k: "fst ` set (lr_old_value_per_address ri') = insert ?a ?keys"
      using IH(2) written(2) unfolding q(2) by (auto simp: set_umap_update image_iff)
    have "load64 (pr_mem q) b = load64 (pr_mem p1) b" if "b \<in> ?keys" for b
    proof -
      have b: "b \<in> cells di" "?a \<noteq> b" using that IH(4) written(2) by blast+
      then have "separate {?a} {b}" using sep ac unfolding separate_def by blast
      then show ?thesis unfolding written(4) using b(2) by (rule load64_frame)
    qed
    from hooked_frame[OF IH(1) this] have h: "hooked ovs (pr_refs p) di (set rs) (pr_mem q) ?keys" .
    have e: "eligible ovs (pr_refs p) di r ov" using written(1,7,8) nm IH(3) by (auto simp: eligible_def)
    have l: "load64 (pr_mem q) ?a = oi_new_symbol ov" unfolding written(4) by (rule load64_write64_same)
    have "hooked ovs (pr_refs p) di (set (rs @ [r])) (pr_mem q) (insert ?a ?keys)"
      using h e l unfolding hooked_def by fastforce
    moreover have "umap_wf (lr_old_value_per_address ri')" using IH(2) unfolding q(2) by simp
    moreover have "\<forall>x. (\<forall>a\<in>cells di. \<not> covers a x) \<longrightarrow> pr_mem q x = pr_mem p x"
      using IH(5) ac unfolding written(4) by (simp add: write64_out)
    ultimately show ?thesis using IH(3,4) ac written(5) q(1) k by simp
  qed
qed

text \<open>The libraries \<open>D\<close> are those whose entries are hooked.\<close>

definition all_hooked :: "(string, SymbolOverrideInfo) umap \<Rightarrow> (u64 \<Rightarrow> u64) \<Rightarrow> (DynamicInfo \<times> string) set \<Rightarrow> memory \<Rightarrow>
    (u64, LibraryRevertInfo) umap \<Rightarrow> bool" where
  "all_hooked ovs refs D m rv \<longleftrightarrow> fst ` set rv = bases D \<and> (\<forall>c\<in>D. \<exists>ri. map_of rv (di_base_address (fst c)) = Some ri \<and>
     hooked ovs refs (fst c) (set (all_relocs (fst c))) m (fst ` set (lr_old_value_per_address ri)) \<and>
     fst ` set (lr_old_value_per_address ri) \<subseteq> cells (fst c))"

lemma load64_other_cells:
  assumes "a \<in> A" "A \<inter> B = {}" "separate A B" "\<And>x. \<forall>b\<in>B. \<not> covers b x \<Longrightarrow> m' x = m x"
  shows "load64 m' a = load64 m a"
proof (rule load64_cong)
  fix x assume "covers a x"
  have "\<not> covers b x" if "b \<in> B" for b
  proof -
    have "a \<noteq> b" using assms(1,2) that by auto
    then show ?thesis using assms(3)[unfolded separate_def, rule_format, OF assms(1) that] \<open>covers a x\<close> by simp
  qed
  then show "m' x = m x" using assms(4) by simp
qed

lemma apply_library_hooked:
  assumes mp: "\<forall>a. mprotect a" and C: "libs_separate ps C" "c \<in> C" "D \<subseteq> C" and nx: "\<not> excluded_library (snd c)"
    and h: "all_hooked (so_overrides so) (pr_refs p) D (pr_mem p) (so_revert_info_per_library so)"
    and run: "apply_overrides_to_library ps mprotect (fst c) (snd c) (p, so) = Some (p', so')"
  shows "all_hooked (so_overrides so) (pr_refs p) (insert c D) (pr_mem p') (so_revert_info_per_library so')"
proof -
  let ?b = "di_base_address (fst c)" and ?rv = "so_revert_info_per_library so"
  show ?thesis
  proof (cases "map_of ?rv ?b")
    case (Some ri)
    have "?b \<in> bases D" using h map_of_SomeD[OF Some] unfolding all_hooked_def by force
    then obtain c' where "c' \<in> D" "di_base_address (fst c') = ?b" by (auto simp: bases_def)
    then have cD: "c \<in> D" using libs_separateD(3)[OF C(1), of c' c] C(2,3) by blast
    have "p' = p" and so': "so_revert_info_per_library so' = AList.update ?b (ri\<lparr>lr_processed := True\<rparr>) ?rv"
      using run Some nx by (auto simp: apply_overrides_to_library_def)
    have keys: "fst ` set (so_revert_info_per_library so') = fst ` set ?rv"
      using Some unfolding so' dom_map_of_conv_image_fst[symmetric] by (auto simp: dom_def)
    have upd: "\<exists>ri'. map_of (so_revert_info_per_library so') b = Some ri' \<and> lr_old_value_per_address ri' = lr_old_value_per_address r"
      if "map_of ?rv b = Some r" for b r
      using that Some by (auto simp: so')
    have "\<exists>ri. map_of (so_revert_info_per_library so') (di_base_address (fst d)) = Some ri \<and>
        hooked (so_overrides so) (pr_refs p) (fst d) (set (all_relocs (fst d))) (pr_mem p') (fst ` set (lr_old_value_per_address ri)) \<and>
        fst ` set (lr_old_value_per_address ri) \<subseteq> cells (fst d)" if d: "d \<in> D" for d
    proof -
      from h d obtain r where r: "map_of ?rv (di_base_address (fst d)) = Some r"
        "hooked (so_overrides so) (pr_refs p) (fst d) (set (all_relocs (fst d))) (pr_mem p) (fst ` set (lr_old_value_per_address r))"
        "fst ` set (lr_old_value_per_address r) \<subseteq> cells (fst d)" unfolding all_hooked_def by blast
      from upd[OF r(1)] obtain ri' where "map_of (so_revert_info_per_library so') (di_base_address (fst d)) = Some ri'"
        "lr_old_value_per_address ri' = lr_old_value_per_address r" by blast
      then show ?thesis using r(2,3) \<open>p' = p\<close> by simp
    qed
    then show ?thesis unfolding all_hooked_def insert_absorb[OF cD] keys using h by (simp add: all_hooked_def)
  next
    case None
    let ?ri = "\<lparr>lr_library_name = snd c, lr_old_value_per_address = [], lr_processed = True\<rparr>"
    from run None nx obtain ri' where r: "process_relocations ps mprotect (so_overrides so) (fst c) (all_relocs (fst c)) (p, ?ri) = Some (p', ri')"
      and so': "so_revert_info_per_library so' = AList.update ?b ri' ?rv"
      by (auto simp: apply_overrides_to_library_def all_relocs_def)
    from process_hooked[OF mp libs_separateD(4)[OF C(1,2)] libs_separateD(1)[OF C(1,2,2)] _ _ r] have
      1: "hooked (so_overrides so) (pr_refs p) (fst c) (set (all_relocs (fst c))) (pr_mem p') (fst ` set (lr_old_value_per_address ri'))"
        "fst ` set (lr_old_value_per_address ri') \<subseteq> cells (fst c)" "\<And>x. \<forall>a\<in>cells (fst c). \<not> covers a x \<Longrightarrow> pr_mem p' x = pr_mem p x"
      by auto
    have keys: "fst ` set (so_revert_info_per_library so') = bases (insert c D)"
      using h unfolding so' dom_map_of_conv_image_fst[symmetric] all_hooked_def by (auto simp: dom_def bases_def)
    have other: "\<exists>ri. map_of (so_revert_info_per_library so') (di_base_address (fst d)) = Some ri \<and>
        hooked (so_overrides so) (pr_refs p) (fst d) (set (all_relocs (fst d))) (pr_mem p') (fst ` set (lr_old_value_per_address ri)) \<and>
        fst ` set (lr_old_value_per_address ri) \<subseteq> cells (fst d)" if d: "d \<in> D" for d
    proof -
      from h d obtain ri where ri: "map_of ?rv (di_base_address (fst d)) = Some ri"
        "hooked (so_overrides so) (pr_refs p) (fst d) (set (all_relocs (fst d))) (pr_mem p) (fst ` set (lr_old_value_per_address ri))"
        "fst ` set (lr_old_value_per_address ri) \<subseteq> cells (fst d)" unfolding all_hooked_def by blast
      have dC: "d \<in> C" using d C(3) by blast
      have dc: "d \<noteq> c"
      proof
        assume "d = c"
        then show False using ri(1) None by simp
      qed
      have "load64 (pr_mem p') a = load64 (pr_mem p) a" if "a \<in> fst ` set (lr_old_value_per_address ri)" for a
      proof -
        have "a \<in> cells (fst d)" using that ri(3) by blast
        then show ?thesis by (rule load64_other_cells[OF _ libs_separateD(2)[OF C(1) dC C(2) dc] libs_separateD(1)[OF C(1) dC C(2)] 1(3)])
      qed
      from hooked_frame[OF ri(2) this]
      have "hooked (so_overrides so) (pr_refs p) (fst d) (set (all_relocs (fst d))) (pr_mem p') (fst ` set (lr_old_value_per_address ri))" .
      moreover have "map_of (so_revert_info_per_library so') (di_base_address (fst d)) = Some ri" using ri(1) None by (auto simp: so')
      ultimately show ?thesis using ri(3) by blast
    qed
    show ?thesis unfolding all_hooked_def using keys other 1(1,2) by (simp add: so')
  qed
qed

lemma apply_libraries_hooked:
  assumes mp: "\<forall>a. mprotect a" and C: "libs_separate ps C"
  shows "set (considered view self is_exe libs) \<subseteq> C \<Longrightarrow> D \<subseteq> C \<Longrightarrow> override_inv ps m0 C (p, so) \<Longrightarrow>
    all_hooked (so_overrides so) (pr_refs p) D (pr_mem p) (so_revert_info_per_library so) \<Longrightarrow>
    apply_overrides_to_libraries ps mprotect view self is_exe libs (p, so) = Some (p', so') \<Longrightarrow>
    all_hooked (so_overrides so) (pr_refs p) (D \<union> set (considered view self is_exe libs)) (pr_mem p') (so_revert_info_per_library so')"
proof (induction libs arbitrary: is_exe p so D)
  case (Cons info libs)
  from Cons.prems(5) obtain di s where di: "retrieve_dynamic_info view self info (\<not> is_exe) = Some di"
    and s: "(case di of None \<Rightarrow> Some (p, so) | Some di \<Rightarrow> apply_overrides_to_library ps mprotect di (dlpi_name info) (p, so)) = Some s"
    and rest: "apply_overrides_to_libraries ps mprotect view self False libs s = Some (p', so')"
    by (auto simp: bind_eq_Some_conv)
  show ?case
  proof (cases "di = None \<or> excluded_library (dlpi_name info)")
    case True
    then have e: "s = (p, so)" "considered view self is_exe (info # libs) = considered view self False libs"
      using s di by (auto simp: apply_overrides_to_library_def split: option.splits)
    show ?thesis unfolding e(2) using Cons.IH[OF _ Cons.prems(2-4)] Cons.prems(1)[unfolded e(2)] rest[unfolded e(1)] by blast
  next
    case False
    then obtain d where d: "di = Some d" by auto
    let ?c = "(d, dlpi_name info)"
    have cs: "considered view self is_exe (info # libs) = ?c # considered view self False libs" using False d di by simp
    obtain p1 so1 where s1: "s = (p1, so1)" by (cases s)
    have cC: "?c \<in> C" "\<not> excluded_library (snd ?c)" "set (considered view self False libs) \<subseteq> C" "insert ?c D \<subseteq> C"
      using Cons.prems(1)[unfolded cs] Cons.prems(2) False by simp_all
    have run: "apply_overrides_to_library ps mprotect (fst ?c) (snd ?c) (p, so) = Some (p1, so1)" using s d s1 by simp
    from apply_library_inv[OF mp C cC(1) Cons.prems(3) cC(2) run]
    have 1: "override_inv ps m0 C (p1, so1)" "pr_refs p1 = pr_refs p" "so_overrides so1 = so_overrides so" by blast+
    have "all_hooked (so_overrides so1) (pr_refs p1) (insert ?c D) (pr_mem p1) (so_revert_info_per_library so1)"
      unfolding 1(2,3) by (rule apply_library_hooked[OF mp C cC(1) Cons.prems(2) cC(2) Cons.prems(4) run])
    from Cons.IH[OF cC(3,4) 1(1) this rest[unfolded s1]] show ?thesis unfolding 1(2,3) cs by simp
  qed
qed simp

lemma all_hookedD:
  assumes "all_hooked ovs refs D m rv" "c \<in> D"
  shows "\<exists>keys. hooked ovs refs (fst c) (set (all_relocs (fst c))) m keys"
  using assms unfolding all_hooked_def by blast


section \<open>An example process\<close>

definition ex_reloc :: ElfReloc where "ex_reloc = \<lparr>r_offset = 0x100, r_info = 0x100000007\<rparr>"

definition ex_view :: elf_view where
  "ex_view = \<lparr>ev_strings = \<lambda>a. ex_strtab, ev_symbols = \<lambda>a. ex_symtab, ev_relocs = \<lambda>a. [ex_reloc], ev_words = \<lambda>a. ex_gnu_table,
     ev_dynamic = \<lambda>a. [(5, 0x200), (10, 8), (6, 0x240), (0x6ffffef5, 0x280), (23, 0x2c0), (2, 24), (20, 7), (0, 0)]\<rparr>"

definition ex_lib :: dl_phdr_info where
  "ex_lib = \<lparr>dlpi_addr = 0x400000, dlpi_name = ''app'', dlpi_phdr = [\<lparr>p_type = 2, p_flags = 4, p_vaddr = 0x800, p_memsz = 0x80\<rparr>], dlpi_adds = 1\<rparr>"

definition ex_di :: DynamicInfo where
  "ex_di = \<lparr>di_strtab = ex_strtab, di_strtab_size = 8, di_symtab = ex_symtab, di_sym_count = 2, di_rels = [], di_relas = [],
     di_jmprels = [ex_reloc], di_elf_hash = None, di_gnu_hash = Some ex_gnu_table, di_base_address = 0x400000\<rparr>"

definition ex_so :: SymbolOverrides where
  "ex_so = fst (register_override so_init ''malloc'' 0x7000 0x8000 0)"

definition ex_proc :: proc where
  "ex_proc = \<lparr>pr_mem = \<lambda>a. 0, pr_writable = \<lambda>a. False, pr_refs = (\<lambda>a. 0)(0x8000 := 0x1000)\<rparr>"

lemma ex_symbol_count: "gnu_hash_symbol_count ex_gnu_table = Some 2"
proof -
  have "chain_end ex_gnu_table 6 1 = Some 1" by (subst chain_end.simps) (simp add: word_at_def ex_gnu_table_def)
  then show ?thesis by (simp add: gnu_hash_symbol_count_def word_at_def ex_gnu_table_def)
qed

lemma ex_retrieve: "retrieve_dynamic_info ex_view 0 ex_lib b = Some (Some ex_di)"
  by (simp add: retrieve_dynamic_info_def retrieve_dynamic_section_def ex_lib_def ex_view_def ex_di_def ex_symbol_count Let_def
    dyn_entry_def dyn_scan_init_def correct_address_def span_def PT_DYNAMIC_def PT_LOAD_def
    DT_NULL_def DT_STRTAB_def DT_STRSZ_def DT_SYMTAB_def DT_GNU_HASH_def DT_REL_def DT_RELA_def DT_JMPREL_def
    DT_RELSZ_def DT_RELASZ_def DT_PLTRELSZ_def DT_PLTREL_def)

lemma short_not_excluded: "length name < 9 \<Longrightarrow> \<not> excluded_library name"
proof -
  assume l: "length name < 9"
  have "take (length pat) (drop i name) \<noteq> pat" if "length pat \<ge> 9" for i and pat :: string
  proof
    assume "take (length pat) (drop i name) = pat"
    then have "length (take (length pat) (drop i name)) = length pat" by simp
    then show False using l that by simp
  qed
  from this[of "''linux-vdso''"] this[of "''/ld-linux''"] show ?thesis by (simp add: excluded_library_def contains_substr_def)
qed

lemma ex_considered: "considered ex_view 0 True [ex_lib] = [(ex_di, ''app'')]"
  using short_not_excluded[of "''app''"] by (simp add: ex_retrieve) (simp add: ex_lib_def)

lemma ex_symname: "reloc_symname ex_di ex_reloc = Some ''malloc''"
proof -
  have "elf64_r_sym (r_info ex_reloc) = 1" by (simp add: elf64_r_sym_def ex_reloc_def)
  then show ?thesis
    by (simp add: reloc_symname_def ex_di_def sym_at_def ex_symtab_def ex_malloc_def cstr_at_def ex_strtab_def)
qed

lemma ex_separate: "libs_separate 4096 (set [(ex_di, ''app'')])"
proof -
  have c: "cells ex_di = {0x400100}" by (simp add: cells_def ex_di_def ex_reloc_def)
  have "page_of 4096 (0x400100 + 7) = page_of 4096 0x400100" by (simp add: page_of_def)
  then show ?thesis by (simp add: libs_separate_def separate_def c)
qed

definition ex_proc1 :: proc where
  "ex_proc1 = ex_proc\<lparr>pr_mem := write64 (\<lambda>a. 0) 0x400100 0x7000, pr_writable := (\<lambda>a. False)(0x400000 := True)\<rparr>"

definition ex_so1 :: SymbolOverrides where
  "ex_so1 = ex_so\<lparr>so_nb_loaded_libs := 1, so_revert_info_per_library :=
     [(0x400000, \<lparr>lr_library_name = ''app'', lr_old_value_per_address = [(0x400100, 0)], lr_processed = True\<rparr>)]\<rparr>"

lemma ex_load: "load64 (\<lambda>a. 0) a = 0"
  by (simp add: load64_def le_nat_def upt_rec)

lemma ex_update: "so_update_overrides 4096 (\<lambda>a. True) ex_view 0 [ex_lib] (ex_proc, ex_so) = Some (ex_proc1, ex_so1)"
proof -
  have x: "\<not> excluded_library ''app''" by (rule short_not_excluded) simp
  have o: "so_overrides ex_so = [(''malloc'', \<lparr>oi_ref_symbol = 0x8000, oi_new_symbol = 0x7000, oi_do_not_override_this_symbol = 0\<rparr>)]"
    "so_revert_info_per_library ex_so = []" "so_nb_loaded_libs ex_so = -1"
    by (simp_all add: ex_so_def register_override_def so_init_def)
  have n: "dlpi_name ex_lib = ''app''" "count_loaded_libraries [ex_lib] = 1" by (simp_all add: ex_lib_def count_loaded_libraries_def)
  have d: "di_base_address ex_di = 0x400000" "di_rels ex_di @ di_relas ex_di @ di_jmprels ex_di = [ex_reloc]"
    "r_offset ex_reloc + 0x400000 = 0x400100" by (simp_all add: ex_di_def ex_reloc_def)
  have p: "page_of 4096 0x400100 = 0x400000" "page_of 4096 0x400107 = 0x400000" by (simp_all add: page_of_def)
  show ?thesis
    by (simp add: so_update_overrides_def unmark_def o n d x ex_retrieve ex_symname apply_overrides_to_library_def override_reloc_def
      override_entry_def store64_def Let_def p ex_load ex_proc_def ex_proc1_def ex_so1_def)
qed



section \<open>What goes wrong\<close>

text \<open>
  An entry whose page could not be made writable is recorded like the others, and writing it back
  faults.
\<close>

lemma restore_faults_on_readonly_page:
  "\<exists>s. so_update_overrides 4096 (\<lambda>a. False) ex_view 0 [ex_lib] (ex_proc, ex_so) = Some s \<and> so_restore_overrides 4096 [ex_lib] s = None"
proof -
  have x: "\<not> excluded_library ''app''" by (rule short_not_excluded) simp
  have o: "so_overrides ex_so = [(''malloc'', \<lparr>oi_ref_symbol = 0x8000, oi_new_symbol = 0x7000, oi_do_not_override_this_symbol = 0\<rparr>)]"
    "so_revert_info_per_library ex_so = []" "so_nb_loaded_libs ex_so = -1"
    by (simp_all add: ex_so_def register_override_def so_init_def)
  have n: "dlpi_name ex_lib = ''app''" "dlpi_addr ex_lib = 0x400000" "count_loaded_libraries [ex_lib] = 1"
    by (simp_all add: ex_lib_def count_loaded_libraries_def)
  have d: "di_base_address ex_di = 0x400000" "di_rels ex_di @ di_relas ex_di @ di_jmprels ex_di = [ex_reloc]"
    "r_offset ex_reloc + 0x400000 = 0x400100" by (simp_all add: ex_di_def ex_reloc_def)
  show ?thesis
    by (simp add: so_update_overrides_def unmark_def o n d x ex_retrieve ex_symname apply_overrides_to_library_def override_reloc_def
      override_entry_def store64_def Let_def ex_load ex_proc_def so_restore_overrides_def restore_library_overrides_def)
qed

text \<open>
  A library loaded at the address of one that was unloaded in between is taken for the old one: its
  entries are not overridden, and the entries of the old one are not written back.
\<close>

definition ex_other_lib :: dl_phdr_info where "ex_other_lib = ex_lib\<lparr>dlpi_name := ''plugin'', dlpi_adds := 2\<rparr>"

lemma retrieve_cong:
  "dlpi_addr i = dlpi_addr j \<Longrightarrow> dlpi_phdr i = dlpi_phdr j \<Longrightarrow> retrieve_dynamic_info view self i ex = retrieve_dynamic_info view self j ex"
  unfolding retrieve_dynamic_info_def by (simp only:)

lemma reused_base_not_overridden:
  "\<exists>so2. so_update_overrides 4096 (\<lambda>a. True) ex_view 0 [ex_other_lib] (ex_proc, ex_so1) = Some (ex_proc, so2) \<and>
   so_restore_overrides 4096 [ex_other_lib] (ex_proc, so2) = Some (ex_proc, so2\<lparr>so_revert_info_per_library := []\<rparr>) \<and>
   load64 (pr_mem ex_proc) (reloc_addr ex_di ex_reloc) \<noteq> 0x7000"
proof -
  have x: "\<not> excluded_library ''plugin''" by (rule short_not_excluded) simp
  have n: "dlpi_name ex_other_lib = ''plugin''" "dlpi_addr ex_other_lib = 0x400000" "count_loaded_libraries [ex_other_lib] = 2"
    by (simp_all add: ex_other_lib_def ex_lib_def count_loaded_libraries_def)
  have r: "retrieve_dynamic_info ex_view 0 ex_other_lib b = Some (Some ex_di)" for b
    using ex_retrieve[of b] retrieve_cong[of ex_other_lib ex_lib] by (simp add: ex_other_lib_def)
  have d: "di_base_address ex_di = 0x400000" by (simp add: ex_di_def)
  show ?thesis
    by (simp add: so_update_overrides_def unmark_def n d x r apply_overrides_to_library_def ex_so1_def ex_load ex_proc_def
      so_restore_overrides_def restore_library_overrides_def)
qed

end
