(* ===== verification/Hook_Lifecycle.thy ===== *)
theory Hook_Lifecycle
  imports Hook_Props Elf_Override_Props
begin

text \<open>
  The overrides from their setup to their removal, with the libraries that \<^verbatim>\<open>dlopen\<close> loads in between.
\<close>

section \<open>The guard and the table\<close>

lemma register_override_revert: "so_revert_info_per_library (fst (register_override so name a b c)) = so_revert_info_per_library so"
  by (simp add: register_override_def split: option.split)

lemma register_hooks_revert:
  assumes "register_hooks hook_of ref_of view self libs so = Some so'"
  shows "so_revert_info_per_library so' = so_revert_info_per_library so"
proof -
  have "so_revert_info_per_library (foldl (register_hook hook_of ref_of) so names) = so_revert_info_per_library so" for so names
    by (induction names arbitrary: so) (simp_all add: register_hook_def register_override_revert)
  then show ?thesis using assms by (auto simp: register_hooks_def bind_eq_Some_conv)
qed

lemma lookup_refs_mem: "lookup_refs view self libs ovs p = Some p' \<Longrightarrow> pr_mem p' = pr_mem p"
proof (induction ovs arbitrary: p)
  case (Cons ov ovs)
  obtain name o1 where "ov = (name, o1)" by (cases ov)
  then obtain sy obj p1 where "lookup_refs view self libs ovs p1 = Some p'" "pr_mem p1 = pr_mem p"
    using Cons.prems by (auto simp: bind_eq_Some_conv Let_def split: if_splits)
  then show ?case using Cons.IH by simp
qed simp

lemma with_guard_result:
  assumes "with_guard env f s = Some s'"
  shows "\<exists>h s1. f (s\<lparr>os_hooks := h\<rparr>) = Some s1 \<and> os_proc s' = os_proc s1 \<and> g_symbol_overrides s' = g_symbol_overrides s1"
  using assms by (auto simp: with_guard_def Let_def split: prod.splits) blast

lemma with_guard_returns:
  assumes "\<And>h. \<exists>s1. f (s\<lparr>os_hooks := h\<rparr>) = Some s1 \<and> Q (os_proc s1) (g_symbol_overrides s1)"
  shows "\<exists>s'. with_guard env f s = Some s' \<and> Q (os_proc s') (g_symbol_overrides s')"
  using assms[of "fst (MaybeReentryGuard env (os_hooks s))"] by (auto simp: with_guard_def Let_def case_prod_unfold)

section \<open>Loading libraries\<close>

text \<open>Libraries loaded one after the other through the hook of \<^verbatim>\<open>dlopen\<close>; each gives the loader's new list.\<close>

fun load_libraries :: "'g hook_env \<Rightarrow> override_os \<Rightarrow> dl_phdr_info list list \<Rightarrow> 'g override_state \<Rightarrow> 'g override_state option" where
  "load_libraries env os [] s = Some s"
| "load_libraries env os (L # Ls) s = do {
     (s, _) \<leftarrow> dlopen_hook env (\<lambda>_ _ s. Some (s, os\<lparr>oo_libs := L\<rparr>, 0)) [] 0 s;
     load_libraries env os Ls s
   }"

lemma load_libraries_updates:
  assumes "load_libraries env os Ls s = Some s'" "g_symbol_overrides s = Some so"
  shows "\<exists>so'. g_symbol_overrides s' = Some so' \<and>
    run_updates (oo_page_size os) (oo_mprotect os) (oo_view os) (oo_self_addr os) Ls (os_proc s, so) = Some (os_proc s', so')"
  using assms
proof (induction Ls arbitrary: s so)
  case (Cons L Ls)
  from Cons.prems(1) obtain s1 where u: "update_overrides env (os\<lparr>oo_libs := L\<rparr>) s = Some s1" "load_libraries env os Ls s1 = Some s'"
    by (auto simp: dlopen_hook_def bind_eq_Some_conv)
  from with_guard_result[OF u(1)[unfolded update_overrides_def]] Cons.prems(2) obtain so1 where
    "so_update_overrides (oo_page_size os) (oo_mprotect os) (oo_view os) (oo_self_addr os) L (os_proc s, so) = Some (os_proc s1, so1)"
    "g_symbol_overrides s1 = Some so1" by (auto simp: bind_eq_Some_conv)
  then show ?case using Cons.IH[OF u(2)] by simp
qed simp


text \<open>A process in which one library is loaded after the setup.\<close>

definition ex_os :: override_os where
  "ex_os = \<lparr>oo_page_size = 4096, oo_mprotect = \<lambda>_. True, oo_view = ex_view, oo_self_addr = 0, oo_libs = []\<rparr>"

definition ex_table :: SymbolOverrides where
  "ex_table = foldl (register_hook (\<lambda>_. 0x7000) (\<lambda>_. 0x8000)) so_init (c_hook_names @ cxx_hook_names @ other_hook_names)"

definition ex_state :: "unit override_state" where
  "ex_state = \<lparr>os_hooks = ex_thread, os_proc = ex_proc, g_symbol_overrides = None\<rparr>"

lemma register_keeps:
  "map_of (so_overrides so) name = Some ov \<Longrightarrow> map_of (so_overrides (foldl (register_hook f g) so names)) name = Some ov"
proof (induction names arbitrary: so)
  case (Cons n names)
  have "map_of (so_overrides (register_hook f g so n)) name = Some ov"
    using Cons.prems by (auto simp: register_hook_def register_override_def update_conv' split: option.split)
  then show ?case using Cons.IH by simp
qed simp

lemma register_libs: "so_nb_loaded_libs (foldl (register_hook f g) so names) = so_nb_loaded_libs so"
  by (induction names arbitrary: so) (auto simp: register_hook_def register_override_def split: option.split)

lemma ex_register: "register_hooks (\<lambda>_. 0x7000) (\<lambda>_. 0x8000) ex_view 0 [] so_init = Some ex_table"
  by (simp add: register_hooks_def instrument_cxx_allocators_def empty_symbol_def ex_table_def)

lemma ex_table_malloc: "map_of (so_overrides ex_table) ''malloc'' = Some \<lparr>oi_ref_symbol = 0x8000, oi_new_symbol = 0x7000, oi_do_not_override_this_symbol = 0\<rparr>"
proof -
  let ?so = "register_hook (\<lambda>_. 0x7000) (\<lambda>_. 0x8000) so_init ''malloc''"
  have "c_hook_names @ xs = ''malloc'' # tl c_hook_names @ xs" for xs by (simp add: c_hook_names_def)
  then have 1: "ex_table = foldl (register_hook (\<lambda>_. 0x7000) (\<lambda>_. 0x8000)) ?so (tl c_hook_names @ cxx_hook_names @ other_hook_names)"
    unfolding ex_table_def by (simp only: foldl_Cons)
  have 2: "map_of (so_overrides ?so) ''malloc'' = Some \<lparr>oi_ref_symbol = 0x8000, oi_new_symbol = 0x7000, oi_do_not_override_this_symbol = 0\<rparr>"
    by (simp add: register_hook_def register_override_def so_init_def)
  show ?thesis unfolding 1 by (rule register_keeps[OF 2])
qed

lemma ex_table_init: "so_revert_info_per_library ex_table = []" "so_nb_loaded_libs ex_table = -1"
  using register_hooks_revert[OF ex_register] by (simp_all add: so_init_def) (simp add: ex_table_def register_libs so_init_def)

lemma no_libs_refs: "lookup_refs view self [] ovs p = Some p"
  by (induction ovs) (auto simp: empty_symbol_def)

lemma ex_setup: "\<exists>h. setup_overrides (\<lambda>_. 0x7000) (\<lambda>_. 0x8000) ex_henv ex_os ex_state =
    Some \<lparr>os_hooks = h, os_proc = ex_proc, g_symbol_overrides = Some (ex_table\<lparr>so_nb_loaded_libs := 0\<rparr>)\<rparr>"
proof -
  have "apply_overrides 4096 (\<lambda>_. True) ex_view 0 [] (ex_proc, ex_table) = Some (ex_proc, ex_table\<lparr>so_nb_loaded_libs := 0\<rparr>)"
    using ex_table_init by (simp add: apply_overrides_def no_libs_refs so_update_overrides_def count_loaded_libraries_def unmark_def Let_def)
  then show ?thesis by (simp add: setup_overrides_def with_guard_def ex_state_def ex_os_def ex_register case_prod_unfold Let_def)
qed

lemma ex_load_lib: "\<exists>so2. so_update_overrides 4096 (\<lambda>a. True) ex_view 0 [ex_lib] (ex_proc, ex_table\<lparr>so_nb_loaded_libs := 0\<rparr>) = Some (ex_proc1, so2)"
proof -
  have x: "\<not> excluded_library ''app''" by (rule short_not_excluded) simp
  have n: "dlpi_name ex_lib = ''app''" "count_loaded_libraries [ex_lib] = 1" by (simp_all add: ex_lib_def count_loaded_libraries_def)
  have d: "di_base_address ex_di = 0x400000" "di_rels ex_di @ di_relas ex_di @ di_jmprels ex_di = [ex_reloc]"
    "r_offset ex_reloc + 0x400000 = 0x400100" by (simp_all add: ex_di_def ex_reloc_def)
  have p: "page_of 4096 0x400100 = 0x400000" "page_of 4096 0x400107 = 0x400000" by (simp_all add: page_of_def)
  show ?thesis
    by (simp add: so_update_overrides_def unmark_def ex_table_init ex_table_malloc n d x ex_retrieve ex_symname apply_overrides_to_library_def override_reloc_def
      override_entry_def store64_def Let_def p ex_load ex_proc_def ex_proc1_def)
qed


end
