(* ===== verification/Ring_Reader.thy ===== *)
theory Ring_Reader
  imports Perf_Ring Mpsc_Props "HOL-Library.Monad_Syntax"
begin

text \<open>
  The two kinds of ring as the main loop of the profiler sees them (\<^verbatim>\<open>src/src/perf_mainloop.cc\<close>): it
  reads events that stay in the ring while they wait to be processed, looks at them, and gives their
  space back, for the multi-producer ring in an order of its own.
\<close>

section \<open>The contract\<close>

text \<open>
  \<open>holds s F q\<close>: the events in \<open>F\<close>, with their handles, were read and not given back; those in \<open>q\<close> are
  still to be read, in this order. A ring may refuse to read while events are out (\<open>may\<close>).
\<close>

locale ring_reader =
  fixes holds :: "'s \<Rightarrow> ('h \<times> 'e) set \<Rightarrow> 'e list \<Rightarrow> bool"
    and may :: "'s \<Rightarrow> ('h \<times> 'e) set \<Rightarrow> bool"
    and get :: "'s \<Rightarrow> ('s \<times> 'h option) option"
    and look :: "'s \<Rightarrow> 'h \<Rightarrow> 'e option"
    and give_back :: "'s \<Rightarrow> 'h \<Rightarrow> 's option"
  assumes get_empty: "holds s F [] \<Longrightarrow> may s F \<Longrightarrow> \<exists>s'. get s = Some (s', None) \<and> holds s' F []"
    and get_some: "holds s F (e # q) \<Longrightarrow> may s F \<Longrightarrow>
      \<exists>s' h. get s = Some (s', Some h) \<and> h \<notin> fst ` F \<and> holds s' (insert (h, e) F) q"
    and look_law: "holds s F q \<Longrightarrow> (h, e) \<in> F \<Longrightarrow> look s h = Some e"
    and give_back_law: "holds s F q \<Longrightarrow> (h, e) \<in> F \<Longrightarrow> \<exists>s'. give_back s h = Some s' \<and> holds s' (F - {(h, e)}) q"
begin

lemma handles_unique: "holds s F q \<Longrightarrow> (h, e) \<in> F \<Longrightarrow> (h, e') \<in> F \<Longrightarrow> e = e'"
  using look_law[of s F q h e] look_law[of s F q h e'] by simp

text \<open>Processing at once: read an event, look at it, give it back.\<close>

lemma one_event:
  assumes "holds s {} (e # q)" "may s {}"
  shows "\<exists>s1 h s2. get s = Some (s1, Some h) \<and> look s1 h = Some e \<and> give_back s1 h = Some s2 \<and> holds s2 {} q"
proof -
  from get_some[OF assms] obtain s1 h where 1: "get s = Some (s1, Some h)" "holds s1 {(h, e)} q" by blast
  from give_back_law[OF 1(2)] 1 look_law[OF 1(2)] show ?thesis by auto
qed

end

section \<open>The multi-producer ring\<close>

text \<open>An event is its address; its bytes are the entry's, whose size is in the word before it.\<close>

definition mpsc_event_bytes :: "RingBuffer \<Rightarrow> u64 \<Rightarrow> u8 list option" where
  "mpsc_event_bytes rb event = do {
     sz \<leftarrow> load_hdr rb (event - 8);
     rb_load rb (unat event) (unat (get_size sz))
   }"

definition mpsc_holds :: "nat \<Rightarrow> RingBuffer \<Rightarrow> (u64 \<times> u8 list) set \<Rightarrow> u8 list list \<Rightarrow> bool" where
  "mpsc_holds k rb F q \<longleftrightarrow> (\<exists>b log a c D Ts. ring_inv k rb b log a c D \<and> (\<forall>e\<in>set log. fst e = Committed) \<and>
     Ts \<subseteq> {a..<c} - D \<and> F = (\<lambda>T. (fst (lbuf (rb_mask rb) b log T), snd (log ! T))) ` Ts \<and> q = committed (drop c log))"

lemma mpsc_holdsI:
  "ring_inv k rb b log a c D \<Longrightarrow> \<forall>e\<in>set log. fst e = Committed \<Longrightarrow> Ts \<subseteq> {a..<c} - D \<Longrightarrow>
   mpsc_holds k rb ((\<lambda>T. (fst (lbuf (rb_mask rb) b log T), snd (log ! T))) ` Ts) (committed (drop c log))"
  unfolding mpsc_holds_def by blast

lemma lbuf_inj:
  assumes inv: "ring_inv k rb b log a c D" and T: "a \<le> T" "T < length log" "a \<le> T'" "T' < length log"
    and eq: "fst (lbuf (rb_mask rb) b log T) = fst (lbuf (rb_mask rb) b log T')"
  shows "T = T'"
proof -
  have wf: "rb_wf k rb" using inv by (simp add: ring_inv_def)
  have m: "lpos b log T mod 2 ^ k = lpos b log T' mod 2 ^ k" using lbuf_offset(1)[OF wf, of b log] eq by (metis add_right_cancel)
  have no: False if "x < y" "a \<le> x" "y < length log" "lpos b log x mod 2 ^ k = lpos b log y mod 2 ^ k" for x y
  proof -
    have "lpos b log (Suc x) \<le> lpos b log y" using that(1) by (intro lpos_mono) simp
    then have l: "lpos b log x < lpos b log y" using that lpos_Suc[of x log b] espace_bounds(1)[of "log ! x"] by simp
    have "lpos b log y \<le> lpos b log (length log)" "lpos b log a \<le> lpos b log x" using that by (simp_all add: lpos_mono)
    moreover have "lpos b log (length log) - lpos b log a < 2 ^ k" using inv by (simp add: ring_inv_def)
    ultimately have d: "lpos b log y - lpos b log x < 2 ^ k" by linarith
    have "2 ^ k dvd lpos b log y - lpos b log x" using that(4) l by (metis mod_eq_dvd_iff_nat less_imp_le)
    then show False using d l by (auto dest: dvd_imp_le)
  qed
  show ?thesis using no[of T T'] no[of T' T] m T by (metis linorder_neqE_nat)
qed

lemma mpsc_look:
  assumes "mpsc_holds k rb F q" "(h, e) \<in> F"
  shows "mpsc_event_bytes rb h = Some e"
proof -
  from assms obtain b log a c D Ts T where ring: "ring_inv k rb b log a c D" and com: "\<forall>e\<in>set log. fst e = Committed"
    and Ts: "Ts \<subseteq> {a..<c} - D" and T: "T \<in> Ts" "h = fst (lbuf (rb_mask rb) b log T)" "e = snd (log ! T)"
    unfolding mpsc_holds_def by auto
  have t: "a \<le> T" "T \<notin> D" "T < length log" using Ts T(1) ring by (auto simp: ring_inv_def)
  have wf: "rb_wf k rb" and al: "8 dvd lpos b log T" using ring by (auto simp: ring_inv_def lpos_aligned)
  have en: "load_u64 (rb_data rb) (lpos b log T) = hdr_word Committed (length e)" "length e < 2 ^ 62"
    using ring_inv_entry[OF ring t(1,3,2)] com t(3) T(3) by (auto simp: entry_at_def)
  have "get_size (hdr_word Committed (length e)) = of_nat (length e)" using hdr_word_flags(3)[OF en(2), of Committed] by (simp add: get_size_def)
  moreover have "load_hdr rb (h - 8) = Some (hdr_word Committed (length e))"
    using lbuf_offset(2)[OF wf, of b log T] load_hdr_pos[OF wf al] en(1) T(2) by simp
  moreover have "rb_load rb (unat h) (unat (of_nat (length e) :: u64)) = Some e"
    using lbuf_load[OF ring t(1,3,2)] T(2,3) by (simp add: lbuf_def)
  ultimately show ?thesis by (simp add: mpsc_event_bytes_def)
qed

lemma mpsc_get:
  assumes "mpsc_holds k rb F q"
  shows "case q of [] \<Rightarrow> \<exists>rb'. mpsc_rb_read_event rb = Some (rb', None) \<and> mpsc_holds k rb' F [] \<and> rb_type rb' = rb_type rb
    | e # q' \<Rightarrow> \<exists>rb' h. mpsc_rb_read_event rb = Some (rb', Some h) \<and> h \<notin> fst ` F \<and> mpsc_holds k rb' (insert (h, e) F) q' \<and>
        rb_type rb' = rb_type rb"
proof -
  from assms obtain b log a c D Ts where ring: "ring_inv k rb b log a c D" and com: "\<forall>e\<in>set log. fst e = Committed"
    and Ts: "Ts \<subseteq> {a..<c} - D" and F: "F = (\<lambda>T. (fst (lbuf (rb_mask rb) b log T), snd (log ! T))) ` Ts" and q: "q = committed (drop c log)"
    unfolding mpsc_holds_def by auto
  have h: "c \<le> length log" "a \<le> c" "rb_writer_pos rb = of_nat (lpos b log (length log))" using ring by (auto simp: ring_inv_def)
  have st: "fst (log ! j) = Committed" if "j < length log" for j using com that by simp
  from read_sample_log[OF ring h(1) order_refl] obtain m where m: "c + m \<le> length log"
    "\<forall>j. c \<le> j \<and> j < c + m \<longrightarrow> fst (log ! j) = Discarded" and
    r: "c + m < length log \<and> fst (log ! (c + m)) = Committed \<and>
       mpsc_rb_read_sample rb = Some (rb\<lparr>rb_intermediate_reader_pos := of_nat (lpos b log (Suc (c + m)))\<rparr>, Some (lbuf (rb_mask rb) b log (c + m))) \<or>
     (c + m = length log \<or> fst (log ! (c + m)) = Busy) \<and>
       mpsc_rb_read_sample rb = Some (rb\<lparr>rb_intermediate_reader_pos := of_nat (lpos b log (c + m))\<rparr>, None)"
    unfolding mpsc_rb_read_sample_def h(3) by blast
  have m0: "m = 0"
  proof (rule ccontr)
    assume "m \<noteq> 0"
    then have "fst (log ! c) = Discarded" "c < length log" using m by auto
    then show False using st by simp
  qed
  show ?thesis
  proof (cases "c < length log")
    case True
    let ?rb = "rb\<lparr>rb_intermediate_reader_pos := of_nat (lpos b log (Suc c))\<rparr>" and ?h = "fst (lbuf (rb_mask rb) b log c)"
    have rd: "mpsc_rb_read_event rb = Some (?rb, Some ?h)" using r m0 True st[of c] by (auto simp: mpsc_rb_read_event_def)
    have ring': "ring_inv k ?rb b log a (Suc c) D" using True st by (intro ring_inv_read[OF ring]) auto
    have qc: "q = snd (log ! c) # committed (drop (Suc c) log)" unfolding q using True st[OF True] by (simp add: committed_def flip: Cons_nth_drop_Suc)
    have "c \<notin> D" using ring by (auto simp: ring_inv_def)
    then have "mpsc_holds k ?rb ((\<lambda>T. (fst (lbuf (rb_mask ?rb) b log T), snd (log ! T))) ` (insert c Ts)) (committed (drop (Suc c) log))"
      using Ts h by (intro mpsc_holdsI[OF ring' com]) auto
    then have "mpsc_holds k ?rb (insert (?h, snd (log ! c)) F) (committed (drop (Suc c) log))" by (simp add: F)
    moreover have "?h \<notin> fst ` F"
    proof
      assume "?h \<in> fst ` F"
      then obtain T where T: "T \<in> Ts" "?h = fst (lbuf (rb_mask rb) b log T)" by (auto simp: F)
      then have "c = T" using Ts h True by (intro lbuf_inj[OF ring]) auto
      then show False using T(1) Ts by auto
    qed
    ultimately show ?thesis using rd qc by auto
  next
    case False
    let ?rb = "rb\<lparr>rb_intermediate_reader_pos := of_nat (lpos b log c)\<rparr>"
    have "mpsc_rb_read_event rb = Some (?rb, None)" "q = []" using r m0 False h(1) q by (auto simp: mpsc_rb_read_event_def committed_def)
    moreover have "ring_inv k ?rb b log a c D" using h(1) by (intro ring_inv_read[OF ring]) auto
    from mpsc_holdsI[OF this com Ts] have "mpsc_holds k ?rb F []" using \<open>q = []\<close> by (simp add: F q)
    ultimately show ?thesis by simp
  qed
qed

lemma mpsc_give_back:
  assumes "mpsc_holds k rb F q" "(h, e) \<in> F"
  shows "\<exists>rb'. mpsc_rb_advance_if_possible rb h = Some rb' \<and> mpsc_holds k rb' (F - {(h, e)}) q"
proof -
  from assms obtain b log a c D Ts T where ring: "ring_inv k rb b log a c D" and com: "\<forall>e\<in>set log. fst e = Committed"
    and Ts: "Ts \<subseteq> {a..<c} - D" and F: "F = (\<lambda>T. (fst (lbuf (rb_mask rb) b log T), snd (log ! T))) ` Ts" and q: "q = committed (drop c log)"
    and T: "T \<in> Ts" "h = fst (lbuf (rb_mask rb) b log T)" "e = snd (log ! T)"
    unfolding mpsc_holds_def by auto
  have t: "a \<le> T" "T < c" "T \<notin> D" "T < length log" using Ts T(1) ring by (auto simp: ring_inv_def)
  from release_log[OF ring _ t(1-3)] com t(4) T(2) obtain rb' a' D' where
    r: "mpsc_rb_advance_if_possible rb h = Some rb'" "ring_inv k rb' b log a' c D'" "rb_mask rb' = rb_mask rb"
      "{a..<c} - insert T D \<subseteq> {a'..<c} - D'" by auto
  have len: "a \<le> x \<and> x < length log" if "x \<in> Ts" for x using that Ts ring by (auto simp: ring_inv_def)
  have "inj_on (\<lambda>T. (fst (lbuf (rb_mask rb) b log T), snd (log ! T))) Ts"
    by (rule inj_onI) (use lbuf_inj[OF ring] len in auto)
  then have "F - {(h, e)} = (\<lambda>T. (fst (lbuf (rb_mask rb) b log T), snd (log ! T))) ` (Ts - {T})"
    using T by (simp add: F inj_on_image_set_diff[of _ Ts Ts "{T}"])
  moreover have "Ts - {T} \<subseteq> {a'..<c} - D'" using Ts r(4) by auto
  ultimately show ?thesis using mpsc_holdsI[OF r(2) com, of "Ts - {T}"] r(1,3) q by auto
qed

section \<open>The perf ring\<close>

text \<open>At most one event is out; its handle is the event itself, which stays in place or in the copy.\<close>

definition perf_holds :: "nat \<Rightarrow> RingBuffer \<Rightarrow> (u8 list \<times> u8 list) set \<Rightarrow> u8 list list \<Rightarrow> bool" where
  "perf_holds k rb F q \<longleftrightarrow> (\<exists>r i w. perf_at k rb r i w \<and> events_at (rb_data rb) i q w \<and>
     (F = {} \<and> r = i \<or> (\<exists>e. F = {(e, e)} \<and> r < i)))"

lemma perf_holds_inflight:
  assumes "perf_holds k rb F q"
  shows "perf_rb_has_inflight_events rb \<longleftrightarrow> F \<noteq> {}"
proof -
  from assms obtain r i w where at: "perf_at k rb r i w" and F: "F = {} \<and> r = i \<or> (\<exists>e. F = {(e, e)} \<and> r < i)"
    unfolding perf_holds_def by blast
  have k: "(2::nat) ^ k \<le> 2 ^ 62" using at rb_wfD(8)[of k rb] by (simp add: perf_at_def)
  have "(of_nat r :: u64) \<noteq> of_nat i" if "r < i" using that at k by (intro pos_neq) (auto simp: perf_at_def)
  then show ?thesis using at F by (auto simp: perf_rb_has_inflight_events_def perf_at_def)
qed

lemma perf_get:
  assumes "perf_holds k rb {} q"
  shows "case q of [] \<Rightarrow> perf_rb_read_event True rb = Some (rb, None)
    | e # q' \<Rightarrow> \<exists>rb'. perf_rb_read_event True rb = Some (rb', Some e) \<and> perf_holds k rb' {(e, e)} q' \<and> rb_type rb' = rb_type rb"
proof -
  from assms obtain i w where at: "perf_at k rb i i w" and ev: "events_at (rb_data rb) i q w" unfolding perf_holds_def by auto
  show ?thesis
  proof (cases q)
    case Nil
    then show ?thesis using at ev by (auto simp: perf_at_def perf_rb_read_event_def)
  next
    case (Cons e q')
    then have le: "i + stride (length e) \<le> w" and ok: "event_ok e" using ev events_at_le by auto
    from perf_rb_read_event_cases[OF at ev[unfolded Cons], of True] obtain c n where
      read: "perf_rb_read_event True rb = Some (rb\<lparr>rb_intermediate_reader_pos := of_nat (i + stride (length e)),
         rb_wrap_copy := c, rb_wrap_copy_capacity := n\<rparr>, Some e)"
        (is "_ = Some (?rb, _)") and c: "\<forall>b. c = Some b \<longrightarrow> length b = unat n" by auto
    have "perf_at k ?rb i (i + stride (length e)) w" "events_at (rb_data ?rb) (i + stride (length e)) q' w"
      using at ev Cons c le by (auto simp: perf_at_def rb_wf_wrap_copy)
    moreover have "i < i + stride (length e)" using stride_ge[of "length e"] ok by (simp add: event_ok_def)
    ultimately have "perf_holds k ?rb {(e, e)} q'" unfolding perf_holds_def by blast
    then show ?thesis using read Cons by auto
  qed
qed

lemma perf_give_back:
  assumes "perf_holds k rb F q"
  shows "perf_holds k (perf_rb_advance rb) {} q"
proof -
  from assms obtain r i w where "perf_at k rb r i w" "events_at (rb_data rb) i q w" unfolding perf_holds_def by blast
  then have "perf_at k (perf_rb_advance rb) i i w \<and> events_at (rb_data (perf_rb_advance rb)) i q w"
    by (auto simp: perf_at_def perf_rb_advance_def)
  then show ?thesis unfolding perf_holds_def by blast
qed

section \<open>Both kinds\<close>

datatype event_ref = InPerf "u8 list" | InMpsc u64

definition next_event :: "bool \<Rightarrow> RingBuffer \<Rightarrow> (RingBuffer \<times> event_ref option) option" where
  "next_event alloc rb = (if rb_type rb = kPerfRingBuffer then map_option (apsnd (map_option InPerf)) (perf_rb_read_event alloc rb)
     else map_option (apsnd (map_option InMpsc)) (mpsc_rb_read_event rb))"

fun event_bytes :: "RingBuffer \<Rightarrow> event_ref \<Rightarrow> u8 list option" where
  "event_bytes rb (InPerf bytes) = Some bytes"
| "event_bytes rb (InMpsc event) = mpsc_event_bytes rb event"

fun release_event :: "RingBuffer \<Rightarrow> event_ref \<Rightarrow> RingBuffer option" where
  "release_event rb (InPerf bytes) = Some (perf_rb_advance rb)"
| "release_event rb (InMpsc event) = mpsc_rb_advance_if_possible rb event"

definition ring_holds :: "nat \<Rightarrow> RingBuffer \<Rightarrow> (event_ref \<times> u8 list) set \<Rightarrow> u8 list list \<Rightarrow> bool" where
  "ring_holds k rb F q \<longleftrightarrow> (if rb_type rb = kPerfRingBuffer then \<exists>G. F = map_prod InPerf id ` G \<and> perf_holds k rb G q
     else \<exists>G. F = map_prod InMpsc id ` G \<and> mpsc_holds k rb G q)"

definition may_read :: "RingBuffer \<Rightarrow> (event_ref \<times> u8 list) set \<Rightarrow> bool" where
  "may_read rb F \<longleftrightarrow> rb_type rb = kPerfRingBuffer \<longrightarrow> F = {}"

lemma advance_type: "mpsc_rb_advance_if_possible rb h = Some rb' \<Longrightarrow> rb_type rb' = rb_type rb"
  by (auto simp: mpsc_rb_advance_if_possible_def store_hdr_def rb_store_def split: option.splits if_splits)

lemma ring_get:
  assumes "ring_holds k rb F q" "may_read rb F"
  shows "case q of [] \<Rightarrow> \<exists>rb'. next_event True rb = Some (rb', None) \<and> ring_holds k rb' F [] \<and> rb_type rb' = rb_type rb
    | e # q' \<Rightarrow> \<exists>rb' h. next_event True rb = Some (rb', Some h) \<and> h \<notin> fst ` F \<and> ring_holds k rb' (insert (h, e) F) q' \<and>
        rb_type rb' = rb_type rb"
proof (cases "rb_type rb = kPerfRingBuffer")
  case True
  then have p: "F = {}" "perf_holds k rb {} q" using assms by (auto simp: ring_holds_def may_read_def)
  show ?thesis
  proof (cases q)
    case Nil
    then show ?thesis using perf_get[OF p(2)] True assms p by (auto simp: next_event_def)
  next
    case (Cons e q')
    with perf_get[OF p(2)] obtain rb' where r: "perf_rb_read_event True rb = Some (rb', Some e)" "perf_holds k rb' {(e, e)} q'" "rb_type rb' = rb_type rb" by auto
    then have "ring_holds k rb' {(InPerf e, e)} q'" using True unfolding ring_holds_def by (auto intro!: exI[of _ "{(e, e)}"])
    then show ?thesis using r True Cons p by (auto simp: next_event_def)
  qed
next
  case False
  then obtain G where G: "F = map_prod InMpsc id ` G" "mpsc_holds k rb G q" using assms by (auto simp: ring_holds_def)
  show ?thesis
  proof (cases q)
    case Nil
    with mpsc_get[OF G(2)] obtain rb' where "mpsc_rb_read_event rb = Some (rb', None)" "mpsc_holds k rb' G []" "rb_type rb' = rb_type rb" by auto
    then show ?thesis using Nil False G(1) by (auto simp: next_event_def ring_holds_def)
  next
    case (Cons e q')
    with mpsc_get[OF G(2)] obtain rb' h where r: "mpsc_rb_read_event rb = Some (rb', Some h)" "h \<notin> fst ` G" "mpsc_holds k rb' (insert (h, e) G) q'" "rb_type rb' = rb_type rb" by auto
    then have "ring_holds k rb' (insert (InMpsc h, e) F) q'" using False unfolding ring_holds_def G(1) by (auto intro!: exI[of _ "insert (h, e) G"])
    moreover have "InMpsc h \<notin> fst ` F" using r(2) by (force simp: G(1))
    ultimately show ?thesis using r Cons False by (auto simp: next_event_def)
  qed
qed

lemma ring_give_back:
  assumes "ring_holds k rb F q" "(h, e) \<in> F"
  shows "\<exists>rb'. release_event rb h = Some rb' \<and> ring_holds k rb' (F - {(h, e)}) q \<and> rb_type rb' = rb_type rb"
proof (cases "rb_type rb = kPerfRingBuffer")
  case True
  then obtain G where G: "F = map_prod InPerf id ` G" "perf_holds k rb G q" using assms by (auto simp: ring_holds_def)
  then have "F = {(h, e)}" "\<exists>b. h = InPerf b" using assms(2) by (auto simp: perf_holds_def)
  then show ?thesis using perf_give_back[OF G(2)] True by (auto simp: ring_holds_def perf_rb_advance_def)
next
  case False
  then obtain G where G: "F = map_prod InMpsc id ` G" "mpsc_holds k rb G q" using assms by (auto simp: ring_holds_def)
  then obtain a where a: "h = InMpsc a" "(a, e) \<in> G" using assms(2) by auto
  from mpsc_give_back[OF G(2) a(2)] obtain rb' where r: "mpsc_rb_advance_if_possible rb a = Some rb'" "mpsc_holds k rb' (G - {(a, e)}) q" by blast
  have "F - {(h, e)} = map_prod InMpsc id ` (G - {(a, e)})" using a by (auto simp: G(1))
  then show ?thesis using r advance_type[OF r(1)] False a(1) by (auto simp: ring_holds_def)
qed

interpretation ring: ring_reader "ring_holds k" may_read "next_event True" event_bytes release_event for k
proof unfold_locales
  fix rb F e q h
  show "ring_holds k rb F [] \<Longrightarrow> may_read rb F \<Longrightarrow> \<exists>rb'. next_event True rb = Some (rb', None) \<and> ring_holds k rb' F []"
    using ring_get[of k rb F "[]"] by auto
  show "ring_holds k rb F (e # q) \<Longrightarrow> may_read rb F \<Longrightarrow>
      \<exists>rb' h. next_event True rb = Some (rb', Some h) \<and> h \<notin> fst ` F \<and> ring_holds k rb' (insert (h, e) F) q"
    using ring_get[of k rb F "e # q"] by auto
  show "ring_holds k rb F q \<Longrightarrow> (h, e) \<in> F \<Longrightarrow> event_bytes rb h = Some e"
    using mpsc_look by (auto simp: ring_holds_def perf_holds_def split: if_splits)
  show "ring_holds k rb F q \<Longrightarrow> (h, e) \<in> F \<Longrightarrow> \<exists>rb'. release_event rb h = Some rb' \<and> ring_holds k rb' (F - {(h, e)}) q"
    using ring_give_back[of k rb F q h e] by auto
qed

end
