(* ===== verification/Main_Loop.thy ===== *)
theory Main_Loop
  imports Ring_Reader Alloc_Tracker
begin

text \<open>
  The main loop of the profiler (\<^verbatim>\<open>src/src/perf_mainloop.cc\<close>): it reads the events of all rings and hands
  them to the worker, in the order of their time stamps or ring by ring. The worker is an argument:
  it gets the bytes of an event and the watcher of its ring. The clock, the requests to stop and the
  answers of \<^verbatim>\<open>poll\<close> are arguments. \<^term>\<open>None\<close> is an access outside a ring or a loop that does not end.
\<close>

section \<open>Events waiting to be processed\<close>

record PEvent =
  pv_rb :: RingBuffer
  pv_watcher_pos :: nat
  pv_custom_event :: bool

record EventWrapper =
  ew_event :: event_ref
  ew_timestamp :: int
  ew_buffer_idx :: nat

text \<open>
  The priority queue as the list of its elements in the order in which they come out. The standard
  leaves the order of equal elements open; here the one pushed first comes first. An element that
  is not smaller than the top does not displace it.
\<close>

fun queue_push :: "EventWrapper \<Rightarrow> EventWrapper list \<Rightarrow> EventWrapper list" where
  "queue_push e [] = [e]"
| "queue_push e (x # q) = (if ew_timestamp e < ew_timestamp x then e # x # q else x # queue_push e q)"

definition kMaxSampleLatency :: int where "kMaxSampleLatency = 50 * 1000"

definition k_sample_default_wakeup :: int where "k_sample_default_wakeup = 100 * 1000000"

definition event_time :: "u64 \<Rightarrow> RingBuffer \<Rightarrow> event_ref \<Rightarrow> int option" where
  "event_time sample_type rb event = do {
     bytes \<leftarrow> event_bytes rb event;
     t \<leftarrow> hdr_time bytes sample_type;
     Some (sint t)
   }"

type_synonym 'c worker = "u8 list \<Rightarrow> nat \<Rightarrow> 'c \<Rightarrow> ('c \<times> DDRes) option"

section \<open>In the order of time\<close>

text \<open>The read phase; the result has the number of events that were queued.\<close>

partial_function (option) mpsc_enqueue :: "u64 \<Rightarrow> int \<Rightarrow> nat \<Rightarrow> RingBuffer \<Rightarrow> EventWrapper list \<Rightarrow> nat \<Rightarrow>
    (RingBuffer \<times> EventWrapper list \<times> nat) option" where
  "mpsc_enqueue sample_type max_timestamp i rb q n = (case next_event True rb of
     None \<Rightarrow> None
   | Some (rb, None) \<Rightarrow> Some (rb, q, n)
   | Some (rb, Some event) \<Rightarrow> do {
       timestamp \<leftarrow> event_time sample_type rb event;
       let q = queue_push \<lparr>ew_event = event, ew_timestamp = timestamp, ew_buffer_idx = i\<rparr> q;
       if max_timestamp < timestamp then Some (rb, q, n + 1)
       else mpsc_enqueue sample_type max_timestamp i rb q (n + 1)
     })"

definition perf_enqueue :: "bool \<Rightarrow> u64 \<Rightarrow> nat \<Rightarrow> RingBuffer \<Rightarrow> EventWrapper list \<Rightarrow> (RingBuffer \<times> EventWrapper list \<times> nat) option" where
  "perf_enqueue alloc sample_type i rb q = (case next_event alloc rb of
     None \<Rightarrow> None
   | Some (rb, None) \<Rightarrow> Some (rb, q, 0)
   | Some (rb, Some event) \<Rightarrow> do {
       timestamp \<leftarrow> event_time sample_type rb event;
       Some (rb, queue_push \<lparr>ew_event = event, ew_timestamp = timestamp, ew_buffer_idx = i\<rparr> q, 1)
     })"

definition read_ring :: "bool \<Rightarrow> (nat \<Rightarrow> u64) \<Rightarrow> int \<Rightarrow> nat \<Rightarrow> PEvent \<Rightarrow> EventWrapper list \<Rightarrow> (PEvent \<times> EventWrapper list \<times> nat) option" where
  "read_ring alloc sample_type max_timestamp i pe q = map_option (\<lambda>(rb, q, n). (pe\<lparr>pv_rb := rb\<rparr>, q, n))
     (if rb_type (pv_rb pe) = kPerfRingBuffer
      then if perf_rb_has_inflight_events (pv_rb pe) then Some (pv_rb pe, q, 0)
           else perf_enqueue alloc (sample_type (pv_watcher_pos pe)) i (pv_rb pe) q
      else mpsc_enqueue (sample_type (pv_watcher_pos pe)) max_timestamp i (pv_rb pe) q 0)"

fun read_rings :: "bool \<Rightarrow> (nat \<Rightarrow> u64) \<Rightarrow> int \<Rightarrow> nat \<Rightarrow> PEvent list \<Rightarrow> EventWrapper list \<Rightarrow> (PEvent list \<times> EventWrapper list \<times> nat) option" where
  "read_rings alloc sample_type max_timestamp i [] q = Some ([], q, 0)"
| "read_rings alloc sample_type max_timestamp i (pe # pes) q = do {
     (pe, q, n) \<leftarrow> read_ring alloc sample_type max_timestamp i pe q;
     (pes, q, m) \<leftarrow> read_rings alloc sample_type max_timestamp (i + 1) pes q;
     Some (pe # pes, q, n + m)
   }"

text \<open>
  The processing phase: how it ends. The next event of a perf ring is pushed before the processed
  one is popped, so it is the front of the queue after the push that leaves it.
\<close>

datatype phase_end = Emptied | TooRecent | Failed DDRes

definition after_event :: "bool \<Rightarrow> (nat \<Rightarrow> u64) \<Rightarrow> PEvent \<Rightarrow> EventWrapper \<Rightarrow> EventWrapper list \<Rightarrow> (PEvent \<times> EventWrapper list) option" where
  "after_event alloc sample_type pe evt q = do {
     rb \<leftarrow> release_event (pv_rb pe) (ew_event evt);
     (if rb_type rb = kPerfRingBuffer
      then map_option (\<lambda>(rb, q, _). (pe\<lparr>pv_rb := rb\<rparr>, q)) (perf_enqueue alloc (sample_type (pv_watcher_pos pe)) (ew_buffer_idx evt) rb q)
      else Some (pe\<lparr>pv_rb := rb\<rparr>, q))
   }"

partial_function (option) process_queue :: "'c worker \<Rightarrow> bool \<Rightarrow> (nat \<Rightarrow> u64) \<Rightarrow> int \<Rightarrow> PEvent list \<Rightarrow> EventWrapper list \<Rightarrow> 'c \<Rightarrow>
    (PEvent list \<times> EventWrapper list \<times> 'c \<times> phase_end) option" where
  "process_queue process_event alloc sample_type max_timestamp pes q ctx = (case q of
     [] \<Rightarrow> Some (pes, [], ctx, Emptied)
   | evt # _ \<Rightarrow>
       if max_timestamp < ew_timestamp evt then Some (pes, q, ctx, TooRecent)
       else if length pes \<le> ew_buffer_idx evt then None
       else do {
         let pe = pes ! ew_buffer_idx evt;
         bytes \<leftarrow> event_bytes (pv_rb pe) (ew_event evt);
         (ctx, res) \<leftarrow> process_event bytes (pv_watcher_pos pe) ctx;
         if \<not> IsDDResOK res then Some (pes, q, ctx, Failed res)
         else do {
           (pe, q) \<leftarrow> after_event alloc sample_type pe evt q;
           process_queue process_event alloc sample_type max_timestamp (pes[ew_buffer_idx evt := pe]) (tl q) ctx
         }
       })"

text \<open>\<open>ticks\<close>: for each turn, whether a stop was requested and the clock.\<close>

fun ordered_turns :: "'c worker \<Rightarrow> bool \<Rightarrow> (nat \<Rightarrow> u64) \<Rightarrow> bool \<Rightarrow> int \<Rightarrow> (bool \<times> int) list \<Rightarrow> PEvent list \<Rightarrow> EventWrapper list \<Rightarrow> 'c \<Rightarrow>
    (PEvent list \<times> EventWrapper list \<times> 'c \<times> DDRes) option" where
  "ordered_turns process_event alloc sample_type drain_all deadline [] pes q ctx = None"
| "ordered_turns process_event alloc sample_type drain_all deadline ((termination_requested, now) # ticks) pes q ctx = (
     if termination_requested \<or> deadline < now then Some (pes, q, ctx, ddres_init)
     else do {
       let max_timestamp = (if drain_all then time_point_max else now - kMaxSampleLatency);
       (pes, q, new_events) \<leftarrow> read_rings alloc sample_type max_timestamp 0 pes q;
       (pes, q, ctx, fin) \<leftarrow> process_queue process_event alloc sample_type max_timestamp pes q ctx;
       (case fin of
          TooRecent \<Rightarrow> Some (pes, q, ctx, ddres_init)
        | Failed res \<Rightarrow> Some (pes, q, ctx, res)
        | Emptied \<Rightarrow> if new_events = 0 then Some (pes, q, ctx, ddres_init)
                     else ordered_turns process_event alloc sample_type drain_all deadline ticks pes q ctx)
     })"

definition worker_process_ring_buffers_ordered :: "'c worker \<Rightarrow> bool \<Rightarrow> (nat \<Rightarrow> u64) \<Rightarrow> bool \<Rightarrow> (bool \<times> int) list \<Rightarrow> PEvent list \<Rightarrow>
    EventWrapper list \<Rightarrow> 'c \<Rightarrow> (PEvent list \<times> EventWrapper list \<times> 'c \<times> DDRes) option" where
  "worker_process_ring_buffers_ordered process_event alloc sample_type drain_all ticks pes q ctx =
     ordered_turns process_event alloc sample_type drain_all
       (if drain_all then time_point_max else (case ticks of [] \<Rightarrow> 0 | (_, now) # _ \<Rightarrow> now) + k_sample_default_wakeup) ticks pes q ctx"

end
