(* ===== verification/Worker_Loop.thy ===== *)
theory Worker_Loop
  imports Main_Loop
begin

text \<open>
  The loop of the worker process and the process that starts workers (\<^verbatim>\<open>src/src/perf_mainloop.cc\<close>): reading
  ring by ring, waiting for events, exporting, the end. What the worker does with an event, with the
  time and at the end are arguments, as are the answers of \<^verbatim>\<open>poll\<close> and \<^verbatim>\<open>fork\<close>, the requests to stop and
  the clocks. When the answers run out the result is \<^term>\<open>None\<close>.
\<close>

section \<open>Ring by ring\<close>

text \<open>
  The events in what was read from a perf ring. A header or an event that is cut off is an access
  outside the buffer; an event of size 0 makes the loop run forever.
\<close>

partial_function (option) process_buffer :: "'c worker \<Rightarrow> nat \<Rightarrow> RingBuffer \<Rightarrow> u8 list \<Rightarrow> 'c \<Rightarrow> (RingBuffer \<times> 'c \<times> DDRes) option" where
  "process_buffer process_event watcher_pos rb buffer ctx = (
     if buffer = [] then Some (rb, ctx, ddres_init)
     else if length buffer < max 8 (hdr_size buffer) then None
     else do {
       (ctx, res) \<leftarrow> process_event (take (max 8 (hdr_size buffer)) buffer) watcher_pos ctx;
       if \<not> IsDDResOK res then Some (rb, ctx, res)
       else process_buffer process_event watcher_pos (pr_advance_by rb (of_nat (hdr_size buffer))) (drop (hdr_size buffer) buffer) ctx
     })"

partial_function (option) process_samples :: "'c worker \<Rightarrow> nat \<Rightarrow> MPSCRingBufferReader \<Rightarrow> bool \<Rightarrow> RingBuffer \<Rightarrow> 'c \<Rightarrow>
    (RingBuffer \<times> 'c \<times> bool \<times> DDRes) option" where
  "process_samples process_event watcher_pos reader events rb ctx = (case mr_read_sample rb reader of
     None \<Rightarrow> None
   | Some (rb, None) \<Rightarrow> Some (rb, ctx, events, ddres_init)
   | Some (rb, Some (offset, n)) \<Rightarrow>
       if n = 0 then Some (rb, ctx, events, ddres_init)
       else do {
         bytes \<leftarrow> rb_load rb (unat offset) (unat n);
         (ctx, res) \<leftarrow> process_event bytes watcher_pos ctx;
         if \<not> IsDDResOK res then Some (rb, ctx, True, res)
         else process_samples process_event watcher_pos reader True (mr_advance rb) ctx
       })"

text \<open>One ring; the destructor of the reader gives back what was read, also after an error.\<close>

definition ring_pass :: "'c worker \<Rightarrow> bool \<Rightarrow> PEvent \<Rightarrow> 'c \<Rightarrow> (PEvent \<times> 'c \<times> bool \<times> DDRes) option" where
  "ring_pass process_event alloc pe ctx = (
     let rb = pv_rb pe in
     if rb_type rb = kPerfRingBuffer then do {
       (rb, buffer) \<leftarrow> pr_read_all_available alloc rb (pr_init rb);
       let buffer = (case buffer of None \<Rightarrow> [] | Some b \<Rightarrow> b);
       (rb, ctx, res) \<leftarrow> process_buffer process_event (pv_watcher_pos pe) rb buffer ctx;
       Some (pe\<lparr>pv_rb := pr_destroy rb\<rparr>, ctx, buffer \<noteq> [], res)
     } else do {
       (rb, ctx, events, res) \<leftarrow> process_samples process_event (pv_watcher_pos pe) (mr_init rb) False rb ctx;
       Some (pe\<lparr>pv_rb := mr_destroy rb\<rparr>, ctx, events, res)
     })"

fun rings_pass :: "'c worker \<Rightarrow> bool \<Rightarrow> PEvent list \<Rightarrow> 'c \<Rightarrow> (PEvent list \<times> 'c \<times> bool \<times> DDRes) option" where
  "rings_pass process_event alloc [] ctx = Some ([], ctx, False, ddres_init)"
| "rings_pass process_event alloc (pe # pes) ctx = do {
     (pe, ctx, events, res) \<leftarrow> ring_pass process_event alloc pe ctx;
     if \<not> IsDDResOK res then Some (pe # pes, ctx, events, res)
     else do {
       (pes, ctx, events', res) \<leftarrow> rings_pass process_event alloc pes ctx;
       Some (pe # pes, ctx, events \<or> events', res)
     }
   }"

text \<open>The clock before the loop and after each pass; the result has the last time and whether the loop ran out of time.\<close>

fun unordered_turns :: "'c worker \<Rightarrow> bool \<Rightarrow> int \<Rightarrow> int list \<Rightarrow> PEvent list \<Rightarrow> 'c \<Rightarrow> (PEvent list \<times> 'c \<times> (int \<times> bool) option \<times> DDRes) option" where
  "unordered_turns process_event alloc loop_start [] pes ctx = None"
| "unordered_turns process_event alloc loop_start (now # clock) pes ctx = do {
     (pes, ctx, events, res) \<leftarrow> rings_pass process_event alloc pes ctx;
     if \<not> IsDDResOK res then Some (pes, ctx, None, res)
     else if events \<and> now - loop_start < k_sample_default_wakeup then unordered_turns process_event alloc loop_start clock pes ctx
     else Some (pes, ctx, Some (now, events \<and> k_sample_default_wakeup \<le> now - loop_start), ddres_init)
   }"

definition worker_process_ring_buffers :: "'c worker \<Rightarrow> bool \<Rightarrow> int list \<Rightarrow> PEvent list \<Rightarrow> 'c \<Rightarrow>
    (PEvent list \<times> 'c \<times> (int \<times> bool) option \<times> DDRes) option" where
  "worker_process_ring_buffers process_event alloc clock pes ctx =
     (case clock of [] \<Rightarrow> None | loop_start # clock \<Rightarrow> unordered_turns process_event alloc loop_start clock pes ctx)"

section \<open>The loop of the worker\<close>

record 'c worker_attr =
  wa_init_fun :: "'c \<Rightarrow> 'c \<times> DDRes"
  wa_finish_fun :: "'c \<Rightarrow> 'c"
  wa_backpopulate :: "'c \<Rightarrow> 'c"
  wa_process_event :: "'c worker"
  wa_maybe_export :: "'c \<Rightarrow> int \<Rightarrow> 'c \<times> DDRes"
  wa_worker_cycle :: "'c \<Rightarrow> 'c \<times> DDRes"
  wa_restart_worker :: "'c \<Rightarrow> bool"

record loop_params =
  lp_pid :: int
  lp_backpopulate_pid_upon_start :: bool
  lp_profile_seq :: nat
  lp_reorder_events :: bool
  lp_sample_type :: "nat \<Rightarrow> u64"
  lp_alloc :: bool

text \<open>For each ring: \<^verbatim>\<open>POLLHUP\<close>, \<^verbatim>\<open>POLLIN\<close>, and whether reading its \<^verbatim>\<open>eventfd\<close> works.\<close>

datatype poll_result = PollInterrupted | PollFailed | PollOk "(bool \<times> bool \<times> bool) list"

record loop_tick =
  lt_termination_requested :: bool
  lt_poll :: poll_result
  lt_ordered :: "(bool \<times> int) list"
  lt_clock :: "int list"
  lt_now :: int

fun check_fds :: "bool \<Rightarrow> bool \<Rightarrow> PEvent list \<Rightarrow> (bool \<times> bool \<times> bool) list \<Rightarrow> bool \<times> DDRes" where
  "check_fds skip_poll stop (pe # pes) ((hup, pollin, readable) # revents) = (
     if hup then check_fds skip_poll True pes revents
     else if \<not> skip_poll \<and> pollin \<and> pv_custom_event pe \<and> \<not> readable then (stop, ddres_error DD_WHAT_PERFRB)
     else check_fds skip_poll stop pes revents)"
| "check_fds skip_poll stop _ _ = (stop, ddres_init)"

record 'c loop_state =
  ls_pes :: "PEvent list"
  ls_event_queue :: "EventWrapper list"
  ls_skip_poll :: bool
  ls_revents :: "(bool \<times> bool \<times> bool) list"
  ls_ctx :: 'c

text \<open>
  The part of a turn after \<^verbatim>\<open>poll\<close> and the file descriptors: the events and the export. A result that is
  not fatal is only logged. When reading ring by ring ends early the time is not set; \<^verbatim>\<open>now\<close> is then
  the epoch of the clock.
\<close>

definition process_rings :: "'c worker_attr \<Rightarrow> loop_params \<Rightarrow> loop_tick \<Rightarrow> bool \<Rightarrow> 'c loop_state \<Rightarrow> ('c loop_state \<times> int \<times> DDRes) option" where
  "process_rings attr params tick stop s = (
     if lp_reorder_events params then do {
       (pes, q, ctx, res) \<leftarrow> worker_process_ring_buffers_ordered (wa_process_event attr) (lp_alloc params) (lp_sample_type params) stop
                              (lt_ordered tick) (ls_pes s) (ls_event_queue s) (ls_ctx s);
       Some (s\<lparr>ls_pes := pes, ls_event_queue := q, ls_ctx := ctx\<rparr>, lt_now tick, res)
     } else do {
       (pes, ctx, fin, res) \<leftarrow> worker_process_ring_buffers (wa_process_event attr) (lp_alloc params) (lt_clock tick) (ls_pes s) (ls_ctx s);
       (case fin of
          None \<Rightarrow> Some (s\<lparr>ls_pes := pes, ls_ctx := ctx\<rparr>, 0, res)
        | Some (now, timeout) \<Rightarrow> Some (s\<lparr>ls_pes := pes, ls_ctx := ctx, ls_skip_poll := timeout\<rparr>, now, res))
     })"

fun poll_loop :: "'c worker_attr \<Rightarrow> loop_params \<Rightarrow> loop_tick list \<Rightarrow> 'c loop_state \<Rightarrow> ('c loop_state \<times> DDRes) option" where
  "poll_loop attr params [] s = None"
| "poll_loop attr params (tick # ticks) s = (
     let finish = (\<lambda>s. let (ctx, res) = wa_worker_cycle attr (ls_ctx s)
                       in Some (s\<lparr>ls_ctx := ctx\<rparr>, if IsDDResFatal res then res else ddres_init)) in
     if lt_termination_requested tick then finish s
     else if \<not> ls_skip_poll s \<and> lt_poll tick = PollInterrupted then poll_loop attr params ticks s
     else if \<not> ls_skip_poll s \<and> lt_poll tick = PollFailed then Some (s, ddres_error DD_WHAT_POLLERROR)
     else
       let s = (case lt_poll tick of PollOk revents \<Rightarrow> if ls_skip_poll s then s else s\<lparr>ls_revents := revents\<rparr> | _ \<Rightarrow> s);
           (stop, res) = check_fds (ls_skip_poll s) False (ls_pes s) (ls_revents s) in
       if IsDDResFatal res then Some (s, res)
       else do {
         (s, now, res) \<leftarrow> process_rings attr params tick stop s;
         if IsDDResFatal res then Some (s, res)
         else
           let (ctx, res) = wa_maybe_export attr (ls_ctx s) now;
               s = s\<lparr>ls_ctx := ctx\<rparr> in
           if IsDDResFatal res then Some (s, res)
           else if wa_restart_worker attr ctx then Some (s, ddres_init)
           else if stop then finish s
           else poll_loop attr params ticks s
       })"

definition worker_loop :: "'c worker_attr \<Rightarrow> loop_params \<Rightarrow> loop_tick list \<Rightarrow> PEvent list \<Rightarrow> 'c \<Rightarrow> ('c loop_state \<times> DDRes) option" where
  "worker_loop attr params ticks pes ctx = (
     let (ctx, res) = wa_init_fun attr ctx;
         s = \<lparr>ls_pes = pes, ls_event_queue = [], ls_skip_poll = False, ls_revents = [], ls_ctx = ctx\<rparr> in
     if IsDDResFatal res then Some (s\<lparr>ls_ctx := wa_finish_fun attr ctx\<rparr>, res)
     else
       let ctx = (if 0 < lp_pid params \<and> lp_backpopulate_pid_upon_start params \<and> lp_profile_seq params = 0 then wa_backpopulate attr ctx else ctx) in
       map_option (\<lambda>(s, res). (s\<lparr>ls_ctx := wa_finish_fun attr (ls_ctx s)\<rparr>, res)) (poll_loop attr params ticks (s\<lparr>ls_ctx := ctx\<rparr>)))"

section \<open>Processes\<close>

record PersistentWorkerState =
  pws_restart_worker :: bool
  pws_errors :: bool

definition worker_exit :: "DDRes \<Rightarrow> bool \<Rightarrow> PersistentWorkerState" where
  "worker_exit res restart_worker = \<lparr>pws_restart_worker = restart_worker, pws_errors = IsDDResFatal res\<rparr>"

text \<open>
  The process that starts workers. For each turn: whether a stop was requested, whether \<^verbatim>\<open>fork\<close>
  returned in the child, and the state the child left. A child that is killed leaves the state it had
  set at its start: no restart, an error.
\<close>

definition worker_start :: PersistentWorkerState where
  "worker_start = \<lparr>pws_restart_worker = False, pws_errors = True\<rparr>"

fun spawn_workers :: "(bool \<times> bool \<times> PersistentWorkerState) list \<Rightarrow> (bool \<times> DDRes) option" where
  "spawn_workers [] = None"
| "spawn_workers ((termination_requested, child, harvest) # turns) = (
     if termination_requested then Some (False, ddres_init)
     else if child then Some (True, ddres_init)
     else if \<not> pws_restart_worker harvest
     then if pws_errors harvest then Some (False, ddres_warn DD_WHAT_MAINLOOP) else Some (False, ddres_init)
     else spawn_workers turns)"

end
