(* ===== verification/Main_Loop_Props.thy ===== *)
theory Main_Loop_Props
  imports Main_Loop
begin

text \<open>
  The ordered main loop when it drains the rings: everything is processed, once, in the order of
  time.
\<close>

section \<open>The queue and what it stands for\<close>

text \<open>A queued event is its ring, its handle and its bytes; \<open>T\<close> gives the time of an event of a ring.\<close>

type_synonym queued = "nat \<times> event_ref \<times> u8 list"

definition wrap :: "(nat \<Rightarrow> u8 list \<Rightarrow> int) \<Rightarrow> queued \<Rightarrow> EventWrapper" where
  "wrap T x = \<lparr>ew_event = fst (snd x), ew_timestamp = T (fst x) (snd (snd x)), ew_buffer_idx = fst x\<rparr>"

lemma wrap_sel [simp]:
  "ew_event (wrap T (i, h, e)) = h" "ew_timestamp (wrap T (i, h, e)) = T i e" "ew_buffer_idx (wrap T (i, h, e)) = i"
  by (simp_all add: wrap_def)

fun push :: "(nat \<Rightarrow> u8 list \<Rightarrow> int) \<Rightarrow> queued \<Rightarrow> queued list \<Rightarrow> queued list" where
  "push T x [] = [x]"
| "push T x (y # Q) = (if ew_timestamp (wrap T x) < ew_timestamp (wrap T y) then x # y # Q else y # push T x Q)"

lemma queue_push_wrap: "queue_push (wrap T x) (map (wrap T) Q) = map (wrap T) (push T x Q)"
  by (induction Q) auto

lemma mset_push [simp]: "mset (push T x Q) = add_mset x (mset Q)"
  by (induction Q) auto

lemma set_push [simp]: "set (push T x Q) = insert x (set Q)"
  by (induction Q) auto

lemma distinct_push [simp]: "distinct (push T x Q) \<longleftrightarrow> x \<notin> set Q \<and> distinct Q"
  by (induction Q) auto

abbreviation in_order :: "(nat \<Rightarrow> u8 list \<Rightarrow> int) \<Rightarrow> queued list \<Rightarrow> bool" where
  "in_order T Q \<equiv> sorted (map (\<lambda>x. ew_timestamp (wrap T x)) Q)"

lemma sorted_push: "in_order T Q \<Longrightarrow> in_order T (push T x Q)"
  by (induction Q) (auto simp: less_imp_le)

definition out :: "queued list \<Rightarrow> nat \<Rightarrow> (event_ref \<times> u8 list) set" where
  "out Q i = {he. (i, he) \<in> set Q}"

definition for_ring :: "nat \<Rightarrow> queued list \<Rightarrow> queued list" where
  "for_ring i Q = filter (\<lambda>x. fst x = i) Q"

lemma for_ring_simps [simp]: "for_ring i [] = []" "for_ring i (x # Q) = (if fst x = i then x # for_ring i Q else for_ring i Q)"
  by (simp_all add: for_ring_def)

lemma for_ring_push: "j \<noteq> fst x \<Longrightarrow> for_ring j (push T x Q) = for_ring j Q"
  by (induction Q) auto

lemma out_for_ring: "out Q i = snd ` set (for_ring i Q)"
  by (force simp: out_def for_ring_def)

lemma for_ring_new: "out Q (fst x) = {} \<Longrightarrow> for_ring (fst x) Q = [] \<and> for_ring (fst x) (push T x Q) = [x]"
proof (induction Q)
  case (Cons y Q)
  then show ?case by (cases "fst y = fst x") (auto simp: out_for_ring)
qed simp

text \<open>The rings with the events that are out and the events \<open>U i\<close> still to be read.\<close>

definition rings_ok :: "(nat \<Rightarrow> nat) \<Rightarrow> PEvent list \<Rightarrow> (nat \<Rightarrow> u8 list list) \<Rightarrow> queued list \<Rightarrow> bool" where
  "rings_ok k pes U Q \<longleftrightarrow> (\<forall>i<length pes. ring_holds (k i) (pv_rb (pes ! i)) (out Q i) (U i)) \<and> distinct Q \<and> fst ` set Q \<subseteq> {..<length pes}"

definition same_rings :: "PEvent list \<Rightarrow> PEvent list \<Rightarrow> bool" where
  "same_rings pes pes' \<longleftrightarrow> map (\<lambda>pe. (pv_watcher_pos pe, rb_type (pv_rb pe))) pes' = map (\<lambda>pe. (pv_watcher_pos pe, rb_type (pv_rb pe))) pes"

definition is_perf :: "PEvent list \<Rightarrow> nat \<Rightarrow> bool" where
  "is_perf pes i \<longleftrightarrow> rb_type (pv_rb (pes ! i)) = kPerfRingBuffer"

lemma same_ringsD:
  assumes "same_rings pes pes'"
  shows "length pes' = length pes" "i < length pes \<Longrightarrow> pv_watcher_pos (pes' ! i) = pv_watcher_pos (pes ! i)" "i < length pes \<Longrightarrow> is_perf pes' i = is_perf pes i"
proof -
  show l: "length pes' = length pes" using assms unfolding same_rings_def by (metis length_map)
  show "pv_watcher_pos (pes' ! i) = pv_watcher_pos (pes ! i)" "is_perf pes' i = is_perf pes i" if "i < length pes"
    using assms that l unfolding same_rings_def list_eq_iff_nth_eq by (auto simp: is_perf_def)
qed

lemma same_rings_refl [simp]: "same_rings pes pes"
  by (simp add: same_rings_def)

lemma same_rings_trans: "same_rings a b \<Longrightarrow> same_rings b c \<Longrightarrow> same_rings a c"
  by (simp add: same_rings_def)

lemma same_rings_update:
  "i < length pes \<Longrightarrow> rb_type rb = rb_type (pv_rb (pes ! i)) \<Longrightarrow> same_rings pes (pes[i := (pes ! i)\<lparr>pv_rb := rb\<rparr>])"
  by (auto simp: same_rings_def list_eq_iff_nth_eq nth_list_update)

text \<open>The time stamps; \<open>M i\<close> is the sample type of the watcher of ring \<open>i\<close>.\<close>

definition ev_time :: "(nat \<Rightarrow> u64) \<Rightarrow> nat \<Rightarrow> u8 list \<Rightarrow> int" where
  "ev_time M i e = sint (the (hdr_time e (M i)))"

definition timed :: "(nat \<Rightarrow> u64) \<Rightarrow> nat \<Rightarrow> u8 list \<Rightarrow> bool" where
  "timed M i e \<longleftrightarrow> hdr_time e (M i) \<noteq> None"

lemma ev_time_le: "ev_time M i e \<le> time_point_max"
  using sint_lt[of "the (hdr_time e (M i))"] by (simp add: ev_time_def time_point_max_def)

lemma event_time_eq:
  "event_bytes rb h = Some e \<Longrightarrow> timed M i e \<Longrightarrow> event_time (M i) rb h = Some (ev_time M i e)"
  by (auto simp: event_time_def timed_def ev_time_def)

section \<open>Reading\<close>

lemma perf_enqueue_ok:
  assumes "ring_holds k rb {} us" "rb_type rb = kPerfRingBuffer" "\<forall>e\<in>set us. timed M i e"
  shows "\<exists>rb'. rb_type rb' = rb_type rb \<and> (case us of
      [] \<Rightarrow> perf_enqueue True (M i) i rb q = Some (rb', q, 0) \<and> ring_holds k rb' {} []
    | e # us' \<Rightarrow> \<exists>h. perf_enqueue True (M i) i rb q = Some (rb', queue_push (wrap (ev_time M) (i, h, e)) q, 1) \<and>
        ring_holds k rb' {(h, e)} us')"
proof -
  have "may_read rb {}" by (simp add: may_read_def)
  note g = ring_get[OF assms(1) this]
  show ?thesis
  proof (cases us)
    case Nil
    with g show ?thesis by (auto simp: perf_enqueue_def)
  next
    case (Cons e us')
    with g obtain rb' h where r: "next_event True rb = Some (rb', Some h)" "ring_holds k rb' {(h, e)} us'" "rb_type rb' = rb_type rb" by auto
    have "event_bytes rb' h = Some e" using ring.look_law[OF r(2)] by simp
    then have "event_time (M i) rb' h = Some (ev_time M i e)" using assms(3) Cons by (intro event_time_eq) auto
    then show ?thesis using r Cons by (auto simp: perf_enqueue_def wrap_def)
  qed
qed

lemma mpsc_enqueue_ok:
  assumes "ring_holds k rb (out Q i) us" "rb_type rb \<noteq> kPerfRingBuffer" "\<forall>e\<in>set us. timed M i e" "in_order (ev_time M) Q" "distinct Q"
  shows "\<exists>rb' Q'. mpsc_enqueue (M i) time_point_max i rb (map (wrap (ev_time M)) Q) n =
      Some (rb', map (wrap (ev_time M)) Q', n + length us) \<and> rb_type rb' = rb_type rb \<and> ring_holds k rb' (out Q' i) [] \<and>
    in_order (ev_time M) Q' \<and> distinct Q' \<and> (\<forall>j. j \<noteq> i \<longrightarrow> for_ring j Q' = for_ring j Q) \<and> fst ` set Q' \<subseteq> insert i (fst ` set Q) \<and>
    image_mset (\<lambda>(i, h, e). (i, e)) (mset Q') = image_mset (\<lambda>(i, h, e). (i, e)) (mset Q) + mset (map (Pair i) us)"
  using assms
proof (induction us arbitrary: rb Q n)
  case Nil
  have "may_read rb (out Q i)" using Nil.prems(2) by (simp add: may_read_def)
  from ring_get[OF Nil.prems(1) this] obtain rb' where "next_event True rb = Some (rb', None)" "ring_holds k rb' (out Q i) []" "rb_type rb' = rb_type rb" by auto
  then show ?case using Nil.prems by (intro exI[of _ rb'] exI[of _ Q]) (subst mpsc_enqueue.simps, auto)
next
  case (Cons e us)
  let ?T = "ev_time M"
  have "may_read rb (out Q i)" using Cons.prems(2) by (simp add: may_read_def)
  from ring_get[OF Cons.prems(1) this] obtain rb1 h where r: "next_event True rb = Some (rb1, Some h)" "h \<notin> fst ` out Q i"
    "ring_holds k rb1 (insert (h, e) (out Q i)) us" "rb_type rb1 = rb_type rb" by auto
  let ?x = "(i, h, e)" and ?Q = "push ?T (i, h, e) Q"
  have o: "out ?Q i = insert (h, e) (out Q i)" "\<forall>j. j \<noteq> i \<longrightarrow> for_ring j ?Q = for_ring j Q" by (auto simp: out_def for_ring_push)
  have new: "?x \<notin> set Q" using r(2) by (auto simp: out_def image_iff)
  have "event_bytes rb1 h = Some e" using ring.look_law[OF r(3)] by simp
  then have t: "event_time (M i) rb1 h = Some (?T i e)" using Cons.prems(3) by (intro event_time_eq) auto
  have unf: "mpsc_enqueue (M i) time_point_max i rb (map (wrap ?T) Q) n =
      mpsc_enqueue (M i) time_point_max i rb1 (map (wrap ?T) ?Q) (n + 1)"
    using r(1) t ev_time_le[of M i e] queue_push_wrap[of ?T ?x Q]
    by (subst mpsc_enqueue.simps) (simp add: wrap_def Let_def not_less)
  from Cons.IH[of rb1 ?Q "n + 1"] r(3,4) o(1) Cons.prems new sorted_push[of ?T Q ?x] obtain rb' Q' where
    ih: "mpsc_enqueue (M i) time_point_max i rb1 (map (wrap ?T) ?Q) (n + 1) = Some (rb', map (wrap ?T) Q', n + 1 + length us)"
      "rb_type rb' = rb_type rb1" "ring_holds k rb' (out Q' i) []" "in_order ?T Q'" "distinct Q'" "\<forall>j. j \<noteq> i \<longrightarrow> for_ring j Q' = for_ring j ?Q"
      "fst ` set Q' \<subseteq> insert i (fst ` set ?Q)"
      "image_mset (\<lambda>(i, h, e). (i, e)) (mset Q') = image_mset (\<lambda>(i, h, e). (i, e)) (mset ?Q) + mset (map (Pair i) us)" by auto
  show ?case
    by (rule exI[of _ rb'], rule exI[of _ Q']) (use unf ih r(4) o(2) in auto)
qed

definition pending :: "nat \<Rightarrow> (nat \<Rightarrow> u8 list list) \<Rightarrow> queued list \<Rightarrow> (nat \<times> u8 list) multiset" where
  "pending n U Q = image_mset (\<lambda>(i, h, e). (i, e)) (mset Q) + (\<Sum>i<n. mset (map (Pair i) (U i)))"

definition masks_ok :: "(nat \<Rightarrow> u64) \<Rightarrow> (nat \<Rightarrow> u64) \<Rightarrow> PEvent list \<Rightarrow> bool" where
  "masks_ok sty M pes \<longleftrightarrow> (\<forall>i<length pes. sty (pv_watcher_pos (pes ! i)) = M i)"

lemma masks_ok_same: "masks_ok sty M pes \<Longrightarrow> same_rings pes pes' \<Longrightarrow> masks_ok sty M pes'"
  using same_ringsD by (auto simp: masks_ok_def)

lemma set_pending: "set_mset (pending n U Q) = (\<lambda>(i, h, e). (i, e)) ` set Q \<union> {(i, e). i < n \<and> e \<in> set (U i)}"
proof -
  have "set_mset (\<Sum>i<n. mset (map (Pair i) (U i))) = {(i, e). i < n \<and> e \<in> set (U i)}"
    by (induction n) (auto simp: less_Suc_eq)
  then show ?thesis by (simp add: pending_def)
qed

text \<open>
  After the read phase: what is still to be read is behind an event of the same perf ring that is
  out, and not earlier.
\<close>

definition ring_ready :: "(nat \<Rightarrow> u64) \<Rightarrow> nat \<Rightarrow> bool \<Rightarrow> u8 list list \<Rightarrow> (event_ref \<times> u8 list) set \<Rightarrow> bool" where
  "ring_ready M i perf us F \<longleftrightarrow> (\<forall>e\<in>set us. timed M i e) \<and>
     (us \<noteq> [] \<longrightarrow> perf \<and> F \<noteq> {} \<and> (\<forall>(h, e)\<in>F. sorted (map (ev_time M i) (e # us))))"

definition fully_read :: "(nat \<Rightarrow> u64) \<Rightarrow> PEvent list \<Rightarrow> (nat \<Rightarrow> u8 list list) \<Rightarrow> queued list \<Rightarrow> bool" where
  "fully_read M pes U Q \<longleftrightarrow> (\<forall>i<length pes. ring_ready M i (is_perf pes i) (U i) (out Q i))"

lemma ring_ready_Nil [simp]: "ring_ready M i perf [] F"
  by (simp add: ring_ready_def)

text \<open>The events of one ring in a sequence.\<close>

definition of_ring :: "nat \<Rightarrow> (nat \<times> u8 list) list \<Rightarrow> u8 list list" where
  "of_ring i es = map snd (filter (\<lambda>x. fst x = i) es)"

lemma of_ring_Cons [simp]: "of_ring i (x # es) = (if fst x = i then snd x # of_ring i es else of_ring i es)" "of_ring i [] = []"
  by (simp_all add: of_ring_def)

definition feed :: "'c worker \<Rightarrow> (nat \<Rightarrow> nat) \<Rightarrow> (nat \<times> u8 list) list \<Rightarrow> 'c \<Rightarrow> 'c" where
  "feed f W es ctx = foldl (\<lambda>ctx (i, e). fst (the (f e (W i) ctx))) ctx es"

text \<open>
  A worker that succeeds on the events that satisfy \<open>E\<close> as long as its state satisfies \<open>I\<close>, which it keeps.
\<close>

definition worker_ok :: "'c worker \<Rightarrow> ('c \<Rightarrow> bool) \<Rightarrow> (nat \<Rightarrow> u8 list \<Rightarrow> bool) \<Rightarrow> bool" where
  "worker_ok f I E \<longleftrightarrow> (\<forall>e w ctx. I ctx \<and> E w e \<longrightarrow> (\<exists>ctx' r. f e w ctx = Some (ctx', r) \<and> IsDDResOK r \<and> I ctx'))"

lemma worker_okD: "worker_ok f I E \<Longrightarrow> I ctx \<Longrightarrow> E w e \<Longrightarrow> \<exists>ctx' r. f e w ctx = Some (ctx', r) \<and> IsDDResOK r \<and> I ctx'"
  unfolding worker_ok_def by blast

lemma feed_simps [simp]: "feed f W [] ctx = ctx" "feed f W ((i, e) # es) ctx = feed f W es (fst (the (f e (W i) ctx)))"
  "feed f W (es @ es') ctx = feed f W es' (feed f W es ctx)"
  by (simp_all add: feed_def)

lemma feed_inv: "worker_ok f I E \<Longrightarrow> I ctx \<Longrightarrow> \<forall>(i, e)\<in>set es. E (W i) e \<Longrightarrow> I (feed f W es ctx)"
proof (induction es arbitrary: ctx)
  case (Cons x es)
  obtain i e where x: "x = (i, e)" by (cases x)
  from worker_okD[OF Cons.prems(1,2), of "W i" e] Cons.prems(3) x obtain ctx' r where "f e (W i) ctx = Some (ctx', r)" "I ctx'" by auto
  then show ?case using Cons.IH[of ctx'] Cons.prems x by auto
qed simp

section \<open>Processing\<close>

lemma out_front:
  assumes "distinct ((i, h, e) # Q)"
  shows "out Q i = out ((i, h, e) # Q) i - {(h, e)}" "j \<noteq> i \<Longrightarrow> out ((i, h, e) # Q) j = out Q j"
  using assms by (auto simp: out_def)

lemma perf_one_out:
  assumes "ring_holds k rb F q" "rb_type rb = kPerfRingBuffer" "(h, e) \<in> F"
  shows "F = {(h, e)}"
  using assms by (auto simp: ring_holds_def perf_holds_def)

lemma front_min:
  assumes ord: "in_order (ev_time M) ((i, h, e) # Q)" and inv: "rings_ok k pes U ((i, h, e) # Q)" and fr: "fully_read M pes U ((i, h, e) # Q)"
    and x: "(j, y) \<in># pending (length pes) U ((i, h, e) # Q)"
  shows "ev_time M i e \<le> ev_time M j y"
proof -
  have q: "ev_time M i e \<le> ev_time M j y" if "(j, g, y) \<in> set ((i, h, e) # Q)" for j g y using ord that by (cases "(j, g, y) = (i, h, e)") (auto simp: image_iff Ball_def)
  from x consider g where "(j, g, y) \<in> set ((i, h, e) # Q)" | "j < length pes" "y \<in> set (U j)"
    unfolding set_pending by auto
  then show ?thesis
  proof cases
    case 1
    then show ?thesis by (rule q)
  next
    case 2
    have "ring_ready M j (is_perf pes j) (U j) (out ((i, h, e) # Q) j)" using fr 2(1) unfolding fully_read_def by blast
    moreover have "U j \<noteq> []" using 2(2) by auto
    ultimately obtain g z where g: "(g, z) \<in> out ((i, h, e) # Q) j" "sorted (map (ev_time M j) (z # U j))" unfolding ring_ready_def by fast
    then have "ev_time M j z \<le> ev_time M j y" using 2(2) by simp
    moreover have "ev_time M i e \<le> ev_time M j z" using g(1) by (intro q) (auto simp: out_def)
    ultimately show ?thesis by simp
  qed
qed

definition ring_seq :: "(nat \<Rightarrow> u8 list list) \<Rightarrow> queued list \<Rightarrow> nat \<Rightarrow> u8 list list" where
  "ring_seq U Q i = map (\<lambda>x. snd (snd x)) (for_ring i Q) @ U i"

text \<open>What one event leaves: its ring has moved on, and the next event of a perf ring is in the queue.\<close>

definition advanced :: "(nat \<Rightarrow> nat) \<Rightarrow> (nat \<Rightarrow> u64) \<Rightarrow> PEvent list \<Rightarrow> (nat \<Rightarrow> u8 list list) \<Rightarrow> queued list \<Rightarrow>
    nat \<times> u8 list \<Rightarrow> PEvent list \<Rightarrow> (nat \<Rightarrow> u8 list list) \<Rightarrow> queued list \<Rightarrow> bool" where
  "advanced k M pes U Q x pes' U' Q' \<longleftrightarrow> same_rings pes pes' \<and> rings_ok k pes' U' Q' \<and> fully_read M pes' U' Q' \<and> in_order (ev_time M) Q' \<and>
     pending (length pes) U Q = add_mset x (pending (length pes) U' Q') \<and>
     (\<forall>j<length pes. is_perf pes j \<longrightarrow> ring_seq U Q j = (if j = fst x then [snd x] else []) @ ring_seq U' Q' j)"

lemma released:
  assumes inv: "rings_ok k pes U ((i, h, e) # Q)"
  shows "\<exists>rb. release_event (pv_rb (pes ! i)) h = Some rb \<and> rb_type rb = rb_type (pv_rb (pes ! i)) \<and> ring_holds (k i) rb (out Q i) (U i)"
proof -
  have "ring_holds (k i) (pv_rb (pes ! i)) (out ((i, h, e) # Q) i) (U i)" "distinct ((i, h, e) # Q)" using inv by (auto simp: rings_ok_def)
  moreover have "(h, e) \<in> out ((i, h, e) # Q) i" by (simp add: out_def)
  ultimately show ?thesis using ring_give_back[of "k i" "pv_rb (pes ! i)" _ "U i" h e] out_front(1)[of i h e Q] by metis
qed

lemma rings_ok_update:
  assumes inv: "rings_ok k pes U ((i, h, e) # Q)" and rb: "ring_holds (k i) rb (out Q' i) u" "distinct Q'" "fst ` set Q' \<subseteq> {..<length pes}"
    and oth: "\<forall>j. j \<noteq> i \<longrightarrow> out Q' j = out Q j"
  shows "rings_ok k (pes[i := (pes ! i)\<lparr>pv_rb := rb\<rparr>]) (U(i := u)) Q'"
  using assms unfolding rings_ok_def by (auto simp: nth_list_update out_front(2))

lemma is_perf_update: "i < length pes \<Longrightarrow> rb_type rb = rb_type (pv_rb (pes ! i)) \<Longrightarrow> is_perf (pes[i := (pes ! i)\<lparr>pv_rb := rb\<rparr>]) j = is_perf pes j"
  by (cases "i = j") (auto simp: is_perf_def)

lemma pending_same: "pending n U ((i, h, e) # Q) = add_mset (i, e) (pending n U Q)"
  by (simp add: pending_def)

lemma sum_update_mset:
  "i < (n :: nat) \<Longrightarrow> U i = e # us \<Longrightarrow> (\<Sum>j<n. mset (map (Pair j) (U j))) = add_mset (i, e) (\<Sum>j<n. mset (map (Pair j) ((U(i := us)) j)))"
proof (induction n)
  case (Suc n)
  show ?case
  proof (cases "i = n")
    case True
    then have "(\<Sum>j<n. mset (map (Pair j) ((U(i := us)) j))) = (\<Sum>j<n. mset (map (Pair j) (U j)))" by (intro sum.cong) auto
    then show ?thesis using True Suc.prems by simp
  next
    case False
    then show ?thesis using Suc by simp
  qed
qed simp

lemma advance_without_next:
  assumes inv: "rings_ok k pes U ((i, h, e) # Q)" and fr: "fully_read M pes U ((i, h, e) # Q)" and ord: "in_order (ev_time M) ((i, h, e) # Q)"
    and rb: "ring_holds (k i) rb (out Q i) (U i)" "rb_type rb = rb_type (pv_rb (pes ! i))" and u: "U i = []"
  shows "advanced k M pes U ((i, h, e) # Q) (i, e) (pes[i := (pes ! i)\<lparr>pv_rb := rb\<rparr>]) U Q"
proof -
  have i: "i < length pes" and d: "distinct ((i, h, e) # Q)" using inv by (auto simp: rings_ok_def)
  have "rings_ok k (pes[i := (pes ! i)\<lparr>pv_rb := rb\<rparr>]) U Q"
    using rings_ok_update[OF inv rb(1)] inv by (auto simp: rings_ok_def fun_upd_idem)
  moreover have "fully_read M (pes[i := (pes ! i)\<lparr>pv_rb := rb\<rparr>]) U Q"
  proof -
    have "ring_ready M j (is_perf pes j) (U j) (out Q j)" if "j < length pes" for j
      using fr that u out_front(2)[OF d, of j] by (cases "j = i") (auto simp: fully_read_def)
    then show ?thesis unfolding fully_read_def is_perf_update[OF i rb(2)] length_list_update by blast
  qed
  moreover have "ring_seq U ((i, h, e) # Q) j = (if j = i then [e] else []) @ ring_seq U Q j" for j by (simp add: ring_seq_def)
  ultimately show ?thesis using ord same_rings_update[OF i rb(2)] unfolding advanced_def pending_same by simp
qed

lemma advance_with_next:
  assumes inv: "rings_ok k pes U ((i, h, e) # Q)" and fr: "fully_read M pes U ((i, h, e) # Q)" and ord: "in_order (ev_time M) ((i, h, e) # Q)"
    and o: "out Q i = {}" and p: "is_perf pes i" and u: "U i = e' # us"
    and rb: "ring_holds (k i) rb {(h', e')} us" "rb_type rb = rb_type (pv_rb (pes ! i))"
  shows "advanced k M pes U ((i, h, e) # Q) (i, e) (pes[i := (pes ! i)\<lparr>pv_rb := rb\<rparr>]) (U(i := us)) (push (ev_time M) (i, h', e') Q)"
proof -
  let ?Q = "push (ev_time M) (i, h', e') Q" and ?pes = "pes[i := (pes ! i)\<lparr>pv_rb := rb\<rparr>]"
  have i: "i < length pes" and d: "distinct ((i, h, e) # Q)" and idx: "fst ` set Q \<subseteq> {..<length pes}" using inv by (auto simp: rings_ok_def)
  have oq: "out ?Q i = {(h', e')}" "\<forall>j. j \<noteq> i \<longrightarrow> out ?Q j = out Q j" using o by (auto simp: out_def)
  have new: "\<forall>y\<in>set Q. fst y \<noteq> i" using o by (auto simp: out_def)
  have "rings_ok k ?pes (U(i := us)) ?Q"
    using rb(1) oq d idx i new by (intro rings_ok_update[OF inv]) auto
  moreover have "fully_read M ?pes (U(i := us)) ?Q"
  proof -
    have r: "ring_ready M i (is_perf pes i) (U i) (out ((i, h, e) # Q) i)" using fr i by (simp add: fully_read_def)
    moreover have "(h, e) \<in> out ((i, h, e) # Q) i" by (simp add: out_def)
    ultimately have "sorted (map (ev_time M i) (e' # us))" "\<forall>e\<in>set us. timed M i e" using u by (auto simp: ring_ready_def)
    then have "ring_ready M i (is_perf pes i) us {(h', e')}" using p by (simp add: ring_ready_def)
    then have "ring_ready M j (is_perf pes j) ((U(i := us)) j) (out ?Q j)" if "j < length pes" for j
      using fr that oq out_front(2)[OF d, of j] by (cases "j = i") (auto simp: fully_read_def)
    then show ?thesis unfolding fully_read_def is_perf_update[OF i rb(2)] length_list_update by blast
  qed
  moreover have "ring_seq U ((i, h, e) # Q) j = (if j = i then [e] else []) @ ring_seq (U(i := us)) ?Q j" for j
    using o for_ring_push[of j "(i, h', e')" "ev_time M" Q] for_ring_new[of Q "(i, h', e')" "ev_time M"] u
    by (cases "j = i") (auto simp: ring_seq_def)
  moreover have "pending (length pes) U ((i, h, e) # Q) = add_mset (i, e) (pending (length pes) (U(i := us)) ?Q)"
    unfolding pending_def sum_update_mset[of i "length pes" U, OF i u] by simp
  moreover have "in_order (ev_time M) ?Q" using ord sorted_push[of "ev_time M" Q "(i, h', e')"] by simp
  ultimately show ?thesis using same_rings_update[OF i rb(2)] unfolding advanced_def by simp
qed

lemma after_event_ok:
  assumes inv: "rings_ok k pes U ((i, h, e) # Q)" and fr: "fully_read M pes U ((i, h, e) # Q)" and m: "masks_ok sty M pes"
    and ord: "in_order (ev_time M) ((i, h, e) # Q)"
  shows "\<exists>pe U' Q'. after_event True sty (pes ! i) (wrap (ev_time M) (i, h, e)) (map (wrap (ev_time M)) ((i, h, e) # Q)) =
      Some (pe, wrap (ev_time M) (i, h, e) # map (wrap (ev_time M)) Q') \<and> advanced k M pes U ((i, h, e) # Q) (i, e) (pes[i := pe]) U' Q'"
proof -
  let ?T = "ev_time M"
  have i: "i < length pes" and d: "distinct ((i, h, e) # Q)" using inv by (auto simp: rings_ok_def)
  have mi: "sty (pv_watcher_pos (pes ! i)) = M i" using m i by (simp add: masks_ok_def)
  have rdy: "ring_ready M i (is_perf pes i) (U i) (out ((i, h, e) # Q) i)" using fr i by (simp add: fully_read_def)
  from released[OF inv] obtain rb where r: "release_event (pv_rb (pes ! i)) h = Some rb" "rb_type rb = rb_type (pv_rb (pes ! i))"
    "ring_holds (k i) rb (out Q i) (U i)" by blast
  show ?thesis
  proof (cases "is_perf pes i")
    case False
    then have "U i = []" using rdy by (auto simp: ring_ready_def)
    from advance_without_next[OF inv fr ord r(3,2) this] r False show ?thesis
      by (intro exI[of _ "(pes ! i)\<lparr>pv_rb := rb\<rparr>"] exI[of _ U] exI[of _ Q]) (simp add: after_event_def is_perf_def)
  next
    case True
    then have ty: "rb_type rb = kPerfRingBuffer" using r(2) by (simp add: is_perf_def)
    have "ring_holds (k i) (pv_rb (pes ! i)) (out ((i, h, e) # Q) i) (U i)" using inv i by (simp add: rings_ok_def)
    from perf_one_out[OF this, of h e] True have "out ((i, h, e) # Q) i = {(h, e)}" by (auto simp: is_perf_def out_def)
    then have o: "out Q i = {}" using out_front(1)[OF d] by simp
    have tm: "\<forall>e\<in>set (U i). timed M i e" using rdy by (simp add: ring_ready_def)
    from perf_enqueue_ok[OF r(3)[unfolded o] ty tm, of "map (wrap ?T) ((i, h, e) # Q)"] obtain rb' where
      e: "rb_type rb' = rb_type rb" "case U i of
        [] \<Rightarrow> perf_enqueue True (M i) i rb (map (wrap ?T) ((i, h, e) # Q)) = Some (rb', map (wrap ?T) ((i, h, e) # Q), 0) \<and> ring_holds (k i) rb' {} []
      | e' # us \<Rightarrow> \<exists>h'. perf_enqueue True (M i) i rb (map (wrap ?T) ((i, h, e) # Q)) =
            Some (rb', queue_push (wrap ?T (i, h', e')) (map (wrap ?T) ((i, h, e) # Q)), 1) \<and> ring_holds (k i) rb' {(h', e')} us" by blast
    show ?thesis
    proof (cases "U i")
      case Nil
      then have "ring_holds (k i) rb' (out Q i) (U i)" using e(2) o by simp
      from advance_without_next[OF inv fr ord this _ Nil] e r ty Nil show ?thesis
        by (intro exI[of _ "(pes ! i)\<lparr>pv_rb := rb'\<rparr>"] exI[of _ U] exI[of _ Q]) (simp add: after_event_def mi)
    next
      case (Cons e' us)
      then obtain h' where n: "perf_enqueue True (M i) i rb (map (wrap ?T) ((i, h, e) # Q)) =
            Some (rb', queue_push (wrap ?T (i, h', e')) (map (wrap ?T) ((i, h, e) # Q)), 1)" "ring_holds (k i) rb' {(h', e')} us" using e(2) by auto
      have "(h, e) \<in> out ((i, h, e) # Q) i" by (simp add: out_def)
      then have "?T i e \<le> ?T i e'" using rdy Cons by (auto simp: ring_ready_def)
      then have "queue_push (wrap ?T (i, h', e')) (map (wrap ?T) ((i, h, e) # Q)) = wrap ?T (i, h, e) # map (wrap ?T) (push ?T (i, h', e') Q)"
        by (simp add: queue_push_wrap)
      moreover have "rb_type rb' = rb_type (pv_rb (pes ! i))" using e(1) r(2) by simp
      note advance_with_next[OF inv fr ord o True Cons n(2) this]
      ultimately show ?thesis using r n(1) ty
        by (intro exI[of _ "(pes ! i)\<lparr>pv_rb := rb'\<rparr>"] exI[of _ "U(i := us)"] exI[of _ "push ?T (i, h', e') Q"]) (simp add: after_event_def mi)
    qed
  qed
qed

text \<open>What has happened when the rings are drained: \<open>es\<close> are the processed events with their rings.\<close>

definition drained :: "(nat \<Rightarrow> nat) \<Rightarrow> (nat \<Rightarrow> u64) \<Rightarrow> PEvent list \<Rightarrow> (nat \<Rightarrow> u8 list list) \<Rightarrow> queued list \<Rightarrow> (nat \<times> u8 list) list \<Rightarrow> PEvent list \<Rightarrow> bool" where
  "drained k M pes U Q es pes' \<longleftrightarrow> same_rings pes pes' \<and> rings_ok k pes' (\<lambda>_. []) [] \<and> mset es = pending (length pes) U Q \<and>
     sorted (map (\<lambda>(i, e). ev_time M i e) es) \<and> (\<forall>j<length pes. is_perf pes j \<longrightarrow> of_ring j es = ring_seq U Q j)"

lemma drained_Nil:
  assumes "rings_ok k pes U []" "fully_read M pes U []"
  shows "drained k M pes U [] [] pes"
proof -
  have u: "U i = []" if "i < length pes" for i using assms(2) that by (auto simp: fully_read_def ring_ready_def out_def)
  then have "(\<Sum>i<length pes. mset (map (Pair i) (U i))) = (\<Sum>i<length pes. {#})" by (intro sum.cong) auto
  then show ?thesis using assms(1) u by (auto simp: drained_def pending_def ring_seq_def rings_ok_def)
qed

lemma drained_Cons:
  assumes adv: "advanced k M pes U ((i, h, e) # Q) (i, e) pes1 U1 Q1" and rest: "drained k M pes1 U1 Q1 es pes'"
    and m: "\<And>j y. (j, y) \<in># pending (length pes) U ((i, h, e) # Q) \<Longrightarrow> ev_time M i e \<le> ev_time M j y"
  shows "drained k M pes U ((i, h, e) # Q) ((i, e) # es) pes'"
proof -
  have same: "same_rings pes pes1" and p: "pending (length pes) U ((i, h, e) # Q) = add_mset (i, e) (pending (length pes) U1 Q1)"
    and sq: "\<And>j. j < length pes \<Longrightarrow> is_perf pes j \<Longrightarrow> ring_seq U ((i, h, e) # Q) j = (if j = i then [e] else []) @ ring_seq U1 Q1 j"
    using adv unfolding advanced_def fst_conv snd_conv by blast+
  note l = same_ringsD[OF same]
  have es: "mset es = pending (length pes) U1 Q1" using rest l(1) by (simp add: drained_def)
  have "ev_time M i e \<le> ev_time M j y" if "(j, y) \<in> set es" for j y
    using m[of j y] that unfolding p es[symmetric] by simp
  moreover have "of_ring j ((i, e) # es) = ring_seq U ((i, h, e) # Q) j" if "j < length pes" "is_perf pes j" for j
    using rest that sq[OF that] l(1) l(3)[OF that(1)] by (auto simp: drained_def)
  ultimately show ?thesis using rest p es same_rings_trans[OF same] by (auto simp: drained_def)
qed

lemma process_queue_ok:
  assumes "rings_ok k pes U Q" "fully_read M pes U Q" "in_order (ev_time M) Q" "masks_ok sty M pes" "worker_ok f I E"
    "\<forall>i<length pes. pv_watcher_pos (pes ! i) = W i" "I ctx" "\<forall>(i, e)\<in>#pending (length pes) U Q. E (W i) e"
  shows "\<exists>pes' es. process_queue f True sty time_point_max pes (map (wrap (ev_time M)) Q) ctx = Some (pes', [], feed f W es ctx, Emptied) \<and>
    drained k M pes U Q es pes'"
  using assms
proof (induction "size (pending (length pes) U Q)" arbitrary: pes U Q ctx)
  case 0
  then have "Q = []" by (simp add: pending_def)
  then show ?case using drained_Nil[of k pes U M] 0
    by (intro exI[of _ pes] exI[of _ "[]"]) (subst process_queue.simps, simp add: feed_def)
next
  case (Suc n)
  show ?case
  proof (cases Q)
    case Nil
    then show ?thesis using drained_Nil[of k pes U M] Suc.prems
      by (intro exI[of _ pes] exI[of _ "[]"]) (subst process_queue.simps, simp add: feed_def)
  next
    case (Cons x Q0)
    obtain i h e where x: "x = (i, h, e)" by (cases x)
    note Q = Cons[unfolded x]
    note pr = Suc.prems[unfolded Q]
    have i: "i < length pes" using pr(1) by (auto simp: rings_ok_def)
    have "ring_holds (k i) (pv_rb (pes ! i)) (out ((i, h, e) # Q0) i) (U i)" using pr(1) i by (simp add: rings_ok_def)
    then have b: "event_bytes (pv_rb (pes ! i)) h = Some e" by (rule ring.look_law) (simp add: out_def)
    have "E (W i) e" using pr(8) by (simp add: pending_def)
    from worker_okD[OF pr(5,7) this] obtain ctx1 r where w: "f e (W i) ctx = Some (ctx1, r)" "IsDDResOK r" "I ctx1" by blast
    from after_event_ok[OF pr(1,2,4,3)] obtain pe U1 Q1 where
      a: "after_event True sty (pes ! i) (wrap (ev_time M) (i, h, e)) (map (wrap (ev_time M)) ((i, h, e) # Q0)) =
        Some (pe, wrap (ev_time M) (i, h, e) # map (wrap (ev_time M)) Q1)" and
      adv: "advanced k M pes U ((i, h, e) # Q0) (i, e) (pes[i := pe]) U1 Q1" by blast
    have same: "same_rings pes (pes[i := pe])" "rings_ok k (pes[i := pe]) U1 Q1" "fully_read M (pes[i := pe]) U1 Q1" "in_order (ev_time M) Q1"
      "pending (length pes) U ((i, h, e) # Q0) = add_mset (i, e) (pending (length pes) U1 Q1)"
      using adv unfolding advanced_def by blast+
    have "n = size (pending (length (pes[i := pe])) U1 Q1)" using Suc.hyps(2) same(5) unfolding Q by simp
    moreover have "\<forall>(i, e)\<in>#pending (length (pes[i := pe])) U1 Q1. E (W i) e" using pr(8) unfolding same(5) by simp
    ultimately obtain pes' es where
      ih: "process_queue f True sty time_point_max (pes[i := pe]) (map (wrap (ev_time M)) Q1) ctx1 = Some (pes', [], feed f W es ctx1, Emptied)"
        "drained k M (pes[i := pe]) U1 Q1 es pes'"
      using Suc.hyps(1)[OF _ same(2,3,4) masks_ok_same[OF pr(4) same(1)] pr(5) _ w(3)] pr(6) same_ringsD[OF same(1)] by auto
    have "process_queue f True sty time_point_max pes (map (wrap (ev_time M)) Q) ctx = Some (pes', [], feed f W ((i, e) # es) ctx, Emptied)"
      unfolding Q using i b w(1,2) a ih(1) pr(6) ev_time_le[of M i e]
      by (subst process_queue.simps) (simp add: feed_def not_less)
    moreover have "drained k M pes U Q ((i, e) # es) pes'"
      unfolding Q by (rule drained_Cons[OF adv ih(2) front_min[OF pr(3,1,2)]])
    ultimately show ?thesis by blast
  qed
qed

section \<open>Reading all rings\<close>

lemma inflight_iff_out:
  "ring_holds k rb F us \<Longrightarrow> rb_type rb = kPerfRingBuffer \<Longrightarrow> perf_rb_has_inflight_events rb \<longleftrightarrow> F \<noteq> {}"
  unfolding ring_holds_def by (auto dest: perf_holds_inflight)

text \<open>Before the read phase: a perf ring is in the order of time, after its event that is out if there is one.\<close>

definition orderly :: "(nat \<Rightarrow> u64) \<Rightarrow> nat \<Rightarrow> bool \<Rightarrow> u8 list list \<Rightarrow> (event_ref \<times> u8 list) set \<Rightarrow> bool" where
  "orderly M i perf us F \<longleftrightarrow> (\<forall>e\<in>set us. timed M i e) \<and>
     (perf \<longrightarrow> sorted (map (ev_time M i) us) \<and> (\<forall>(h, e)\<in>F. sorted (map (ev_time M i) (e # us))))"

definition has_read :: "(nat \<Rightarrow> nat) \<Rightarrow> (nat \<Rightarrow> u64) \<Rightarrow> nat \<Rightarrow> PEvent \<Rightarrow> u8 list list \<Rightarrow> queued list \<Rightarrow> PEvent \<Rightarrow> u8 list list \<Rightarrow> queued list \<Rightarrow> bool" where
  "has_read k M i pe us Q pe' us' Q' \<longleftrightarrow> pe' = pe\<lparr>pv_rb := pv_rb pe'\<rparr> \<and> rb_type (pv_rb pe') = rb_type (pv_rb pe) \<and>
     ring_holds (k i) (pv_rb pe') (out Q' i) us' \<and> ring_ready M i (rb_type (pv_rb pe) = kPerfRingBuffer) us' (out Q' i) \<and>
     in_order (ev_time M) Q' \<and> distinct Q' \<and> (\<forall>j. j \<noteq> i \<longrightarrow> for_ring j Q' = for_ring j Q) \<and> fst ` set Q' \<subseteq> insert i (fst ` set Q) \<and>
     image_mset (\<lambda>(i, h, e). (i, e)) (mset Q') + mset (map (Pair i) us') = image_mset (\<lambda>(i, h, e). (i, e)) (mset Q) + mset (map (Pair i) us) \<and>
     (rb_type (pv_rb pe) = kPerfRingBuffer \<longrightarrow> map (\<lambda>x. snd (snd x)) (for_ring i Q') @ us' = map (\<lambda>x. snd (snd x)) (for_ring i Q) @ us)"

lemma read_ring_ok:
  assumes h: "ring_holds (k i) (pv_rb pe) (out Q i) us" and o: "orderly M i (rb_type (pv_rb pe) = kPerfRingBuffer) us (out Q i)"
    and q: "in_order (ev_time M) Q" "distinct Q" and m: "sty (pv_watcher_pos pe) = M i"
  shows "\<exists>pe' us' Q' n. read_ring True sty time_point_max i pe (map (wrap (ev_time M)) Q) = Some (pe', map (wrap (ev_time M)) Q', n) \<and>
    has_read k M i pe us Q pe' us' Q' \<and> (us = [] \<longrightarrow> us' = [] \<and> n = 0)"
proof (cases "rb_type (pv_rb pe) = kPerfRingBuffer")
  case False
  have "\<forall>e\<in>set us. timed M i e" using o by (simp add: orderly_def)
  from mpsc_enqueue_ok[OF h False this q, of 0] obtain rb' Q' where
    "mpsc_enqueue (M i) time_point_max i (pv_rb pe) (map (wrap (ev_time M)) Q) 0 = Some (rb', map (wrap (ev_time M)) Q', 0 + length us)"
    "rb_type rb' = rb_type (pv_rb pe)" "ring_holds (k i) rb' (out Q' i) []" "in_order (ev_time M) Q'" "distinct Q'"
    "\<forall>j. j \<noteq> i \<longrightarrow> for_ring j Q' = for_ring j Q" "fst ` set Q' \<subseteq> insert i (fst ` set Q)"
    "image_mset (\<lambda>(i, h, e). (i, e)) (mset Q') = image_mset (\<lambda>(i, h, e). (i, e)) (mset Q) + mset (map (Pair i) us)" by blast
  then show ?thesis using False m
    by (intro exI[of _ "pe\<lparr>pv_rb := rb'\<rparr>"] exI[of _ "[]"] exI[of _ Q'] exI[of _ "length us"]) (simp add: read_ring_def has_read_def)
next
  case True
  show ?thesis
  proof (cases "out Q i = {}")
    case False
    then have "perf_rb_has_inflight_events (pv_rb pe)" using inflight_iff_out[OF h True] by simp
    moreover have "ring_ready M i True us (out Q i)" using o True False by (auto simp: orderly_def ring_ready_def)
    ultimately show ?thesis using True q h
      by (intro exI[of _ pe] exI[of _ us] exI[of _ Q] exI[of _ 0]) (simp add: read_ring_def has_read_def subset_insertI)
  next
    case E: True
    have "\<not> perf_rb_has_inflight_events (pv_rb pe)" using inflight_iff_out[OF h True] E by simp
    then have rd: "read_ring True sty time_point_max i pe q = map_option (\<lambda>(rb, q, n). (pe\<lparr>pv_rb := rb\<rparr>, q, n)) (perf_enqueue True (M i) i (pv_rb pe) q)" for q
      using True m by (simp add: read_ring_def)
    have tm: "\<forall>e\<in>set us. timed M i e" and so: "sorted (map (ev_time M i) us)" using o True by (simp_all add: orderly_def)
    from perf_enqueue_ok[OF h[unfolded E] True tm, of "map (wrap (ev_time M)) Q"] obtain rb' where
      ty: "rb_type rb' = rb_type (pv_rb pe)" and
      e: "case us of
        [] \<Rightarrow> perf_enqueue True (M i) i (pv_rb pe) (map (wrap (ev_time M)) Q) = Some (rb', map (wrap (ev_time M)) Q, 0) \<and> ring_holds (k i) rb' {} []
      | e' # us \<Rightarrow> \<exists>h'. perf_enqueue True (M i) i (pv_rb pe) (map (wrap (ev_time M)) Q) =
            Some (rb', queue_push (wrap (ev_time M) (i, h', e')) (map (wrap (ev_time M)) Q), 1) \<and> ring_holds (k i) rb' {(h', e')} us" by blast
    show ?thesis
    proof (cases us)
      case Nil
      then show ?thesis using e E q True ty
        by (intro exI[of _ "pe\<lparr>pv_rb := rb'\<rparr>"] exI[of _ "[]"] exI[of _ Q] exI[of _ 0]) (simp add: rd has_read_def subset_insertI)
    next
      case (Cons e' us')
      then obtain h' where n: "perf_enqueue True (M i) i (pv_rb pe) (map (wrap (ev_time M)) Q) =
            Some (rb', map (wrap (ev_time M)) (push (ev_time M) (i, h', e') Q), 1)" "ring_holds (k i) rb' {(h', e')} us'" using e by (auto simp: queue_push_wrap)
      have f: "for_ring i Q = []" "for_ring i (push (ev_time M) (i, h', e') Q) = [(i, h', e')]" using for_ring_new[of Q "(i, h', e')" "ev_time M"] E by simp_all
      have o': "out (push (ev_time M) (i, h', e') Q) i = {(h', e')}" unfolding out_for_ring f by simp
      have new: "(i, h', e') \<notin> set Q" using E by (auto simp: out_def)
      have "has_read k M i pe us Q (pe\<lparr>pv_rb := rb'\<rparr>) us' (push (ev_time M) (i, h', e') Q)"
        using ty n(2) True so tm q sorted_push[OF q(1), of "(i, h', e')"] o' f new Cons
        by (auto simp: has_read_def ring_ready_def for_ring_push)
      then show ?thesis using n(1) Cons
        by (intro exI[of _ "pe\<lparr>pv_rb := rb'\<rparr>"] exI[of _ us'] exI[of _ "push (ev_time M) (i, h', e') Q"] exI[of _ 1]) (simp add: rd)
    qed
  qed
qed

text \<open>The state before ring \<open>i\<close> is read: the rings before it are ready, the others are orderly.\<close>

definition reading :: "(nat \<Rightarrow> nat) \<Rightarrow> (nat \<Rightarrow> u64) \<Rightarrow> nat \<Rightarrow> PEvent list \<Rightarrow> (nat \<Rightarrow> u8 list list) \<Rightarrow> queued list \<Rightarrow> bool" where
  "reading k M i pes U Q \<longleftrightarrow> rings_ok k pes U Q \<and> in_order (ev_time M) Q \<and>
     (\<forall>j<length pes. if j < i then ring_ready M j (is_perf pes j) (U j) (out Q j) else orderly M j (is_perf pes j) (U j) (out Q j))"

definition same_events :: "PEvent list \<Rightarrow> (nat \<Rightarrow> u8 list list) \<Rightarrow> queued list \<Rightarrow> (nat \<Rightarrow> u8 list list) \<Rightarrow> queued list \<Rightarrow> bool" where
  "same_events pes U Q U' Q' \<longleftrightarrow> pending (length pes) U' Q' = pending (length pes) U Q \<and>
     (\<forall>j<length pes. is_perf pes j \<longrightarrow> ring_seq U' Q' j = ring_seq U Q j)"

lemma sum_split_mset:
  "i < (n :: nat) \<Longrightarrow> (\<Sum>j<n. mset (map (Pair j) (U j))) = mset (map (Pair i) (U i)) + (\<Sum>j\<in>{..<n} - {i}. mset (map (Pair j) (U j)))"
  by (rule sum.remove) auto

lemma reading_step:
  assumes inv: "reading k M i pes U Q" and i: "i < length pes" and r: "has_read k M i (pes ! i) (U i) Q pe' us' Q'"
  shows "same_rings pes (pes[i := pe'])" "reading k M (Suc i) (pes[i := pe']) (U(i := us')) Q'" "same_events pes U Q (U(i := us')) Q'"
proof -
  note r = r[unfolded has_read_def]
  have pe: "pes[i := pe'] = pes[i := (pes ! i)\<lparr>pv_rb := pv_rb pe'\<rparr>]" and ty: "rb_type (pv_rb pe') = rb_type (pv_rb (pes ! i))" using r by metis+
  have ot: "for_ring j Q' = for_ring j Q" "out Q' j = out Q j" if "j \<noteq> i" for j using r that by (simp_all add: out_for_ring)
  show "same_rings pes (pes[i := pe'])" unfolding pe by (rule same_rings_update[OF i ty])
  have ip: "is_perf (pes[i := pe']) j = is_perf pes j" for j unfolding pe by (rule is_perf_update[OF i ty])
  have "ring_holds (k j) (pv_rb (pes[i := pe'] ! j)) (out Q' j) ((U(i := us')) j)" if "j < length pes" for j
    using r inv that ot by (cases "j = i") (simp_all add: reading_def rings_ok_def)
  moreover have "fst ` set Q' \<subseteq> {..<length pes}"
  proof -
    have "fst ` set Q' \<subseteq> insert i (fst ` set Q)" "fst ` set Q \<subseteq> {..<length pes}" using r inv unfolding reading_def rings_ok_def by blast+
    then show ?thesis using i by blast
  qed
  ultimately have "rings_ok k (pes[i := pe']) (U(i := us')) Q'" using r by (simp add: rings_ok_def)
  moreover have "if j < Suc i then ring_ready M j (is_perf pes j) ((U(i := us')) j) (out Q' j) else orderly M j (is_perf pes j) ((U(i := us')) j) (out Q' j)"
    if "j < length pes" for j
  proof (cases "j = i")
    case True
    then show ?thesis using r by (simp add: is_perf_def)
  next
    case False
    have "if j < i then ring_ready M j (is_perf pes j) (U j) (out Q j) else orderly M j (is_perf pes j) (U j) (out Q j)"
      using inv that unfolding reading_def by blast
    then show ?thesis using False ot[OF False] by (simp add: less_Suc_eq)
  qed
  moreover have "in_order (ev_time M) Q'" using r by blast
  ultimately show "reading k M (Suc i) (pes[i := pe']) (U(i := us')) Q'" unfolding reading_def ip length_list_update by (intro conjI allI impI)
  have "(\<Sum>j\<in>{..<length pes} - {i}. mset (map (Pair j) ((U(i := us')) j))) = (\<Sum>j\<in>{..<length pes} - {i}. mset (map (Pair j) (U j)))"
    by (rule sum.cong) auto
  moreover have "image_mset (\<lambda>(i, h, e). (i, e)) (mset Q') + mset (map (Pair i) us') = image_mset (\<lambda>(i, h, e). (i, e)) (mset Q) + mset (map (Pair i) (U i))"
    using r by blast
  ultimately have "pending (length pes) (U(i := us')) Q' = pending (length pes) U Q"
    unfolding pending_def sum_split_mset[OF i] fun_upd_same by (simp only: add.assoc[symmetric])
  moreover have "ring_seq (U(i := us')) Q' j = ring_seq U Q j" if "is_perf pes j" for j
    using r that ot by (cases "j = i") (simp_all add: ring_seq_def is_perf_def)
  ultimately show "same_events pes U Q (U(i := us')) Q'" by (simp add: same_events_def)
qed

lemma read_rings_ok:
  assumes "reading k M (length pre) (pre @ ps) U Q" "masks_ok sty M (pre @ ps)"
  shows "\<exists>ps' U' Q' n. read_rings True sty time_point_max (length pre) ps (map (wrap (ev_time M)) Q) = Some (ps', map (wrap (ev_time M)) Q', n) \<and>
    same_rings (pre @ ps) (pre @ ps') \<and> reading k M (length (pre @ ps)) (pre @ ps') U' Q' \<and> same_events (pre @ ps) U Q U' Q' \<and>
    ((\<forall>j<length (pre @ ps). U j = []) \<longrightarrow> n = 0)"
  using assms
proof (induction ps arbitrary: pre U Q)
  case Nil
  then show ?case by (intro exI[of _ "[]"] exI[of _ U] exI[of _ Q] exI[of _ 0]) (simp add: same_events_def)
next
  case (Cons pe ps)
  let ?pes = "pre @ pe # ps" and ?i = "length pre"
  have i: "?i < length ?pes" and at: "?pes ! ?i = pe" by simp_all
  have "ring_holds (k ?i) (pv_rb (?pes ! ?i)) (out Q ?i) (U ?i)" "orderly M ?i (is_perf ?pes ?i) (U ?i) (out Q ?i)" "in_order (ev_time M) Q" "distinct Q"
    using Cons.prems(1) i unfolding reading_def rings_ok_def by (blast, metis less_irrefl, blast, blast)
  note rd = this[unfolded is_perf_def at]
  have "sty (pv_watcher_pos pe) = M ?i" using Cons.prems(2) i at unfolding masks_ok_def by metis
  from read_ring_ok[of k ?i pe Q "U ?i" M sty, OF rd this] obtain pe' us' Q1 n where
    r: "read_ring True sty time_point_max ?i pe (map (wrap (ev_time M)) Q) = Some (pe', map (wrap (ev_time M)) Q1, n)"
      "has_read k M ?i (?pes ! ?i) (U ?i) Q pe' us' Q1" "U ?i = [] \<longrightarrow> us' = [] \<and> n = 0" unfolding at by blast
  note st = reading_step[OF Cons.prems(1) i r(2)]
  have upd: "?pes[?i := pe'] = (pre @ [pe']) @ ps" by simp
  have len: "length ((pre @ [pe']) @ ps) = length ?pes" "Suc ?i = length (pre @ [pe'])" by simp_all
  from Cons.IH[OF st(2)[unfolded upd len(2)] masks_ok_same[OF Cons.prems(2) st(1), unfolded upd]] obtain ps' U' Q' m where
    ih: "read_rings True sty time_point_max (length (pre @ [pe'])) ps (map (wrap (ev_time M)) Q1) = Some (ps', map (wrap (ev_time M)) Q', m)"
      "same_rings ((pre @ [pe']) @ ps) ((pre @ [pe']) @ ps')" "reading k M (length ((pre @ [pe']) @ ps)) ((pre @ [pe']) @ ps') U' Q'"
      "same_events ((pre @ [pe']) @ ps) (U(?i := us')) Q1 U' Q'" "(\<forall>j<length ((pre @ [pe']) @ ps). (U(?i := us')) j = []) \<longrightarrow> m = 0" by blast
  have "same_events ?pes U Q U' Q'"
    using st(3) ih(4) same_ringsD(3)[OF st(1)] unfolding same_events_def len upd by auto
  moreover have "n + m = 0" if z: "\<forall>j<length ?pes. U j = []"
  proof -
    have "us' = []" "n = 0" using r(3) z i by blast+
    then show ?thesis using ih(5) z unfolding len by simp
  qed
  ultimately show ?case using r(1) ih(1) same_rings_trans[OF st(1)[unfolded upd] ih(2)] ih(3)
    by (intro exI[of _ "pe' # ps'"] exI[of _ U'] exI[of _ Q'] exI[of _ "n + m"]) simp
qed

section \<open>Draining\<close>

definition orderly_rings :: "(nat \<Rightarrow> nat) \<Rightarrow> (nat \<Rightarrow> u64) \<Rightarrow> PEvent list \<Rightarrow> (nat \<Rightarrow> u8 list list) \<Rightarrow> queued list \<Rightarrow> bool" where
  "orderly_rings k M pes U Q \<longleftrightarrow> rings_ok k pes U Q \<and> in_order (ev_time M) Q \<and> (\<forall>j<length pes. orderly M j (is_perf pes j) (U j) (out Q j))"

lemma turn_ok:
  assumes "orderly_rings k M pes U Q" "masks_ok sty M pes" "worker_ok f I E" "\<forall>i<length pes. pv_watcher_pos (pes ! i) = W i"
    "I ctx" "\<forall>(i, e)\<in>#pending (length pes) U Q. E (W i) e"
  shows "\<exists>pes1 q n pes' es. read_rings True sty time_point_max 0 pes (map (wrap (ev_time M)) Q) = Some (pes1, q, n) \<and>
    process_queue f True sty time_point_max pes1 q ctx = Some (pes', [], feed f W es ctx, Emptied) \<and> drained k M pes U Q es pes' \<and>
    ((\<forall>j<length pes. U j = []) \<longrightarrow> n = 0)"
proof -
  have "reading k M (length []) ([] @ pes) U Q" using assms(1) by (simp add: orderly_rings_def reading_def)
  note read_rings_ok[OF this, of sty, unfolded append_Nil list.size(3), OF assms(2)]
  then obtain pes1 U' Q' n where
    r: "read_rings True sty time_point_max 0 pes (map (wrap (ev_time M)) Q) = Some (pes1, map (wrap (ev_time M)) Q', n)"
      "same_rings pes pes1" "reading k M (length pes) pes1 U' Q'" "same_events pes U Q U' Q'" "(\<forall>j<length pes. U j = []) \<longrightarrow> n = 0" by blast
  note l = same_ringsD[OF r(2)]
  have "rings_ok k pes1 U' Q'" "fully_read M pes1 U' Q'" "in_order (ev_time M) Q'"
    using r(3) l(1) by (auto simp: reading_def fully_read_def)
  moreover have "\<forall>(i, e)\<in>#pending (length pes1) U' Q'. E (W i) e" using assms(6) r(4) l(1) by (simp add: same_events_def)
  ultimately obtain pes' es where
    p: "process_queue f True sty time_point_max pes1 (map (wrap (ev_time M)) Q') ctx = Some (pes', [], feed f W es ctx, Emptied)"
      "drained k M pes1 U' Q' es pes'"
    using process_queue_ok[OF _ _ _ masks_ok_same[OF assms(2) r(2)] assms(3) _ assms(5)] assms(4) l by (metis (no_types, lifting))
  have "drained k M pes U Q es pes'"
    using p(2) r(2,4) l same_rings_trans[OF r(2)] by (auto simp: drained_def same_events_def)
  then show ?thesis using r(1,5) p(1) by blast
qed

lemma drained_orderly: "drained k M pes U Q es pes' \<Longrightarrow> orderly_rings k M pes' (\<lambda>_. []) []"
  by (auto simp: drained_def orderly_rings_def orderly_def out_def)

lemma drained_nothing: "drained k M pes (\<lambda>_. []) [] es pes' \<Longrightarrow> es = []"
  by (simp add: drained_def pending_def)

lemma ordered_turns_drain:
  assumes inv: "orderly_rings k M pes U Q" and m: "masks_ok sty M pes" and w: "worker_ok f I E" and wp: "\<forall>i<length pes. pv_watcher_pos (pes ! i) = W i"
    and c: "I ctx" "\<forall>(i, e)\<in>#pending (length pes) U Q. E (W i) e" and t: "t1 \<le> time_point_max" "t2 \<le> time_point_max"
  shows "\<exists>pes' es. ordered_turns f True sty True time_point_max ((False, t1) # (False, t2) # ticks) pes (map (wrap (ev_time M)) Q) ctx =
    Some (pes', [], feed f W es ctx, ddres_init) \<and> drained k M pes U Q es pes'"
proof -
  from turn_ok[OF inv m w wp c] obtain pes1 q n pes2 es where
    a: "read_rings True sty time_point_max 0 pes (map (wrap (ev_time M)) Q) = Some (pes1, q, n)"
      "process_queue f True sty time_point_max pes1 q ctx = Some (pes2, [], feed f W es ctx, Emptied)" "drained k M pes U Q es pes2" by blast
  have same: "same_rings pes pes2" using a(3) by (simp add: drained_def)
  have "\<forall>(i, e)\<in>set es. E (W i) e" using c(2) a(3) unfolding drained_def by (metis set_mset_mset)
  then have "I (feed f W es ctx)" by (rule feed_inv[OF w c(1)])
  from turn_ok[OF drained_orderly[OF a(3)] masks_ok_same[OF m same] w _ this, of W] wp same_ringsD[OF same] obtain pes3 q3 pes4 es4 where
    b: "read_rings True sty time_point_max 0 pes2 [] = Some (pes3, q3, 0)"
      "process_queue f True sty time_point_max pes3 q3 (feed f W es ctx) = Some (pes4, [], feed f W es4 (feed f W es ctx), Emptied)"
      "drained k M pes2 (\<lambda>_. []) [] es4 pes4" by (auto simp: pending_def)
  have e4: "es4 = []" using b(3) by (rule drained_nothing)
  have "drained k M pes U Q es pes4" using a(3) b(3) same_rings_trans by (auto simp: drained_def)
  moreover have "drained k M pes U Q es pes2" by (rule a(3))
  ultimately show ?thesis using a(1,2) b(1,2) t e4
    by (cases "n = 0") (auto simp: not_less feed_def)
qed

section \<open>Property\<close>

text \<open>C11. When the ordered loop drains the rings, with a worker that does not fail on these events and no
  request to stop in its two turns, it ends, and the worker has got every event that was queued or in a ring, once, in
  the order of the time stamps, the events of one perf ring in the order of the ring; the queue and
  all rings are empty.\<close>

theorem ordered_drain_complete:
  assumes "orderly_rings k (\<lambda>i. sample_type (pv_watcher_pos (pes ! i))) pes U Q"
    and "worker_ok process_event I E" "I ctx" "\<forall>(i, e)\<in>#pending (length pes) U Q. E (pv_watcher_pos (pes ! i)) e"
    and "t1 \<le> time_point_max" "t2 \<le> time_point_max"
  shows "\<exists>pes' es. worker_process_ring_buffers_ordered process_event True sample_type True ((False, t1) # (False, t2) # ticks) pes
        (map (wrap (ev_time (\<lambda>i. sample_type (pv_watcher_pos (pes ! i))))) Q) ctx =
      Some (pes', [], feed process_event (\<lambda>i. pv_watcher_pos (pes ! i)) es ctx, ddres_init) \<and>
    mset es = pending (length pes) U Q \<and>
    sorted (map (\<lambda>(i, e). ev_time (\<lambda>i. sample_type (pv_watcher_pos (pes ! i))) i e) es) \<and>
    (\<forall>j<length pes. is_perf pes j \<longrightarrow> of_ring j es = ring_seq U Q j) \<and>
    rings_ok k pes' (\<lambda>_. []) []"
  using ordered_turns_drain[OF assms(1) _ assms(2) _ assms(3) _ assms(5,6), of sample_type "\<lambda>i. pv_watcher_pos (pes ! i)" ticks]
  assms(4) unfolding worker_process_ring_buffers_ordered_def drained_def masks_ok_def by auto

text \<open>Two perf rings with one sample each, the later one in the first ring.\<close>

definition loop_ex_event :: "u8 \<Rightarrow> u8 list" where
  "loop_ex_event t = [9, 0, 0, 0, 0, 0, 24, 0, 5, 0, 0, 0, 6, 0, 0, 0, t, 0, 0, 0, 0, 0, 0, 0]"

definition loop_ex_ring :: "u8 \<Rightarrow> RingBuffer" where
  "loop_ex_ring t = perf_ex_rb0\<lparr>rb_mask := 31, rb_data_size := 32, rb_data := loop_ex_event t @ replicate 8 0, rb_writer_pos := 24\<rparr>"

definition loop_ex_pes :: "PEvent list" where
  "loop_ex_pes = [\<lparr>pv_rb = loop_ex_ring 20, pv_watcher_pos = 0, pv_custom_event = False\<rparr>, \<lparr>pv_rb = loop_ex_ring 10, pv_watcher_pos = 1, pv_custom_event = False\<rparr>]"

definition loop_ex_events :: "nat \<Rightarrow> u8 list list" where
  "loop_ex_events i = [loop_ex_event (if i = 0 then 20 else 10)]"

lemma loop_ex_holds: "ring_holds 5 (loop_ex_ring t) {} [loop_ex_event t]"
proof -
  have "perf_at 5 (loop_ex_ring t) 0 0 24"
    by (simp add: perf_at_def rb_wf_def loop_ex_ring_def loop_ex_event_def perf_ex_rb0_def)
  moreover have "event_ok (loop_ex_event t)" by (simp add: event_ok_def loop_ex_event_def hdr_size_def le_nat_def)
  moreover have "rd (rb_data (loop_ex_ring t)) 0 24 = loop_ex_event t" by (simp add: rd_def loop_ex_ring_def loop_ex_event_def upt_rec)
  moreover have "length (loop_ex_event t) = 24" by (simp add: loop_ex_event_def)
  ultimately have "perf_holds 5 (loop_ex_ring t) {} [loop_ex_event t]"
    unfolding perf_holds_def by (intro exI[of _ 0] exI[of _ 24]) (simp add: stride_def)
  then show ?thesis by (simp add: ring_holds_def loop_ex_ring_def perf_ex_rb0_def)
qed

lemma loop_ex_time: "hdr_time (loop_ex_event 10) 6 = Some 10" "hdr_time (loop_ex_event 20) 6 = Some 20"
  by (simp_all add: hdr_time_def loop_ex_event_def ld_header_def ld64_def ld_def le_nat_def half0_def half1_def popcount_3 PERF_SAMPLE_TIME_def PERF_RECORD_SAMPLE_def)

lemma two_in_order: "mset es = {#a, b#} \<Longrightarrow> sorted (map f es) \<Longrightarrow> f b < (f a :: int) \<Longrightarrow> es = [b, a]"
proof -
  assume e: "mset es = {#a, b#}" "sorted (map f es)" "f b < f a"
  have "length es = 2" using arg_cong[OF e(1), of size] by simp
  then obtain x y where "es = [x, y]" by (auto simp: numeral_2_eq_2 length_Suc_conv)
  then show ?thesis using e by (auto simp: add_eq_conv_ex)
qed

lemma loop_ex_orderly: "orderly_rings (\<lambda>_. 5) (\<lambda>i. 6) loop_ex_pes loop_ex_events []"
proof -
  have "timed (\<lambda>i. 6) i (loop_ex_event 10)" "timed (\<lambda>i. 6) i (loop_ex_event 20)" for i using loop_ex_time by (simp_all add: timed_def)
  then show ?thesis using loop_ex_holds[of 10] loop_ex_holds[of 20]
    by (simp add: orderly_rings_def rings_ok_def orderly_def out_def loop_ex_pes_def loop_ex_events_def numeral_2_eq_2 less_Suc_eq all_conj_distrib disj_imp)
qed

lemma loop_ex_order:
  assumes "mset es = pending (length loop_ex_pes) loop_ex_events []" "sorted (map (\<lambda>(i, e). ev_time (\<lambda>i. 6) i e) es)"
  shows "es = [(1, loop_ex_event 10), (0, loop_ex_event 20)]"
proof -
  have t: "ev_time (\<lambda>i. 6) i (loop_ex_event 10) = 10" "ev_time (\<lambda>i. 6) i (loop_ex_event 20) = 20" for i
    using loop_ex_time by (simp_all add: ev_time_def)
  have "pending (length loop_ex_pes) loop_ex_events [] = {#(0, loop_ex_event 20), (1, loop_ex_event 10)#}"
    by (simp add: pending_def loop_ex_pes_def loop_ex_events_def numeral_2_eq_2)
  then show ?thesis using assms t by (intro two_in_order[where f = "\<lambda>(i, e). ev_time (\<lambda>i. 6) i e"]) auto
qed

theorem ordered_drain_complete_witness:
  "\<exists>pes'. worker_process_ring_buffers_ordered (\<lambda>e w ctx. Some (ctx @ [(w, e)], ddres_init)) True (\<lambda>_. 6) True [(False, 100), (False, 200)]
     loop_ex_pes [] [] = Some (pes', [], [(1, loop_ex_event 10), (0, loop_ex_event 20)], ddres_init)"
proof -
  let ?f = "\<lambda>e (w :: nat) ctx. Some (ctx @ [(w, e)], ddres_init)"
  have "worker_ok ?f (\<lambda>_. True) (\<lambda>_ _. True)" by (simp add: worker_ok_def IsDDResOK_def ddres_init_def)
  then obtain pes' es where
    r: "worker_process_ring_buffers_ordered ?f True (\<lambda>_. 6) True [(False, 100), (False, 200)] loop_ex_pes [] [] =
        Some (pes', [], feed ?f (\<lambda>i. pv_watcher_pos (loop_ex_pes ! i)) es [], ddres_init)"
      "mset es = pending (length loop_ex_pes) loop_ex_events []" "sorted (map (\<lambda>(i, e). ev_time (\<lambda>i. 6) i e) es)"
    using ordered_drain_complete[of "\<lambda>_. 5" "\<lambda>_. 6" loop_ex_pes loop_ex_events "[]" ?f "\<lambda>_. True" "\<lambda>_ _. True" "[]" 100 200 "[]"] loop_ex_orderly
    by (auto simp: time_point_max_def)
  then show ?thesis using loop_ex_order[OF r(2,3)] by (simp add: feed_def loop_ex_pes_def)
qed

end
