(* ===== verification/Worker_Loop_Props.thy ===== *)
theory Worker_Loop_Props
  imports Worker_Loop Main_Loop_Props
begin

text \<open>
  Reading ring by ring hands the worker every event; a hang-up makes the loop of the worker drain
  the rings, export and end.
\<close>

section \<open>One ring\<close>

lemma hdr_size_append: "8 \<le> length e \<Longrightarrow> hdr_size (e @ r) = hdr_size e"
  by (simp add: hdr_size_def)

lemma process_buffer_ok:
  assumes "worker_ok f I E" "\<forall>e\<in>set q. event_ok e \<and> 8 dvd length e" "I ctx" "\<forall>e\<in>set q. E w e"
  shows "process_buffer f w rb (concat q) ctx =
    Some (rb\<lparr>rb_reader_pos := rb_reader_pos rb + of_nat (length (concat q))\<rparr>, feed f (\<lambda>w. w) (map (Pair w) q) ctx, ddres_init)"
  using assms(2-4)
proof (induction q arbitrary: rb ctx)
  case Nil
  then show ?case by (subst process_buffer.simps) simp
next
  case (Cons e q)
  have e: "8 \<le> length e" "hdr_size e = length e" "8 dvd length e" "length e \<noteq> 0" using Cons.prems by (auto simp: event_ok_def)
  have "length e < 2 ^ 16" using Cons.prems by (intro event_ok_length) simp
  then have "align_up (of_nat (length e)) kRingBufferAlignment = of_nat (stride (length e))" by (intro align_up_stride) simp
  moreover have "stride (length e) = length e" using e(3) by (auto simp: stride_def)
  ultimately have adv: "pr_advance_by rb (of_nat (length e)) = rb\<lparr>rb_reader_pos := rb_reader_pos rb + of_nat (length e)\<rparr>"
    by (simp add: pr_advance_by_def)
  obtain ctx' r where r: "f e w ctx = Some (ctx', r)" "IsDDResOK r" "I ctx'"
    using worker_okD[OF assms(1) Cons.prems(2), of w e] Cons.prems(3) by auto
  have "process_buffer f w rb (concat (e # q)) ctx =
      process_buffer f w (pr_advance_by rb (of_nat (length e))) (concat q) ctx'"
    using e r(1,2) hdr_size_append[OF e(1)] by (subst process_buffer.simps) (auto simp: max_def)
  also have "\<dots> = Some ((pr_advance_by rb (of_nat (length e)))\<lparr>rb_reader_pos := rb_reader_pos (pr_advance_by rb (of_nat (length e))) +
      of_nat (length (concat q))\<rparr>, feed f (\<lambda>w. w) (map (Pair w) q) ctx', ddres_init)"
    using Cons.prems r(3) by (intro Cons.IH) auto
  finally show ?case unfolding adv by (simp add: add.assoc r(1))
qed

lemma events_at_concat:
  "events_at data p q w \<Longrightarrow> \<forall>e\<in>set q. 8 dvd length e \<Longrightarrow>
   w = p + length (concat q) \<and> rd data p (length (concat q)) = concat q \<and> (\<forall>e\<in>set q. event_ok e)"
proof (induction q arbitrary: p)
  case (Cons e q)
  have s: "stride (length e) = length e" using Cons.prems(2) by (auto simp: stride_def)
  have e: "rd data p (length e) = e" "events_at data (p + length e) q w" "event_ok e" using Cons.prems(1) by (simp_all add: s)
  then show ?case using Cons.IH[OF e(2)] Cons.prems(2) rd_append[of data p "length e" "length (concat q)"] by simp
qed simp

lemma read_all_type: "pr_read_all_available alloc rb r = Some (rb', b) \<Longrightarrow> rb_type rb' = rb_type rb"
  by (auto simp: pr_read_all_available_def ensure_wrap_copy_buffer_def wrap_copy_write_def Let_def split: if_splits option.splits prod.splits)

definition readable :: "PEvent \<Rightarrow> u8 list list \<Rightarrow> bool" where
  "readable pe q \<longleftrightarrow> (\<exists>k. ring_holds k (pv_rb pe) {} q) \<and> (\<forall>e\<in>set q. e \<noteq> []) \<and>
     (rb_type (pv_rb pe) = kPerfRingBuffer \<longrightarrow> (\<forall>e\<in>set q. 8 dvd length e))"

lemma perf_pass_ok:
  assumes "worker_ok f I E" "readable pe q" "I ctx" "\<forall>e\<in>set q. E (pv_watcher_pos pe) e" and p: "rb_type (pv_rb pe) = kPerfRingBuffer"
  shows "\<exists>pe'. ring_pass f True pe ctx = Some (pe', feed f (\<lambda>w. w) (map (Pair (pv_watcher_pos pe)) q) ctx, q \<noteq> [], ddres_init) \<and> readable pe' []"
proof -
  let ?rb = "pv_rb pe"
  from assms obtain k i w where at: "perf_at k ?rb i i w" and ev: "events_at (rb_data ?rb) i q w" and al: "\<forall>e\<in>set q. 8 dvd length e" and ne: "\<forall>e\<in>set q. e \<noteq> []"
    by (auto simp: readable_def ring_holds_def perf_holds_def)
  note c = events_at_concat[OF ev al]
  have hd: "pr_head (pr_init ?rb) = of_nat w" using at by (simp add: pr_init_def perf_at_def)
  from read_all_bytes[OF at hd, of True] c obtain rb where
    r: "pr_read_all_available True ?rb (pr_init ?rb) = Some (rb, Some (concat q))" "perf_at k rb i w w" by auto
  have ty: "rb_type rb = kPerfRingBuffer" using read_all_type[OF r(1)] p by simp
  let ?rb' = "rb\<lparr>rb_reader_pos := rb_reader_pos rb + of_nat (length (concat q))\<rparr>"
  have at': "perf_at k ?rb' w w w" using r(2) c by (auto simp: perf_at_def)
  then have d: "pr_destroy ?rb' = ?rb'" by (simp add: pr_destroy_def perf_at_def)
  have "process_buffer f (pv_watcher_pos pe) rb (concat q) ctx = Some (?rb', feed f (\<lambda>w. w) (map (Pair (pv_watcher_pos pe)) q) ctx, ddres_init)"
    using c al assms(3,4) by (intro process_buffer_ok[OF assms(1)]) auto
  moreover have "concat q \<noteq> [] \<longleftrightarrow> q \<noteq> []" using ne by (cases q) auto
  ultimately have "ring_pass f True pe ctx = Some (pe\<lparr>pv_rb := ?rb'\<rparr>, feed f (\<lambda>w. w) (map (Pair (pv_watcher_pos pe)) q) ctx, q \<noteq> [], ddres_init)"
    using p r(1) d by (simp add: ring_pass_def Let_def)
  moreover have "perf_holds k ?rb' {} []" using at' unfolding perf_holds_def by (intro exI[of _ w]) simp
  then have "readable (pe\<lparr>pv_rb := ?rb'\<rparr>) []" using ty by (auto simp: readable_def ring_holds_def)
  ultimately show ?thesis by blast
qed

lemma ring_inv_give_all:
  assumes "ring_inv k rb b log a c D"
  shows "ring_inv k (mr_advance rb) b log c c {}"
proof -
  have "lpos b log a \<le> lpos b log c" "lpos b log (length log) - lpos b log a < 2 ^ k" using assms by (auto simp: ring_inv_def lpos_mono)
  moreover have "log_mem (rb_data rb) b log c {}"
  proof -
    have "phys {} log j = phys D log j" if "c \<le> j" for j using assms that by (auto simp: ring_inv_def phys_def)
    moreover have "log_mem (rb_data rb) b log a D" "a \<le> c" using assms by (simp_all add: ring_inv_def)
    ultimately show ?thesis by (simp add: log_mem_def)
  qed
  ultimately show ?thesis using assms by (auto simp: ring_inv_def mr_advance_def)
qed

lemma process_samples_ok:
  assumes "worker_ok f I E" "ring_inv k rb b log a c D" "\<forall>e\<in>set log. fst e = Committed" "\<forall>e\<in>set (drop c log). snd e \<noteq> [] \<and> E w (snd e)"
    "I ctx" "mr_head rd' = of_nat (lpos b log (length log))"
  shows "\<exists>rb' a D. process_samples f w rd' events rb ctx =
      Some (rb', feed f (\<lambda>w. w) (map (Pair w) (map snd (drop c log))) ctx, events \<or> drop c log \<noteq> [], ddres_init) \<and>
    ring_inv k rb' b log a (length log) D \<and> rb_type rb' = rb_type rb"
  using assms
proof (induction "length log - c" arbitrary: rb a c D events ctx)
  case 0
  have c: "c = length log" using 0 by (simp add: ring_inv_def)
  have w: "ring_inv k (rb\<lparr>rb_intermediate_reader_pos := of_nat (lpos b log c)\<rparr>) b log a c D" using c by (intro ring_inv_read[OF 0(3)]) auto
  from read_sample_log[OF 0(3), of c] c have "mr_read_sample rb rd' = Some (rb\<lparr>rb_intermediate_reader_pos := of_nat (lpos b log c)\<rparr>, None)"
    using 0(7) by (auto simp: mr_read_sample_def)
  then have "process_samples f w rd' events rb ctx = Some (rb\<lparr>rb_intermediate_reader_pos := of_nat (lpos b log c)\<rparr>, ctx, events, ddres_init)"
    by (subst process_samples.simps) simp
  then show ?case using w c by (intro exI[of _ "rb\<lparr>rb_intermediate_reader_pos := of_nat (lpos b log c)\<rparr>"] exI[of _ a] exI[of _ D]) simp
next
  case (Suc n)
  have c: "c < length log" using Suc.hyps(2) by simp
  have st: "fst (log ! j) = Committed" if "j < length log" for j using Suc.prems(3) that by simp
  let ?e = "snd (log ! c)" and ?rb = "rb\<lparr>rb_intermediate_reader_pos := of_nat (lpos b log (Suc c))\<rparr>"
  have d: "drop c log = log ! c # drop (Suc c) log" using c by (rule Cons_nth_drop_Suc[symmetric])
  from read_sample_log[OF Suc.prems(2), of "length log"] c obtain m where m: "c + m \<le> length log"
    "\<forall>j. c \<le> j \<and> j < c + m \<longrightarrow> fst (log ! j) = Discarded" and
    r: "c + m < length log \<and> fst (log ! (c + m)) = Committed \<and>
       mr_read_sample rb rd' = Some (rb\<lparr>rb_intermediate_reader_pos := of_nat (lpos b log (Suc (c + m)))\<rparr>, Some (lbuf (rb_mask rb) b log (c + m))) \<or>
     (c + m = length log \<or> fst (log ! (c + m)) = Busy) \<and>
       mr_read_sample rb rd' = Some (rb\<lparr>rb_intermediate_reader_pos := of_nat (lpos b log (c + m))\<rparr>, None)"
    unfolding mr_read_sample_def Suc.prems(6) by auto
  have m0: "m = 0"
  proof (rule ccontr)
    assume "m \<noteq> 0"
    then have "fst (log ! c) = Discarded" using m by auto
    then show False using st[OF c] by simp
  qed
  then have read: "mr_read_sample rb rd' = Some (?rb, Some (lbuf (rb_mask rb) b log c))" using r st[OF c] c by auto
  have inv: "ring_inv k ?rb b log a (Suc c) D" using c st by (intro ring_inv_read[OF Suc.prems(2)]) auto
  have "c \<notin> D" "a \<le> c" using Suc.prems(2) by (auto simp: ring_inv_def)
  then have ld: "rb_load ?rb (unat (fst (lbuf (rb_mask rb) b log c))) (unat (snd (lbuf (rb_mask rb) b log c))) = Some ?e"
    using lbuf_load[OF inv _ c] by simp
  have "length ?e < 2 ^ 62" using ring_inv_entry[OF Suc.prems(2) \<open>a \<le> c\<close> c \<open>c \<notin> D\<close>] by (simp add: entry_at_def)
  then have n: "snd (lbuf (rb_mask rb) b log c) \<noteq> 0"
    using Suc.prems(4) unat_of_nat_u64[of "length ?e"] by (auto simp: lbuf_def d unsigned_eq_0_iff)
  obtain ctx' res where f: "f ?e w ctx = Some (ctx', res)" "IsDDResOK res" "I ctx'"
    using worker_okD[OF Suc.prems(1,5), of w ?e] Suc.prems(4) d by auto
  have step: "process_samples f w rd' events rb ctx = process_samples f w rd' True (mr_advance ?rb) ctx'"
    using read ld n f(1,2) by (subst process_samples.simps) (simp add: case_prod_unfold)
  have "n = length log - Suc c" using Suc.hyps(2) by simp
  moreover have "\<forall>e\<in>set (drop (Suc c) log). snd e \<noteq> [] \<and> E w (snd e)" using Suc.prems(4) d by simp
  ultimately obtain rb' a' D' where ih: "process_samples f w rd' True (mr_advance ?rb) ctx' =
      Some (rb', feed f (\<lambda>w. w) (map (Pair w) (map snd (drop (Suc c) log))) ctx', True, ddres_init)"
    "ring_inv k rb' b log a' (length log) D'" "rb_type rb' = rb_type (mr_advance ?rb)"
    using Suc.hyps(1)[OF _ Suc.prems(1) ring_inv_give_all[OF inv] Suc.prems(3) _ f(3) Suc.prems(6), of True] by auto
  then show ?case unfolding step using f(1) by (intro exI[of _ rb'] exI[of _ a'] exI[of _ D']) (simp add: d mr_advance_def)
qed

lemma mpsc_pass_ok:
  assumes "worker_ok f I E" "readable pe q" "I ctx" "\<forall>e\<in>set q. E (pv_watcher_pos pe) e" and p: "rb_type (pv_rb pe) \<noteq> kPerfRingBuffer"
  shows "\<exists>pe'. ring_pass f True pe ctx = Some (pe', feed f (\<lambda>w. w) (map (Pair (pv_watcher_pos pe)) q) ctx, q \<noteq> [], ddres_init) \<and> readable pe' []"
proof -
  let ?rb = "pv_rb pe"
  from assms obtain k b log a c D where inv: "ring_inv k ?rb b log a c D" and com: "\<forall>e\<in>set log. fst e = Committed"
    and q: "q = committed (drop c log)" and ne: "\<forall>e\<in>set q. e \<noteq> []"
    by (auto simp: readable_def ring_holds_def mpsc_holds_def)
  have "\<forall>e\<in>set (drop c log). fst e = Committed" using com by (auto dest: in_set_dropD)
  then have q': "q = map snd (drop c log)" unfolding q committed_def by simp
  have "mr_head (mr_init ?rb) = of_nat (lpos b log (length log))" using inv by (simp add: mr_init_def ring_inv_def)
  from process_samples_ok[OF assms(1) inv com _ assms(3) this, of "pv_watcher_pos pe" False] ne assms(4) obtain rb a' D' where
    r: "process_samples f (pv_watcher_pos pe) (mr_init ?rb) False ?rb ctx =
        Some (rb, feed f (\<lambda>w. w) (map (Pair (pv_watcher_pos pe)) q) ctx, q \<noteq> [], ddres_init)"
      "ring_inv k rb b log a' (length log) D'" "rb_type rb = rb_type ?rb" unfolding q' by auto
  have "mpsc_holds k rb {} []" "mpsc_holds k (mr_advance rb) {} []"
    using mpsc_holdsI[OF r(2) com, of "{}"] mpsc_holdsI[OF ring_inv_give_all[OF r(2)] com, of "{}"] by (simp_all add: committed_def)
  then have "readable (pe\<lparr>pv_rb := mr_destroy rb\<rparr>) []" using p r(3)
    by (auto simp: readable_def ring_holds_def mr_destroy_def mr_advance_def)
  then show ?thesis using r(1) p by (simp add: ring_pass_def Let_def)
qed

lemma ring_pass_ok:
  assumes "worker_ok f I E" "readable pe q" "I ctx" "\<forall>e\<in>set q. E (pv_watcher_pos pe) e"
  shows "\<exists>pe'. ring_pass f True pe ctx = Some (pe', feed f (\<lambda>w. w) (map (Pair (pv_watcher_pos pe)) q) ctx, q \<noteq> [], ddres_init) \<and> readable pe' []"
  using perf_pass_ok[OF assms] mpsc_pass_ok[OF assms] by blast

section \<open>All rings\<close>

definition by_ring :: "PEvent list \<Rightarrow> u8 list list list \<Rightarrow> (nat \<times> u8 list) list" where
  "by_ring pes qs = concat (map2 (\<lambda>pe q. map (Pair (pv_watcher_pos pe)) q) pes qs)"

lemma by_ring_Cons [simp]: "by_ring (pe # pes) (q # qs) = map (Pair (pv_watcher_pos pe)) q @ by_ring pes qs" "by_ring [] qs = []"
  by (simp_all add: by_ring_def)

lemma by_ring_none: "list_all (\<lambda>q. q = []) qs \<Longrightarrow> by_ring pes qs = []"
  by (auto simp: by_ring_def list_all_iff dest: set_zip_rightD)

lemma rings_pass_ok:
  assumes "worker_ok f I E" "list_all2 readable pes qs" "I ctx" "\<forall>(w, e)\<in>set (by_ring pes qs). E w e"
  shows "\<exists>pes'. rings_pass f True pes ctx = Some (pes', feed f (\<lambda>w. w) (by_ring pes qs) ctx, \<not> list_all (\<lambda>q. q = []) qs, ddres_init) \<and>
    list_all2 readable pes' (map (\<lambda>_. []) qs)"
  using assms(2-4)
proof (induction arbitrary: ctx rule: list_all2_induct)
  case (Cons pe pes q qs)
  have "\<forall>e\<in>set q. E (pv_watcher_pos pe) e" using Cons.prems(2) by auto
  from ring_pass_ok[OF assms(1) Cons(1) Cons.prems(1) this] obtain pe' where
    r: "ring_pass f True pe ctx = Some (pe', feed f (\<lambda>w. w) (map (Pair (pv_watcher_pos pe)) q) ctx, q \<noteq> [], ddres_init)" "readable pe' []" by blast
  have "I (feed f (\<lambda>w. w) (map (Pair (pv_watcher_pos pe)) q) ctx)" using Cons.prems by (intro feed_inv[OF assms(1)]) auto
  from Cons.IH[OF this] Cons.prems(2) obtain pes' where
    ih: "rings_pass f True pes (feed f (\<lambda>w. w) (map (Pair (pv_watcher_pos pe)) q) ctx) =
        Some (pes', feed f (\<lambda>w. w) (by_ring pes qs) (feed f (\<lambda>w. w) (map (Pair (pv_watcher_pos pe)) q) ctx), \<not> list_all (\<lambda>q. q = []) qs, ddres_init)"
      "list_all2 readable pes' (map (\<lambda>_. []) qs)" by auto
  have "IsDDResOK ddres_init" by (simp add: IsDDResOK_def ddres_init_def)
  then show ?case using r ih by (intro exI[of _ "pe' # pes'"]) auto
qed simp

text \<open>C18. Reading ring by ring, with a worker that does not fail on these events, ends, and the worker has got every event of
  every ring, once, ring after ring in the order of each ring, whatever the clock shows; the rings
  are empty. Events of a perf ring have a size that is a multiple of 8.\<close>

theorem unordered_pass_complete:
  assumes "worker_ok process_event I E" "list_all2 readable pes qs" "I ctx" "\<forall>(w, e)\<in>set (by_ring pes qs). E w e"
  shows "\<exists>pes' fin. worker_process_ring_buffers process_event True (t0 # t1 # t2 # clock) pes ctx =
      Some (pes', feed process_event (\<lambda>w. w) (by_ring pes qs) ctx, Some fin, ddres_init) \<and> list_all2 readable pes' (map (\<lambda>_. []) qs)"
proof -
  have ok: "IsDDResOK ddres_init" by (simp add: IsDDResOK_def ddres_init_def)
  from rings_pass_ok[OF assms] obtain pes1 where
    a: "rings_pass process_event True pes ctx = Some (pes1, feed process_event (\<lambda>w. w) (by_ring pes qs) ctx, \<not> list_all (\<lambda>q. q = []) qs, ddres_init)"
      "list_all2 readable pes1 (map (\<lambda>_. []) qs)" by blast
  have none: "list_all (\<lambda>q. q = []) (map (\<lambda>_. []) qs)" by (simp add: list_all_iff)
  have "I (feed process_event (\<lambda>w. w) (by_ring pes qs) ctx)" using assms(3,4) by (intro feed_inv[OF assms(1)])
  from rings_pass_ok[OF assms(1) a(2) this] obtain pes2 where
    b: "rings_pass process_event True pes1 (feed process_event (\<lambda>w. w) (by_ring pes qs) ctx) =
        Some (pes2, feed process_event (\<lambda>w. w) (by_ring pes qs) ctx, False, ddres_init)" "list_all2 readable pes2 (map (\<lambda>_. []) qs)"
    using none unfolding by_ring_none[OF none] by (auto simp: comp_def)
  show ?thesis using a b ok by (auto simp: worker_process_ring_buffers_def)
qed

lemma loop_ex_readable: "list_all2 readable loop_ex_pes [[loop_ex_event 20], [loop_ex_event 10]]"
proof -
  have "readable \<lparr>pv_rb = loop_ex_ring t, pv_watcher_pos = w, pv_custom_event = False\<rparr> [loop_ex_event t]" for t w
  proof -
    have "length (loop_ex_event t) = 24" by (simp add: loop_ex_event_def)
    then show ?thesis using loop_ex_holds[of t] by (auto simp: readable_def)
  qed
  then show ?thesis by (simp add: loop_ex_pes_def)
qed

theorem unordered_pass_complete_witness:
  "\<exists>pes' fin. worker_process_ring_buffers (\<lambda>e w ctx. Some (ctx @ [(w, e)], ddres_init)) True [0, 5, 10] loop_ex_pes [] =
     Some (pes', [(0, loop_ex_event 20), (1, loop_ex_event 10)], Some fin, ddres_init)"
proof -
  let ?f = "\<lambda>e (w :: nat) ctx. Some (ctx @ [(w, e)], ddres_init)"
  have "worker_ok ?f (\<lambda>_. True) (\<lambda>_ _. True)" by (simp add: worker_ok_def IsDDResOK_def ddres_init_def)
  from unordered_pass_complete[OF this loop_ex_readable, of 0 5 10 "[]" "[]"] show ?thesis
    by (auto simp: loop_ex_pes_def)
qed

section \<open>The end\<close>

lemma not_fatal_init [simp]: "IsDDResFatal ddres_init \<longleftrightarrow> False" "IsDDResOK ddres_init"
  by (simp_all add: IsDDResFatal_def IsDDResOK_def ddres_init_def)

lemma ordered_drain:
  assumes "orderly_rings k (\<lambda>i. sample_type (pv_watcher_pos (pes ! i))) pes U Q" "worker_ok f I E" "I ctx"
    "\<forall>(i, e)\<in>#pending (length pes) U Q. E (pv_watcher_pos (pes ! i)) e" "t1 \<le> time_point_max" "t2 \<le> time_point_max"
  shows "\<exists>pes' es. worker_process_ring_buffers_ordered f True sample_type True ((False, t1) # (False, t2) # ticks) pes
      (map (wrap (ev_time (\<lambda>i. sample_type (pv_watcher_pos (pes ! i))))) Q) ctx =
    Some (pes', [], feed f (\<lambda>i. pv_watcher_pos (pes ! i)) es ctx, ddres_init) \<and> drained k (\<lambda>i. sample_type (pv_watcher_pos (pes ! i))) pes U Q es pes'"
  unfolding worker_process_ring_buffers_ordered_def using ordered_turns_drain[OF assms(1) _ assms(2) _ assms(3) _ assms(5,6)] assms(4) by (auto simp: masks_ok_def)

text \<open>The context after the start of the loop, and after the last event: export, final cycle, end.\<close>

definition loop_started :: "'c worker_attr \<Rightarrow> loop_params \<Rightarrow> 'c \<Rightarrow> 'c" where
  "loop_started attr params ctx = (if 0 < lp_pid params \<and> lp_backpopulate_pid_upon_start params \<and> lp_profile_seq params = 0
     then wa_backpopulate attr (fst (wa_init_fun attr ctx)) else fst (wa_init_fun attr ctx))"

definition loop_finished :: "'c worker_attr \<Rightarrow> int \<Rightarrow> 'c \<Rightarrow> 'c" where
  "loop_finished attr now ctx = wa_finish_fun attr (fst (wa_worker_cycle attr (fst (wa_maybe_export attr ctx now))))"

definition attr_ok :: "'c worker_attr \<Rightarrow> 'c \<Rightarrow> bool" where
  "attr_ok attr ctx \<longleftrightarrow> \<not> IsDDResFatal (snd (wa_init_fun attr ctx)) \<and>
     (\<forall>c t. \<not> IsDDResFatal (snd (wa_maybe_export attr c t)) \<and> \<not> wa_restart_worker attr (fst (wa_maybe_export attr c t))) \<and>
     (\<forall>c. \<not> IsDDResFatal (snd (wa_worker_cycle attr c)))"


text \<open>A worker that keeps the events and counts its cycles; the second ring hangs up.\<close>

definition hangup_ex_attr :: "((nat \<times> u8 list) list \<times> nat) worker_attr" where
  "hangup_ex_attr = \<lparr>wa_init_fun = (\<lambda>c. (c, ddres_init)), wa_finish_fun = (\<lambda>c. c), wa_backpopulate = (\<lambda>c. c),
     wa_process_event = (\<lambda>e w (es, n). Some ((es @ [(w, e)], n), ddres_init)), wa_maybe_export = (\<lambda>c t. (c, ddres_init)),
     wa_worker_cycle = (\<lambda>(es, n). ((es, n + 1), ddres_init)), wa_restart_worker = (\<lambda>c. False)\<rparr>"

definition hangup_ex_params :: loop_params where
  "hangup_ex_params = \<lparr>lp_pid = 0, lp_backpopulate_pid_upon_start = False, lp_profile_seq = 0, lp_reorder_events = True,
     lp_sample_type = (\<lambda>_. 6), lp_alloc = True\<rparr>"

definition hangup_ex_tick :: loop_tick where
  "hangup_ex_tick = \<lparr>lt_termination_requested = False, lt_poll = PollOk [(False, True, True), (True, False, True)],
     lt_ordered = [(False, 100), (False, 200)], lt_clock = [], lt_now = 300\<rparr>"


end
