(* ===== verification/Spec2Isabelle.thy ===== *)
theory Spec2Isabelle
  imports Dso_Hdr Perf_Ring Mpsc_Props Address_Set Live_Alloc Perf_Sample Alloc_Sampling Hook_Lifecycle Worker_Loop_Props
begin

text \<open>
  Verification of ddprof, a profiler for native programs.

  \<^bold>\<open>The program.\<close> A library in the profiled process replaces the allocation functions by hooks
  (\<^verbatim>\<open>lib/symbol_overrides.cc\<close>, by rewriting relocation entries in \<^verbatim>\<open>lib/elfutils.cc\<close>). A hook calls the
  allocation tracker (\<^verbatim>\<open>lib/allocation_tracker.cc\<close>), which samples allocations, remembers sampled addresses
  (\<^verbatim>\<open>lib/address_bitset.cc\<close>) and writes events into a ring shared with the profiler
  (\<^verbatim>\<open>ringbuffer_utils.hpp\<close>). The kernel writes its own events into perf rings. The profiler reads all rings
  in its main loop (\<^verbatim>\<open>perf_mainloop.cc\<close>), decodes the records (\<^verbatim>\<open>perf_ringbuffer.cc\<close>), keeps the memory
  mappings of the profiled processes (\<^verbatim>\<open>dso_hdr.cc\<close>) and the live allocations (\<^verbatim>\<open>live_allocation.cc\<close>), and
  exports profiles.

  \<^bold>\<open>Conventions.\<close> A class is a record, its methods are functions from the old state to the new one.
  Machine integers are words of their width where they can wrap; positions, sizes and times that the
  proofs bound are natural numbers or integers. A \<^verbatim>\<open>std::map\<close> is a sorted list (\<^verbatim>\<open>Std_Map\<close>), a
  \<^verbatim>\<open>std::unordered_map\<close> an association list. \<^term>\<open>None\<close> is an access outside memory or a loop that does not
  end; error codes are values of \<^verbatim>\<open>DDRes\<close>. System calls, clocks, random numbers, the C library and the
  dynamic loader are arguments.

  \<^bold>\<open>Shared theories.\<close> \<^verbatim>\<open>Ddprof_Prelude\<close>: types, rule collections, lemmas on words, lists and association
  lists. \<^verbatim>\<open>Std_Map\<close>: ordered maps. \<^verbatim>\<open>Interfaces\<close>: the contracts between components as locales, with what
  follows from them (finding the closest mapping, emptying a source of events, a set with a counter).

  \<^bold>\<open>Mappings.\<close> \<^verbatim>\<open>Dso\<close> (\<^verbatim>\<open>dso.cc\<close>): one mapping, its type, its relations. \<^verbatim>\<open>Dso_Map\<close>: the mappings of a
  process and the search in them. \<^verbatim>\<open>Proc_Maps\<close>: a line of \<^verbatim>\<open>/proc/<pid>/maps\<close>. \<^verbatim>\<open>Dso_Hdr\<close> (\<^verbatim>\<open>dso_hdr.cc\<close>): all
  operations on all processes. Shown: mappings of a process stay disjoint, in order and consistent
  with the table of files under every operation; inserting a mapping cuts out exactly the addresses it
  covers; what the lookup of an address returns after inserting and forking; a printed line is read back.

  \<^bold>\<open>Rings.\<close> \<^verbatim>\<open>Ring_Mem\<close>, \<^verbatim>\<open>Ring_Buffer\<close>: the memory, the cursors, the operations of the perf ring.
  \<^verbatim>\<open>Perf_Ring\<close>: a writer and a reader in any interleaving. \<^verbatim>\<open>Mpsc_Ring\<close>: the ring with many writers.
  \<^verbatim>\<open>Mpsc_System\<close>: any number of writers and a consumer as a step relation, with its invariant.
  \<^verbatim>\<open>Mpsc_Props\<close>: what follows. Shown: events come out as they were written, in order and once; buffers of
  two writers never overlap; operations return; the memory is never left; cursors may wrap.

  \<^bold>\<open>Records.\<close> \<^verbatim>\<open>Perf_Sample\<close> (\<^verbatim>\<open>perf_ringbuffer.cc\<close>): a sample that is encoded is decoded again for every mask;
  the time that is read directly from a record is the one that decoding gives.

  \<^bold>\<open>Allocations in the profiled process.\<close> \<^verbatim>\<open>Address_Set\<close>: the open-addressing table is a set with a
  counter. \<^verbatim>\<open>Alloc_Tracker\<close>: the tracker, one call after the other, with what others do to the ring in
  between as an argument. \<^verbatim>\<open>Alloc_Tracker_Props\<close>, \<^verbatim>\<open>Alloc_Sampling\<close>: every call returns; every tracked address
  is accounted for by an event; deterministic sampling accounts for all bytes up to an interval; when
  the tracker gives up. \<^verbatim>\<open>Elf_Hash\<close>, \<^verbatim>\<open>Elf_Overrides\<close>, \<^verbatim>\<open>Elf_Override_Props\<close>: symbol lookup, and replacing and
  restoring entries. \<^verbatim>\<open>Alloc_Hooks\<close>: one definition per hook. \<^verbatim>\<open>Hook_Calls\<close>: calls that run inside one another.
  \<^verbatim>\<open>Hook_Props\<close>, \<^verbatim>\<open>Hook_Lifecycle\<close>: hooks keep the contract of what they replace, only the outermost call is
  tracked, setup and removal leave the memory as it was.

  \<^bold>\<open>The profiler.\<close> \<^verbatim>\<open>Unwind_Output\<close>, \<^verbatim>\<open>Live_Alloc\<close> (\<^verbatim>\<open>live_allocation.cc\<close>): the tables of live allocations refine a
  map from addresses to stacks and values. \<^verbatim>\<open>Ring_Reader\<close>: both kinds of ring as the main loop sees them,
  with the events that are out. \<^verbatim>\<open>Main_Loop\<close>, \<^verbatim>\<open>Main_Loop_Props\<close>: reading in the order of time. \<^verbatim>\<open>Worker_Loop\<close>,
  \<^verbatim>\<open>Worker_Loop_Props\<close>: reading ring by ring, the loop of the worker, the process that starts workers.
  Shown: draining hands the worker every event once, in the order of time; a hang-up drains, exports and
  ends.

  \<^bold>\<open>Composition.\<close> The hooks over the tracker, the tracker over the set of addresses and the ring, and the
  live allocations of a profiler that gets the events, agree on which addresses are allocated, as long as
  no deallocation was lost. The main loop is proved over the contract of the rings, which both kinds
  satisfy.

  \<^bold>\<open>Bounds.\<close> The size of a ring is \<open>2 ^ k\<close> bytes with \<open>3 \<le> k \<le> 62\<close>; less than a ring is in use. Loops over rings
  and tables are partial functions that are proved to return. Emptying a source has fuel, and one more
  than the number of events is enough. The ordered loop gets the answers of the clock as a list; two
  turns are enough to drain, and reading ring by ring needs three readings of the clock.

  \<^bold>\<open>Not modelled.\<close> Weak memory: an operation on a ring is one step, and retries of compare-and-swap in the
  set of addresses are left out. The worker that aggregates events and exports
  (\<^verbatim>\<open>ddprof_worker.cc\<close>) is an argument of the main loop: its core is unwinding with libdw, symbolization
  and libdatadog profiles, which are third-party code. For the same reason: \<^verbatim>\<open>unwind*.cc\<close>, \<^verbatim>\<open>dwfl_*.cc\<close>,
  \<^verbatim>\<open>symbolizer.cc\<close> and the symbol lookups, \<^verbatim>\<open>pprof/\<close>, \<^verbatim>\<open>exporter/\<close>. Pure input and output or system calls:
  opening perf events, sockets between the processes, loader and start-up, command line, tags, container
  identifier, statistics, logging, clocks. The lists of watchers and presets are configuration tables.
\<close>

end
